(* ===== verification/CPrelude.thy ===== *)
theory CPrelude
  imports Main "HOL-Library.Word"
begin

text \<open>
  The prelude of the development: the vocabulary every component shares.
  \<^item> The machine types of the C sources (\<open>u8\<close>, \<open>u16\<close>, \<open>u32\<close>, \<open>u64\<close>) and file descriptors.
  \<^item> \<open>errno\<close> values and the shape of a system call's answer. \<^verbatim>\<open>read(2)\<close> answers either a
    block of bytes, whose length is the returned \<^verbatim>\<open>ssize_t\<close> (the empty block is end of file), or
    \<^verbatim>\<open>-1\<close> with an \<open>errno\<close>; \<^verbatim>\<open>write(2)\<close> answers a count or \<^verbatim>\<open>-1\<close>.
  \<^item> \<open>ssize\<close>, the \<^verbatim>\<open>ssize_t\<close> a library routine returns: a count, or \<^verbatim>\<open>-1\<close> together with the
    \<open>errno\<close> it leaves behind (\<open>None\<close> where the routine returns \<^verbatim>\<open>-1\<close> without any call having set it).
  \<^item> \<open>run\<close>, the outcome of a routine that may end the process: \<^verbatim>\<open>err_sys\<close>, \<^verbatim>\<open>err_quit\<close> and \<^verbatim>\<open>exit\<close>
    become \<open>Exit\<close>.
  \<^item> \<open>c_value\<close>, the outcome of code whose behaviour C leaves undefined on some inputs (\<open>UB\<close>).
  \<^item> Descriptor sets and \<^verbatim>\<open>FD_SET\<close>.
  The generic lemmas at the end are about lists only and are used by several components.
\<close>

type_synonym u8 = "8 word"
type_synonym u16 = "16 word"
type_synonym u32 = "32 word"
type_synonym u64 = "64 word"
type_synonym fd = int

datatype errno =
    EINTR | EWOULDBLOCK | ECONNRESET | EINPROGRESS | EAFNOSUPPORT | ENOSPC | ETIMEDOUT
  | EBADF | EPIPE | Errno int

datatype rd = RdOk "char list" | RdErr errno

datatype wr = WrOk nat | WrErr errno

datatype ssize = Cnt nat | Neg "errno option"

datatype 'a run = Ret 'a | Exit int

datatype 'a c_value = Val 'a | UB

type_synonym 'w reader = "'w \<Rightarrow> fd \<Rightarrow> nat \<Rightarrow> rd \<times> 'w"
type_synonym 'w writer = "'w \<Rightarrow> fd \<Rightarrow> char list \<Rightarrow> wr \<times> 'w"

abbreviation newline :: char where
  "newline \<equiv> CHR 0x0A"

abbreviation NUL :: char where
  "NUL \<equiv> CHR 0x00"

text \<open>Descriptor sets: putting a descriptor outside of \<open>0..<FD_SETSIZE\<close> into one is undefined.\<close>

abbreviation FD_SETSIZE :: nat where
  "FD_SETSIZE \<equiv> 1024"

definition FD_SET :: "int \<Rightarrow> int set \<Rightarrow> int set c_value" where
  "FD_SET fd st = (if 0 \<le> fd \<and> fd < int FD_SETSIZE then Val (insert fd st) else UB)"

section \<open>Generic lemmas\<close>

lemma take_append_prefix:
  "xs = ys @ zs \<Longrightarrow> length ys \<le> n \<Longrightarrow> take n xs = ys @ take (n - length ys) zs"
  by simp

lemma drop_append_prefix:
  "xs = ys @ zs \<Longrightarrow> length ys \<le> n \<Longrightarrow> drop n xs = drop (n - length ys) zs"
  by simp

lemma append_take_nonempty_less:
  "bs \<noteq> [] \<Longrightarrow> length bs \<le> n \<Longrightarrow> n - length bs < n"
  by (cases bs) auto

lemma nth_update_cases: "j < length xs \<Longrightarrow> xs[i := x] ! j = (if i = j then x else xs ! j)"
  by simp

text \<open>How many elements have a property, and how an update changes that.\<close>

definition how_many :: "('a \<Rightarrow> bool) \<Rightarrow> 'a list \<Rightarrow> nat" where
  "how_many P xs = length (filter P xs)"

lemma how_many_simps [simp]: "how_many P [] = 0" "how_many P (x # xs) = (if P x then Suc (how_many P xs) else how_many P xs)"
  by (simp_all add: how_many_def)

lemma how_many_update:
  "i < length xs \<Longrightarrow> how_many P (xs[i := x]) + (if P (xs ! i) then 1 else 0) = how_many P xs + (if P x then 1 else 0)"
proof (induction xs arbitrary: i)
  case (Cons y ys)
  show ?case
  proof (cases i)
    case (Suc j)
    with Cons.IH [of j] Cons.prems show ?thesis by simp
  qed simp
qed simp

lemma how_many_append [simp]: "how_many P (xs @ ys) = how_many P xs + how_many P ys"
  by (simp add: how_many_def)

lemma how_many_pos: "0 < how_many P xs \<longleftrightarrow> (\<exists>i < length xs. P (xs ! i))"
  by (induction xs) (auto simp: less_Suc_eq_0_disj)

lemma how_many_zero: "how_many P xs = 0 \<longleftrightarrow> (\<forall>i < length xs. \<not> P (xs ! i))"
  using how_many_pos [of P xs] by auto

lemma how_many_split: "how_many P xs + how_many (\<lambda>x. \<not> P x) xs = length xs"
  by (induction xs) auto

lemma how_many_cong: "(\<And>x. x \<in> set xs \<Longrightarrow> P x = Q x) \<Longrightarrow> how_many P xs = how_many Q xs"
  by (induction xs) auto

lemma how_many_mem: "x \<in> set xs \<Longrightarrow> P x \<Longrightarrow> 0 < how_many P xs"
  by (induction xs) auto

lemma upt_split: "i \<le> j \<Longrightarrow> j \<le> k \<Longrightarrow> [i..<k] = [i..<j] @ [j..<k]"
  using upt_add_eq_append [of i j "k - j"] by simp

text \<open>A circular buffer: the \<open>n\<close> elements that begin at index \<open>i\<close>.\<close>

definition slots :: "'a list \<Rightarrow> nat \<Rightarrow> nat \<Rightarrow> 'a list" where
  "slots xs i n = map (\<lambda>j. xs ! ((i + j) mod length xs)) [0..<n]"

lemma length_slots [simp]: "length (slots xs i n) = n"
  by (simp add: slots_def)

lemma slots_0 [simp]: "slots xs i 0 = []"
  by (simp add: slots_def)

lemma slots_get: "i < length xs \<Longrightarrow> slots xs i (Suc n) = xs ! i # slots xs ((i + 1) mod length xs) n"
proof -
  have "[0..<Suc n] = 0 # map Suc [0..<n]" by (simp add: map_Suc_upt upt_conv_Cons)
  then show "i < length xs \<Longrightarrow> slots xs i (Suc n) = xs ! i # slots xs ((i + 1) mod length xs) n"
    by (simp add: slots_def mod_simps o_def del: upt_Suc)
qed

lemma slots_mod_neq: "j < m \<Longrightarrow> m < (n::nat) \<Longrightarrow> (i + m) mod n \<noteq> (i + j) mod n"
proof
  assume jm: "j < m" "m < n" and eq: "(i + m) mod n = (i + j) mod n"
  from jm(1) have "n dvd (i + m) - (i + j)" using mod_eq_dvd_iff_nat [of "i + j" "i + m" n] eq by simp
  with jm show False by (auto dest: dvd_imp_le)
qed

lemma slots_put:
  assumes "n < length xs"
  shows "slots (xs[(i + n) mod length xs := x]) i (Suc n) = slots xs i n @ [x]"
proof -
  have "map (\<lambda>j. xs[(i + n) mod length xs := x] ! ((i + j) mod length xs)) [0..<n] =
      map (\<lambda>j. xs ! ((i + j) mod length xs)) [0..<n]"
    using slots_mod_neq [of _ n "length xs" i] assms by (intro map_cong) auto
  moreover have "(i + n) mod length xs < length xs" using assms by (intro mod_less_divisor) auto
  ultimately show ?thesis by (simp add: slots_def)
qed

lemma slots_wrap: "i < n \<Longrightarrow> (if i + 1 \<ge> n then 0 else i + 1) = (i + 1) mod n" for i n :: nat
  by (cases "i + 1 = n") auto

end
