(* ===== verification/Byte_Io.thy ===== *)
theory Byte_Io
  imports CPrelude
begin

text \<open>
  The byte-stream layer: the routines every stream program of the repository reads and writes its
  sockets with. Three versions of them exist side by side:
  \<^item> \<^verbatim>\<open>unpv13e/lib/readn.c\<close>, \<^verbatim>\<open>writen.c\<close>, \<^verbatim>\<open>readline.c\<close>;
  \<^item> \<^verbatim>\<open>socket/socket_func.c\<close> (suffix \<open>sf\<close> where the name is the same);
  \<^item> \<^verbatim>\<open>socket/thread_readline.c\<close>, the per-thread version of \<^verbatim>\<open>readline\<close>.
  The system calls \<^verbatim>\<open>read\<close> and \<^verbatim>\<open>write\<close> are parameters of every definition (\<open>rd\<close>, \<open>wr\<close>), and \<open>w\<close> is
  whatever state the operating system keeps. A loop that the kernel could keep interrupting for ever
  is a \<^theory_text>\<open>partial_function (option)\<close>: \<open>None\<close> is "never returns".

  The locale \<open>byte_source\<close> states what \<^verbatim>\<open>read(2)\<close> promises: the bytes of a descriptor arrive in order,
  none is lost or invented, at most \<open>n\<close> are returned, zero only at the end, and interruptions do not go
  on for ever without progress. \<open>byte_sink\<close> states the same of \<^verbatim>\<open>write(2)\<close>. The total correctness of the
  routines is proved inside the locales. \<open>kern\<close> is a concrete kernel (per descriptor, a queue of arriving
  segments, interruptions and failures), on which both locales are interpreted.
\<close>

section \<open>The routines of unpv13e/lib\<close>

partial_function (option) readn_loop ::
    "'w reader \<Rightarrow> fd \<Rightarrow> nat \<Rightarrow> char list \<Rightarrow> 'w \<Rightarrow> (ssize \<times> char list \<times> 'w) option" where
  "readn_loop rd fd nleft ptr w =
     (if nleft = 0 then Some (Cnt (length ptr), ptr, w)
      else case rd w fd nleft of
        (RdErr e, w') \<Rightarrow>
          if e = EINTR then readn_loop rd fd nleft ptr w' else Some (Neg (Some e), ptr, w')
      | (RdOk bs, w') \<Rightarrow>
          if bs = [] then Some (Cnt (length ptr), ptr, w')
          else readn_loop rd fd (nleft - length bs) (ptr @ bs) w')"

definition readn :: "'w reader \<Rightarrow> fd \<Rightarrow> nat \<Rightarrow> 'w \<Rightarrow> (ssize \<times> char list \<times> 'w) option" where
  "readn rd fd n w = readn_loop rd fd n [] w"

partial_function (option) writen_loop ::
    "'w writer \<Rightarrow> fd \<Rightarrow> nat \<Rightarrow> char list \<Rightarrow> 'w \<Rightarrow> (ssize \<times> 'w) option" where
  "writen_loop wr fd n ptr w =
     (if ptr = [] then Some (Cnt n, w)
      else case wr w fd ptr of
        (WrErr e, w') \<Rightarrow>
          if e = EINTR then writen_loop wr fd n ptr w' else Some (Neg (Some e), w')
      | (WrOk k, w') \<Rightarrow>
          if k = 0 then Some (Neg None, w') else writen_loop wr fd n (drop k ptr) w')"

definition writen :: "'w writer \<Rightarrow> fd \<Rightarrow> char list \<Rightarrow> 'w \<Rightarrow> (ssize \<times> 'w) option" where
  "writen wr fd vptr w = writen_loop wr fd (length vptr) vptr w"

text \<open>
  The wrappers of the library end the process with status 1 (\<^verbatim>\<open>err_sys\<close>) when the routine fails.
\<close>

definition Readn :: "'w reader \<Rightarrow> fd \<Rightarrow> nat \<Rightarrow> 'w \<Rightarrow> (nat run \<times> char list \<times> 'w) option" where
  "Readn rd fd nbytes w =
     map_option (\<lambda>(r, buf, w'). (case r of Neg _ \<Rightarrow> Exit 1 | Cnt n \<Rightarrow> Ret n, buf, w'))
       (readn rd fd nbytes w)"

definition Writen :: "'w writer \<Rightarrow> fd \<Rightarrow> char list \<Rightarrow> 'w \<Rightarrow> (unit run \<times> 'w) option" where
  "Writen wr fd ptr w =
     map_option (\<lambda>(r, w'). (if r = Cnt (length ptr) then Ret () else Exit 1, w'))
       (writen wr fd ptr w)"

text \<open>
  The buffered reader behind \<^verbatim>\<open>readline\<close>: \<^verbatim>\<open>read_cnt\<close> unread bytes start at index \<^verbatim>\<open>read_ptr\<close> of
  \<^verbatim>\<open>read_buf\<close>. \<^verbatim>\<open>my_read\<close> returns one byte (1), end of file (0) or an error (-1).
\<close>

record rline =
  rl_cnt :: int
  rl_bufptr :: nat
  rl_buf :: "char list"

datatype rc = GotChar char | GotEof | GotErr errno

definition take_char :: "rline \<Rightarrow> rc \<times> rline" where
  "take_char s = (GotChar (rl_buf s ! rl_bufptr s),
     s\<lparr>rl_cnt := rl_cnt s - 1, rl_bufptr := rl_bufptr s + 1\<rparr>)"

partial_function (option) my_read ::
    "'w reader \<Rightarrow> nat \<Rightarrow> fd \<Rightarrow> rline \<Rightarrow> 'w \<Rightarrow> (rc \<times> rline \<times> 'w) option" where
  "my_read rd maxline fd s w =
     (if rl_cnt s \<le> 0 then
        (case rd w fd maxline of
           (RdErr e, w') \<Rightarrow>
             if e = EINTR then my_read rd maxline fd (s\<lparr>rl_cnt := -1\<rparr>) w'
             else Some (GotErr e, s\<lparr>rl_cnt := -1\<rparr>, w')
         | (RdOk bs, w') \<Rightarrow>
             if bs = [] then Some (GotEof, s\<lparr>rl_cnt := 0\<rparr>, w')
             else (case take_char (s\<lparr>rl_cnt := int (length bs), rl_bufptr := 0,
                                     rl_buf := bs @ drop (length bs) (rl_buf s)\<rparr>) of
                     (r, s') \<Rightarrow> Some (r, s', w')))
      else (case take_char s of (r, s') \<Rightarrow> Some (r, s', w)))"

abbreviation MAXLINE :: nat where
  "MAXLINE \<equiv> 4096"

function readline_loop ::
    "'w reader \<Rightarrow> fd \<Rightarrow> nat \<Rightarrow> nat \<Rightarrow> char list \<Rightarrow> rline \<Rightarrow> 'w
      \<Rightarrow> (ssize \<times> char list \<times> rline \<times> 'w) option" where
  "readline_loop rd fd maxlen n ptr s w =
     (if n < maxlen then
        (case my_read rd MAXLINE fd s w of
           None \<Rightarrow> None
         | Some (GotChar c, s', w') \<Rightarrow>
             if c = newline then Some (Cnt n, ptr @ [c] @ [NUL], s', w')
             else readline_loop rd fd maxlen (Suc n) (ptr @ [c]) s' w'
         | Some (GotEof, s', w') \<Rightarrow> Some (Cnt (n - 1), ptr @ [NUL], s', w')
         | Some (GotErr e, s', w') \<Rightarrow> Some (Neg (Some e), ptr, s', w'))
      else Some (Cnt n, ptr @ [NUL], s, w))"
  by pat_completeness auto
termination
  by (relation "measure (\<lambda>(rd, fd, maxlen, n, ptr, s, w). maxlen - n)") auto

declare readline_loop.simps [simp del]

text \<open>The second component of the result is what the call has stored at the start of \<^verbatim>\<open>vptr\<close>.\<close>

definition readline ::
    "'w reader \<Rightarrow> fd \<Rightarrow> nat \<Rightarrow> rline \<Rightarrow> 'w \<Rightarrow> (ssize \<times> char list \<times> rline \<times> 'w) option" where
  "readline rd fd maxlen s w = readline_loop rd fd maxlen 1 [] s w"

definition readlinebuf :: "rline \<Rightarrow> int \<times> nat option" where
  "readlinebuf s = (rl_cnt s, if rl_cnt s \<noteq> 0 then Some (rl_bufptr s) else None)"

definition Readline ::
    "'w reader \<Rightarrow> fd \<Rightarrow> nat \<Rightarrow> rline \<Rightarrow> 'w \<Rightarrow> (nat run \<times> char list \<times> rline \<times> 'w) option" where
  "Readline rd fd maxlen s w =
     map_option (\<lambda>(r, buf, s', w'). (case r of Neg _ \<Rightarrow> Exit 1 | Cnt n \<Rightarrow> Ret n, buf, s', w'))
       (readline rd fd maxlen s w)"

section \<open>The routines of socket/socket_func.c\<close>

text \<open>
  This \<^verbatim>\<open>readn\<close> returns 0 when the stream ends, however many bytes it has already stored.
\<close>

partial_function (option) readn_sf_loop ::
    "'w reader \<Rightarrow> fd \<Rightarrow> nat \<Rightarrow> char list \<Rightarrow> 'w \<Rightarrow> (ssize \<times> char list \<times> 'w) option" where
  "readn_sf_loop rd fd left buffer w =
     (if left = 0 then Some (Cnt (length buffer), buffer, w)
      else case rd w fd left of
        (RdErr e, w') \<Rightarrow>
          if e = EINTR then readn_sf_loop rd fd left buffer w'
          else Some (Neg (Some e), buffer, w')
      | (RdOk bs, w') \<Rightarrow>
          if bs = [] then Some (Cnt 0, buffer, w')
          else readn_sf_loop rd fd (left - length bs) (buffer @ bs) w')"

definition readn_sf :: "'w reader \<Rightarrow> fd \<Rightarrow> nat \<Rightarrow> 'w \<Rightarrow> (ssize \<times> char list \<times> 'w) option" where
  "readn_sf rd fd n w = readn_sf_loop rd fd n [] w"

partial_function (option) written_loop ::
    "'w writer \<Rightarrow> fd \<Rightarrow> nat \<Rightarrow> char list \<Rightarrow> 'w \<Rightarrow> (ssize \<times> 'w) option" where
  "written_loop wr sock sz buffer w =
     (if buffer = [] then Some (Cnt (sz - length buffer), w)
      else case wr w sock buffer of
        (WrErr e, w') \<Rightarrow>
          if e = EINTR then written_loop wr sock sz buffer w' else Some (Neg (Some e), w')
      | (WrOk k, w') \<Rightarrow>
          if k = 0 then Some (Neg None, w') else written_loop wr sock sz (drop k buffer) w')"

definition written :: "'w writer \<Rightarrow> fd \<Rightarrow> char list \<Rightarrow> 'w \<Rightarrow> (ssize \<times> 'w) option" where
  "written wr sock vptr w = written_loop wr sock (length vptr) vptr w"

abbreviation MAXLINE_sf :: nat where
  "MAXLINE_sf \<equiv> 1024"

definition myread :: "'w reader \<Rightarrow> fd \<Rightarrow> rline \<Rightarrow> 'w \<Rightarrow> (rc \<times> rline \<times> 'w) option" where
  "myread rd fd s w = my_read rd MAXLINE_sf fd s w"

text \<open>
  This \<^verbatim>\<open>readline\<close> counts from 0, stores up to \<open>max\<close> bytes and then the terminating zero, returns
  \<^verbatim>\<open>i + 1\<close>, and empties the shared read buffer (\<^verbatim>\<open>read_cnt = 0\<close>) before it returns a line.
\<close>

function readline_sf_loop ::
    "'w reader \<Rightarrow> fd \<Rightarrow> nat \<Rightarrow> nat \<Rightarrow> char list \<Rightarrow> rline \<Rightarrow> 'w
      \<Rightarrow> (ssize \<times> char list \<times> rline \<times> 'w) option" where
  "readline_sf_loop rd fd maxn i pstr s w =
     (if i < maxn then
        (case myread rd fd s w of
           None \<Rightarrow> None
         | Some (GotChar c, s', w') \<Rightarrow>
             if c = newline
             then Some (Cnt (i + 1), pstr @ [c] @ [NUL], s'\<lparr>rl_cnt := 0\<rparr>, w')
             else readline_sf_loop rd fd maxn (Suc i) (pstr @ [c]) s' w'
         | Some (GotEof, s', w') \<Rightarrow> Some (Cnt 0, pstr @ [NUL], s', w')
         | Some (GotErr e, s', w') \<Rightarrow> Some (Neg (Some e), pstr, s', w'))
      else Some (Cnt (i + 1), pstr @ [NUL], s\<lparr>rl_cnt := 0\<rparr>, w))"
  by pat_completeness auto
termination
  by (relation "measure (\<lambda>(rd, fd, maxn, i, pstr, s, w). maxn - i)") auto

declare readline_sf_loop.simps [simp del]

definition readline_sf ::
    "'w reader \<Rightarrow> fd \<Rightarrow> nat \<Rightarrow> rline \<Rightarrow> 'w \<Rightarrow> (ssize \<times> char list \<times> rline \<times> 'w) option" where
  "readline_sf rd fd maxn s w = readline_sf_loop rd fd maxn 0 [] s w"

section \<open>The per-thread readline of socket/thread_readline.c\<close>

text \<open>
  \<open>slot\<close> is the value \<^verbatim>\<open>pthread_getspecific(rl_key)\<close> returns in the calling thread and \<open>fresh\<close> the
  uninitialised block \<^verbatim>\<open>malloc\<close> returns. The variable \<^verbatim>\<open>tsd\<close> is assigned only on the branch where the
  slot is still empty; on the other branch the code goes on with an indeterminate pointer, which is
  undefined behaviour (\<open>UB\<close>).
\<close>

definition thread_read_one ::
    "'w reader \<Rightarrow> rline \<Rightarrow> fd \<Rightarrow> 'w \<Rightarrow> (rc \<times> rline \<times> 'w) option" where
  "thread_read_one rd tsd fd w = my_read rd MAXLINE_sf fd tsd w"

function thread_readline_loop ::
    "'w reader \<Rightarrow> fd \<Rightarrow> nat \<Rightarrow> nat \<Rightarrow> nat \<Rightarrow> char list \<Rightarrow> rline \<Rightarrow> 'w
      \<Rightarrow> (ssize \<times> char list \<times> rline \<times> 'w) option" where
  "thread_readline_loop rd fd maxlen i cnt pstr tsd w =
     (if i < maxlen then
        (case thread_read_one rd tsd fd w of
           None \<Rightarrow> None
         | Some (GotChar c, tsd', w') \<Rightarrow>
             if c = newline then Some (Cnt (cnt + 1), pstr @ [c] @ [NUL], tsd', w')
             else thread_readline_loop rd fd maxlen (Suc i) (cnt + 1) (pstr @ [c]) tsd' w'
         | Some (GotEof, tsd', w') \<Rightarrow> Some (Cnt 0, pstr @ [NUL], tsd', w')
         | Some (GotErr e, tsd', w') \<Rightarrow> Some (Neg (Some e), pstr, tsd', w'))
      else Some (Cnt cnt, pstr @ [NUL], tsd, w))"
  by pat_completeness auto
termination
  by (relation "measure (\<lambda>(rd, fd, maxlen, i, cnt, pstr, tsd, w). maxlen - i)") auto

declare thread_readline_loop.simps [simp del]

definition thread_readline ::
    "'w reader \<Rightarrow> fd \<Rightarrow> nat \<Rightarrow> rline option \<Rightarrow> rline \<Rightarrow> 'w
      \<Rightarrow> (ssize \<times> char list \<times> rline \<times> 'w) option c_value" where
  "thread_readline rd fd maxlen slot fresh w =
     (case slot of
        None \<Rightarrow> Val (thread_readline_loop rd fd maxlen 1 0 [] fresh w)
      | Some _ \<Rightarrow> UB)"

text \<open>
  The unread part of the buffer, and the invariant that it lies inside the buffer.
\<close>

definition pending :: "rline \<Rightarrow> char list" where
  "pending s = take (nat (rl_cnt s)) (drop (rl_bufptr s) (rl_buf s))"

definition rl_ok :: "rline \<Rightarrow> bool" where
  "rl_ok s \<longleftrightarrow> rl_cnt s \<le> 0 \<or> rl_bufptr s + nat (rl_cnt s) \<le> length (rl_buf s)"

text \<open>
  What a line reader is meant to return: the bytes up to and including the first newline, at most \<open>k\<close>
  of them.
\<close>

fun line_of :: "nat \<Rightarrow> char list \<Rightarrow> char list" where
  "line_of 0 cs = []"
| "line_of (Suc k) [] = []"
| "line_of (Suc k) (c # cs) = (if c = newline then [c] else c # line_of k cs)"

lemma line_of_Nil [simp]: "line_of k [] = []"
  by (cases k) auto

lemma line_of_pos: "0 < k \<Longrightarrow> line_of k (c # cs) = (if c = newline then [c] else c # line_of (k - 1) cs)"
  by (cases k) auto

lemma line_of_append_newline:
  "newline \<notin> set cs \<Longrightarrow> length cs < k \<Longrightarrow> line_of k (cs @ newline # ds) = cs @ [newline]"
proof (induction cs arbitrary: k)
  case Nil
  then show ?case by (cases k) auto
next
  case (Cons c cs)
  then show ?case by (cases k) auto
qed

lemma line_of_all: "newline \<notin> set cs \<Longrightarrow> length cs \<le> k \<Longrightarrow> line_of k cs = cs"
  by (induction k cs rule: line_of.induct) auto

lemma set_line_of_subset: "set (line_of k cs) \<subseteq> set (take k cs)"
  by (induction k cs rule: line_of.induct) auto

text \<open>
  The three line readers differ in how they count and in what they do at the end, but they gather a
  line in the same way. \<open>collect\<close> is that common part, with the reason why it stopped.
\<close>

datatype stop = Newline | Full | Eof | Err errno

fun collect :: "'w reader \<Rightarrow> nat \<Rightarrow> fd \<Rightarrow> nat \<Rightarrow> char list \<Rightarrow> rline \<Rightarrow> 'w
    \<Rightarrow> (stop \<times> char list \<times> rline \<times> 'w) option" where
  "collect rd m fd 0 ptr s w = Some (Full, ptr, s, w)"
| "collect rd m fd (Suc k) ptr s w =
     (case my_read rd m fd s w of
        None \<Rightarrow> None
      | Some (GotChar c, s', w') \<Rightarrow>
          if c = newline then Some (Newline, ptr @ [c], s', w')
          else collect rd m fd k (ptr @ [c]) s' w'
      | Some (GotEof, s', w') \<Rightarrow> Some (Eof, ptr, s', w')
      | Some (GotErr e, s', w') \<Rightarrow> Some (Err e, ptr, s', w'))"

lemma readline_loop_collect:
  "n = length ptr + 1 \<Longrightarrow> readline_loop rd fd maxlen n ptr s w =
     map_option (\<lambda>(st, p, s', w').
       (case st of
          Newline \<Rightarrow> (Cnt (length p), p @ [NUL], s', w')
        | Full \<Rightarrow> (Cnt (length p + 1), p @ [NUL], s', w')
        | Eof \<Rightarrow> (Cnt (length p), p @ [NUL], s', w')
        | Err e \<Rightarrow> (Neg (Some e), p, s', w')))
      (collect rd MAXLINE fd (maxlen - n) ptr s w)"
proof (induction "maxlen - n" arbitrary: n ptr s w)
  case 0
  then show ?case by (simp add: readline_loop.simps [of rd fd maxlen])
next
  case (Suc m)
  then have "n < maxlen" "maxlen - n = Suc (maxlen - Suc n)" "m = maxlen - Suc n" by auto
  with Suc.hyps(1) [of "Suc n" "ptr @ [c]" for c] Suc.prems show ?case
    by (subst readline_loop.simps) (simp split: option.split rc.split)
qed

lemma readline_sf_loop_collect:
  "i = length ptr \<Longrightarrow> readline_sf_loop rd fd maxn i ptr s w =
     map_option (\<lambda>(st, p, s', w').
       (case st of
          Newline \<Rightarrow> (Cnt (length p), p @ [NUL], s'\<lparr>rl_cnt := 0\<rparr>, w')
        | Full \<Rightarrow> (Cnt (length p + 1), p @ [NUL], s'\<lparr>rl_cnt := 0\<rparr>, w')
        | Eof \<Rightarrow> (Cnt 0, p @ [NUL], s', w')
        | Err e \<Rightarrow> (Neg (Some e), p, s', w')))
      (collect rd MAXLINE_sf fd (maxn - i) ptr s w)"
proof (induction "maxn - i" arbitrary: i ptr s w)
  case 0
  then show ?case by (simp add: readline_sf_loop.simps [of rd fd maxn])
next
  case (Suc m)
  then have "i < maxn" "maxn - i = Suc (maxn - Suc i)" "m = maxn - Suc i" by auto
  with Suc.hyps(1) [of "Suc i" "ptr @ [c]" for c] Suc.prems show ?case
    by (subst readline_sf_loop.simps) (simp add: myread_def split: option.split rc.split)
qed

lemma thread_readline_loop_collect:
  "i = length ptr + 1 \<Longrightarrow> cnt = length ptr \<Longrightarrow>
   thread_readline_loop rd fd maxlen i cnt ptr s w =
     map_option (\<lambda>(st, p, s', w').
       (case st of
          Newline \<Rightarrow> (Cnt (length p), p @ [NUL], s', w')
        | Full \<Rightarrow> (Cnt (length p), p @ [NUL], s', w')
        | Eof \<Rightarrow> (Cnt 0, p @ [NUL], s', w')
        | Err e \<Rightarrow> (Neg (Some e), p, s', w')))
      (collect rd MAXLINE_sf fd (maxlen - i) ptr s w)"
proof (induction "maxlen - i" arbitrary: i cnt ptr s w)
  case 0
  then show ?case by (simp add: thread_readline_loop.simps [of rd fd maxlen])
next
  case (Suc m)
  then have "i < maxlen" "maxlen - i = Suc (maxlen - Suc i)" "m = maxlen - Suc i" by auto
  with Suc.hyps(1) [of "Suc i" "ptr @ [c]" for c] Suc.prems show ?case
    by (subst thread_readline_loop.simps) (simp add: thread_read_one_def split: option.split rc.split)
qed

lemma take_char_pending:
  assumes "rl_ok s" and "0 < rl_cnt s"
  shows "\<exists>c s'. take_char s = (GotChar c, s') \<and> rl_ok s' \<and> pending s = c # pending s'"
proof -
  have lt: "rl_bufptr s < length (rl_buf s)"
    using assms by (auto simp: rl_ok_def)
  have "nat (rl_cnt s) = Suc (nat (rl_cnt s - 1))"
    using assms(2) by simp
  then have "pending s = rl_buf s ! rl_bufptr s # pending (snd (take_char s))"
    using lt by (simp add: pending_def take_char_def Cons_nth_drop_Suc [symmetric])
  moreover have "rl_ok (snd (take_char s))"
    using assms by (auto simp: rl_ok_def take_char_def)
  ultimately show ?thesis by (simp add: take_char_def)
qed

section \<open>What the routines leave alone\<close>

text \<open>
  A routine touches the kernel only through \<open>rd\<close> or \<open>wr\<close> on its descriptor: whatever every such call
  preserves, the routine preserves.
\<close>

definition keeps_rd :: "('w \<Rightarrow> bool) \<Rightarrow> 'w reader \<Rightarrow> fd \<Rightarrow> bool" where
  "keeps_rd P rd fd \<longleftrightarrow> (\<forall>w n r w'. rd w fd n = (r, w') \<longrightarrow> P w \<longrightarrow> P w')"

definition keeps_wr :: "('w \<Rightarrow> bool) \<Rightarrow> 'w writer \<Rightarrow> fd \<Rightarrow> bool" where
  "keeps_wr P wr fd \<longleftrightarrow> (\<forall>w bs r w'. wr w fd bs = (r, w') \<longrightarrow> P w \<longrightarrow> P w')"

lemma readn_loop_keeps:
  assumes "readn_loop rd fd n ptr w = Some (ret, buf, w')" and "keeps_rd P rd fd" and "P w"
  shows "P w'"
proof -
  let ?Q = "\<lambda>rd fd (n :: nat) (ptr :: char list) w r. keeps_rd P rd fd \<longrightarrow> P w \<longrightarrow> P (snd (snd r))"
  have "?Q rd fd n ptr w (ret, buf, w')"
    by (rule readn_loop.raw_induct [where P = ?Q, OF _ assms(1)])
      (fastforce simp: keeps_rd_def split: if_splits prod.splits rd.splits)
  with assms show ?thesis by simp
qed

lemma readn_sf_loop_keeps:
  assumes "readn_sf_loop rd fd n ptr w = Some (ret, buf, w')" and "keeps_rd P rd fd" and "P w"
  shows "P w'"
proof -
  let ?Q = "\<lambda>rd fd (n :: nat) (ptr :: char list) w r. keeps_rd P rd fd \<longrightarrow> P w \<longrightarrow> P (snd (snd r))"
  have "?Q rd fd n ptr w (ret, buf, w')"
    by (rule readn_sf_loop.raw_induct [where P = ?Q, OF _ assms(1)])
      (fastforce simp: keeps_rd_def split: if_splits prod.splits rd.splits)
  with assms show ?thesis by simp
qed

lemma my_read_keeps:
  assumes "my_read rd m fd s w = Some (r, s', w')" and "keeps_rd P rd fd" and "P w"
  shows "P w'"
proof -
  let ?Q = "\<lambda>rd (m :: nat) fd (s :: rline) w r. keeps_rd P rd fd \<longrightarrow> P w \<longrightarrow> P (snd (snd r))"
  have "?Q rd m fd s w (r, s', w')"
    by (rule my_read.raw_induct [where P = ?Q, OF _ assms(1)])
      (fastforce simp: keeps_rd_def split: if_splits prod.splits rd.splits)
  with assms show ?thesis by simp
qed

lemma collect_keeps:
  assumes "collect rd m fd k ptr s w = Some (st, buf, s', w')" and "keeps_rd P rd fd" and "P w"
  shows "P w'"
  using assms
proof (induction k arbitrary: ptr s w)
  case (Suc k)
  then obtain r s1 w1 where r: "my_read rd m fd s w = Some (r, s1, w1)"
    by (auto split: option.splits)
  with Suc.prems have "P w1" by (blast intro: my_read_keeps)
  with Suc r show ?case by (auto split: rc.splits if_splits)
qed simp

lemma writen_loop_keeps:
  assumes "writen_loop wr fd n ptr w = Some (ret, w')" and "keeps_wr P wr fd" and "P w"
  shows "P w'"
proof -
  let ?Q = "\<lambda>wr fd (n :: nat) (ptr :: char list) w r. keeps_wr P wr fd \<longrightarrow> P w \<longrightarrow> P (snd r)"
  have "?Q wr fd n ptr w (ret, w')"
    by (rule writen_loop.raw_induct [where P = ?Q, OF _ assms(1)])
      (fastforce simp: keeps_wr_def split: if_splits prod.splits wr.splits)
  with assms show ?thesis by simp
qed

section \<open>What the kernel promises\<close>

text \<open>The postconditions below are case distinctions on the result; simplification enters them.\<close>

declare ssize.case_cong [cong] rc.case_cong [cong] stop.case_cong [cong]

locale byte_source =
  fixes rd :: "'w reader"
    and inp :: "'w \<Rightarrow> fd \<Rightarrow> char list"
    and stalls :: "'w \<Rightarrow> fd \<Rightarrow> nat"
    and healthy :: "'w \<Rightarrow> fd \<Rightarrow> bool"
  assumes rd_data: "rd w fd n = (RdOk bs, w') \<Longrightarrow> 0 < n \<Longrightarrow>
      length bs \<le> n \<and> inp w fd = bs @ inp w' fd \<and> (bs = [] \<longrightarrow> inp w fd = [])"
    and rd_error: "rd w fd n = (RdErr e, w') \<Longrightarrow> inp w' fd = inp w fd"
    and rd_intr: "rd w fd n = (RdErr EINTR, w') \<Longrightarrow> stalls w' fd < stalls w fd"
    and rd_healthy: "rd w fd n = (r, w') \<Longrightarrow> healthy w fd \<Longrightarrow> healthy w' fd"
    and rd_sick: "rd w fd n = (RdErr e, w') \<Longrightarrow> healthy w fd \<Longrightarrow> e = EINTR"
begin

lemma rd_cases:
  assumes "0 < n"
  obtains (intr) w' where "rd w fd n = (RdErr EINTR, w')" "inp w' fd = inp w fd"
      "stalls w' fd < stalls w fd" "healthy w fd \<longrightarrow> healthy w' fd"
  | (err) e w' where "rd w fd n = (RdErr e, w')" "e \<noteq> EINTR" "inp w' fd = inp w fd"
      "\<not> healthy w fd"
  | (eof) w' where "rd w fd n = (RdOk [], w')" "inp w fd = []" "inp w' fd = []"
      "healthy w fd \<longrightarrow> healthy w' fd"
  | (data) bs w' where "rd w fd n = (RdOk bs, w')" "bs \<noteq> []" "length bs \<le> n"
      "inp w fd = bs @ inp w' fd" "healthy w fd \<longrightarrow> healthy w' fd"
proof -
  obtain r w' where r: "rd w fd n = (r, w')" by fastforce
  then have h: "healthy w fd \<longrightarrow> healthy w' fd" using rd_healthy by blast
  show thesis
  proof (cases r)
    case (RdErr e)
    with r h rd_error [of w fd n e w'] rd_intr [of w fd n w'] rd_sick [of w fd n e w'] show ?thesis
      by (cases "e = EINTR") (auto intro: intr err)
  next
    case (RdOk bs)
    with r h assms rd_data [of w fd n bs w'] show ?thesis
      by (cases "bs = []") (auto intro: eof data)
  qed
qed

lemma readn_loop_total:
  "\<exists>ret bs w'. readn_loop rd fd n ptr w = Some (ret, ptr @ bs, w') \<and>
     inp w fd = bs @ inp w' fd \<and> length bs \<le> n \<and> (healthy w fd \<longrightarrow> healthy w' fd \<and> (\<forall>e. ret \<noteq> Neg e)) \<and>
     (case ret of
        Cnt k \<Rightarrow> k = length (ptr @ bs) \<and> (length bs < n \<longrightarrow> inp w' fd = [])
      | Neg e \<Rightarrow> e \<noteq> None \<and> e \<noteq> Some EINTR \<and> length bs < n)"
proof (induction "(n, stalls w fd)" arbitrary: n ptr w
    rule: wf_induct_rule [OF wf_lex_prod [OF wf_less_than wf_less_than]])
  case (1 n w ptr)
  note unfold = readn_loop.simps [of rd fd n ptr w]
  show ?case
  proof (cases "n = 0")
    case True
    then show ?thesis by (auto simp: readn_loop.simps [of rd fd 0])
  next
    case False
    then have "0 < n" by simp
    then show ?thesis
    proof (cases rule: rd_cases [where n = n and w = w and fd = fd])
      case (intr w1)
      then have "((n, stalls w1 fd), (n, stalls w fd)) \<in> less_than <*lex*> less_than" by simp
      from 1 [OF this, of ptr] intr False show ?thesis
        by (simp add: unfold) (elim exE, intro exI, auto)
    next
      case (data bs w1)
      then have "((n - length bs, stalls w1 fd), (n, stalls w fd)) \<in> less_than <*lex*> less_than"
        by (simp add: append_take_nonempty_less)
      from 1 [OF this, of "ptr @ bs"] obtain ret bs' w' where
        ih: "readn_loop rd fd (n - length bs) (ptr @ bs) w1 = Some (ret, ptr @ bs @ bs', w')"
          "inp w1 fd = bs' @ inp w' fd" "length bs' \<le> n - length bs"
          "healthy w1 fd \<longrightarrow> healthy w' fd \<and> (\<forall>e. ret \<noteq> Neg e)"
          "case ret of
             Cnt k \<Rightarrow> k = length (ptr @ bs @ bs') \<and> (length bs' < n - length bs \<longrightarrow> inp w' fd = [])
           | Neg e \<Rightarrow> e \<noteq> None \<and> e \<noteq> Some EINTR \<and> length bs' < n - length bs"
        by auto
      with data False show ?thesis
        by (intro exI [of _ ret] exI [of _ "bs @ bs'"] exI [of _ w'])
          (auto simp: unfold split: ssize.splits)
    qed (use False in \<open>auto simp: unfold\<close>)
  qed
qed

lemma readn_total:
  obtains (complete) w' where "readn rd fd n w = Some (Cnt n, take n (inp w fd), w')"
      "n \<le> length (inp w fd)" "inp w' fd = drop n (inp w fd)"
      "healthy w fd \<longrightarrow> healthy w' fd"
  | (short) w' where "readn rd fd n w = Some (Cnt (length (inp w fd)), inp w fd, w')"
      "length (inp w fd) < n" "inp w' fd = []" "healthy w fd \<longrightarrow> healthy w' fd"
  | (failed) e bs w' where "readn rd fd n w = Some (Neg (Some e), bs, w')" "e \<noteq> EINTR"
      "inp w fd = bs @ inp w' fd" "length bs < n" "\<not> healthy w fd"
proof -
  from readn_loop_total [of fd n "[]" w, folded readn_def, unfolded append_Nil] obtain ret bs w' where
    r: "readn rd fd n w = Some (ret, bs, w')" "inp w fd = bs @ inp w' fd" "length bs \<le> n"
      "healthy w fd \<longrightarrow> healthy w' fd \<and> (\<forall>e. ret \<noteq> Neg e)"
      "case ret of
         Cnt k \<Rightarrow> k = length bs \<and> (length bs < n \<longrightarrow> inp w' fd = [])
       | Neg e \<Rightarrow> e \<noteq> None \<and> e \<noteq> Some EINTR \<and> length bs < n"
    by blast
  show thesis
  proof (cases ret)
    case (Cnt k)
    with r show ?thesis
      by (cases "length bs < n") (auto intro: complete short)
  next
    case (Neg e)
    with r show ?thesis by (auto intro: failed)
  qed
qed

lemma readn_sf_loop_total:
  "\<exists>ret bs w'. readn_sf_loop rd fd n ptr w = Some (ret, ptr @ bs, w') \<and>
     inp w fd = bs @ inp w' fd \<and> length bs \<le> n \<and> (healthy w fd \<longrightarrow> healthy w' fd \<and> (\<forall>e. ret \<noteq> Neg e)) \<and>
     (case ret of
        Cnt k \<Rightarrow> (length bs < n \<longrightarrow> k = 0 \<and> inp w' fd = []) \<and>
          (length bs = n \<longrightarrow> k = length (ptr @ bs))
      | Neg e \<Rightarrow> e \<noteq> None \<and> e \<noteq> Some EINTR \<and> length bs < n)"
proof (induction "(n, stalls w fd)" arbitrary: n ptr w
    rule: wf_induct_rule [OF wf_lex_prod [OF wf_less_than wf_less_than]])
  case (1 n w ptr)
  note unfold = readn_sf_loop.simps [of rd fd n ptr w]
  show ?case
  proof (cases "n = 0")
    case True
    then show ?thesis by (auto simp: readn_sf_loop.simps [of rd fd 0])
  next
    case False
    then have "0 < n" by simp
    then show ?thesis
    proof (cases rule: rd_cases [where n = n and w = w and fd = fd])
      case (intr w1)
      then have "((n, stalls w1 fd), (n, stalls w fd)) \<in> less_than <*lex*> less_than" by simp
      from 1 [OF this, of ptr] intr False show ?thesis
        by (simp add: unfold) (elim exE, intro exI, auto)
    next
      case (data bs w1)
      then have "((n - length bs, stalls w1 fd), (n, stalls w fd)) \<in> less_than <*lex*> less_than"
        by (simp add: append_take_nonempty_less)
      from 1 [OF this, of "ptr @ bs", unfolded append_assoc] obtain ret bs' w' where
        ih: "readn_sf_loop rd fd (n - length bs) (ptr @ bs) w1 = Some (ret, ptr @ bs @ bs', w')"
          "inp w1 fd = bs' @ inp w' fd" "length bs' \<le> n - length bs"
          "healthy w1 fd \<longrightarrow> healthy w' fd \<and> (\<forall>e. ret \<noteq> Neg e)"
          "case ret of
             Cnt k \<Rightarrow> (length bs' < n - length bs \<longrightarrow> k = 0 \<and> inp w' fd = []) \<and>
               (length bs' = n - length bs \<longrightarrow> k = length (ptr @ bs @ bs'))
           | Neg e \<Rightarrow> e \<noteq> None \<and> e \<noteq> Some EINTR \<and> length bs' < n - length bs"
        by blast
      with data False show ?thesis
        by (intro exI [of _ ret] exI [of _ "bs @ bs'"] exI [of _ w'])
          (auto simp: unfold split: ssize.splits)
    qed (use False in \<open>auto simp: unfold\<close>)
  qed
qed

text \<open>
  The buffered reader: \<open>stream\<close> is what a reader of the descriptor will still see, the unread part of
  the buffer followed by what the kernel holds.
\<close>

abbreviation stream :: "fd \<Rightarrow> rline \<Rightarrow> 'w \<Rightarrow> char list" where
  "stream fd s w \<equiv> pending s @ inp w fd"

lemma my_read_total:
  assumes "rl_ok s" and "0 < m"
  shows "\<exists>r s' w'. my_read rd m fd s w = Some (r, s', w') \<and> rl_ok s' \<and> (healthy w fd \<longrightarrow> healthy w' fd \<and> (\<forall>e. r \<noteq> GotErr e)) \<and>
     (case r of
        GotChar c \<Rightarrow> stream fd s w = c # stream fd s' w'
      | GotEof \<Rightarrow> stream fd s w = [] \<and> stream fd s' w' = []
      | GotErr e \<Rightarrow> e \<noteq> EINTR \<and> stream fd s' w' = stream fd s w)"
  using assms
proof (induction "stalls w fd" arbitrary: s w rule: less_induct)
  case less
  note unfold = my_read.simps [of rd m fd s w]
  show ?case
  proof (cases "rl_cnt s \<le> 0")
    case False
    with less.prems take_char_pending [of s] obtain c s' where
      "take_char s = (GotChar c, s')" "rl_ok s'" "pending s = c # pending s'"
      by auto
    with False show ?thesis by (simp add: unfold)
  next
    case True
    from \<open>0 < m\<close> show ?thesis
    proof (cases rule: rd_cases [where n = m and w = w and fd = fd])
      case (intr w1)
      with less.hyps [of w1 "s\<lparr>rl_cnt := -1\<rparr>"] less.prems True show ?thesis
        by (simp add: unfold pending_def [of s] pending_def [of "s\<lparr>rl_cnt := -1\<rparr>"] rl_ok_def [of s]
            rl_ok_def [of "s\<lparr>rl_cnt := -1\<rparr>"]) (elim exE, intro exI, auto)
    next
      case (data bs w1)
      let ?s = "s\<lparr>rl_cnt := int (length bs), rl_bufptr := 0, rl_buf := bs @ drop (length bs) (rl_buf s)\<rparr>"
      have "rl_ok ?s" "0 < rl_cnt ?s" "pending ?s = bs"
        using data by (auto simp: rl_ok_def pending_def)
      with take_char_pending [of ?s] obtain c s' where
        "take_char ?s = (GotChar c, s')" "rl_ok s'" "bs = c # pending s'"
        by auto
      with data True show ?thesis by (simp add: unfold pending_def [of s])
    qed (use True in \<open>auto simp: unfold pending_def rl_ok_def\<close>)
  qed
qed

lemma collect_total:
  assumes "rl_ok s" and "0 < m"
  shows "\<exists>st line s' w'. collect rd m fd k ptr s w = Some (st, ptr @ line, s', w') \<and> rl_ok s' \<and>
     (healthy w fd \<longrightarrow> healthy w' fd \<and> (\<forall>e. st \<noteq> Err e)) \<and> stream fd s w = line @ stream fd s' w' \<and>
     (case st of
        Newline \<Rightarrow> line = line_of k (stream fd s w) \<and> line \<noteq> [] \<and> last line = newline
      | Full \<Rightarrow> line = line_of k (stream fd s w) \<and> length line = k \<and> newline \<notin> set line
      | Eof \<Rightarrow> line = line_of k (stream fd s w) \<and> stream fd s' w' = [] \<and> length line < k \<and>
          newline \<notin> set line
      | Err e \<Rightarrow> e \<noteq> EINTR \<and> length line < k \<and> newline \<notin> set line)"
  using assms(1)
proof (induction k arbitrary: ptr s w)
  case 0
  then show ?case by simp
next
  case (Suc k)
  from my_read_total [OF Suc.prems assms(2), of fd w] obtain r s1 w1 where
    r: "my_read rd m fd s w = Some (r, s1, w1)" and ok: "rl_ok s1" and
    h1: "healthy w fd \<longrightarrow> healthy w1 fd \<and> (\<forall>e. r \<noteq> GotErr e)" and
    post: "case r of
        GotChar c \<Rightarrow> stream fd s w = c # stream fd s1 w1
      | GotEof \<Rightarrow> stream fd s w = [] \<and> stream fd s1 w1 = []
      | GotErr e \<Rightarrow> e \<noteq> EINTR \<and> stream fd s1 w1 = stream fd s w"
    by auto
  show ?case
  proof (cases r)
    case (GotChar c)
    show ?thesis
    proof (cases "c = newline")
      case True
      with GotChar r ok h1 post show ?thesis by auto
    next
      case False
      from Suc.IH [OF ok, of "ptr @ [c]" w1] obtain st line s' w' where
        ih: "collect rd m fd k (ptr @ [c]) s1 w1 = Some (st, ptr @ c # line, s', w')" "rl_ok s'"
          "healthy w1 fd \<longrightarrow> healthy w' fd \<and> (\<forall>e. st \<noteq> Err e)"
          "stream fd s1 w1 = line @ stream fd s' w'"
          "case st of
             Newline \<Rightarrow> line = line_of k (stream fd s1 w1) \<and> line \<noteq> [] \<and> last line = newline
           | Full \<Rightarrow> line = line_of k (stream fd s1 w1) \<and> length line = k \<and> newline \<notin> set line
           | Eof \<Rightarrow> line = line_of k (stream fd s1 w1) \<and> stream fd s' w' = [] \<and> length line < k \<and>
               newline \<notin> set line
           | Err e \<Rightarrow> e \<noteq> EINTR \<and> length line < k \<and> newline \<notin> set line"
        by auto
      have "stream fd s w = c # stream fd s1 w1" using post GotChar by simp
      with ih False GotChar r h1 show ?thesis
        by (intro exI [of _ st] exI [of _ "c # line"] exI [of _ s'] exI [of _ w'])
          (auto split: stop.splits)
    qed
  qed (use r ok h1 post in auto)
qed

lemma readline_total:
  assumes "rl_ok s"
  obtains (line) line s' w' where "readline rd fd maxlen s w = Some (Cnt (length line), line @ [NUL], s', w')"
      "rl_ok s'" "line = line_of (maxlen - 1) (stream fd s w)" "line \<noteq> []" "last line = newline"
      "stream fd s w = line @ stream fd s' w'" "healthy w fd \<longrightarrow> healthy w' fd"
  | (eof) line s' w' where "readline rd fd maxlen s w = Some (Cnt (length line), line @ [NUL], s', w')"
      "rl_ok s'" "line = stream fd s w" "length line < maxlen - 1" "newline \<notin> set line"
      "stream fd s' w' = []" "healthy w fd \<longrightarrow> healthy w' fd"
  | (full) line s' w' where "readline rd fd maxlen s w = Some (Cnt (length line + 1), line @ [NUL], s', w')"
      "rl_ok s'" "line = line_of (maxlen - 1) (stream fd s w)" "length line = maxlen - 1"
      "newline \<notin> set line" "stream fd s w = line @ stream fd s' w'"
      "healthy w fd \<longrightarrow> healthy w' fd"
  | (failed) e part s' w' where "readline rd fd maxlen s w = Some (Neg (Some e), part, s', w')"
      "rl_ok s'" "e \<noteq> EINTR" "stream fd s w = part @ stream fd s' w'" "\<not> healthy w fd"
proof -
  have eq: "readline rd fd maxlen s w = map_option (\<lambda>(st, p, s', w').
       (case st of
          Newline \<Rightarrow> (Cnt (length p), p @ [NUL], s', w')
        | Full \<Rightarrow> (Cnt (length p + 1), p @ [NUL], s', w')
        | Eof \<Rightarrow> (Cnt (length p), p @ [NUL], s', w')
        | Err e \<Rightarrow> (Neg (Some e), p, s', w')))
      (collect rd MAXLINE fd (maxlen - 1) [] s w)"
    by (simp add: readline_def readline_loop_collect)
  from collect_total [OF assms, of MAXLINE fd "maxlen - 1" "[]" w] obtain st line' s' w' where
    c: "collect rd MAXLINE fd (maxlen - 1) [] s w = Some (st, line', s', w')" "rl_ok s'"
      "healthy w fd \<longrightarrow> healthy w' fd \<and> (\<forall>e. st \<noteq> Err e)" "stream fd s w = line' @ stream fd s' w'"
      "case st of
        Newline \<Rightarrow> line' = line_of (maxlen - 1) (stream fd s w) \<and> line' \<noteq> [] \<and> last line' = newline
      | Full \<Rightarrow> line' = line_of (maxlen - 1) (stream fd s w) \<and> length line' = maxlen - 1 \<and>
          newline \<notin> set line'
      | Eof \<Rightarrow> line' = line_of (maxlen - 1) (stream fd s w) \<and> stream fd s' w' = [] \<and>
          length line' < maxlen - 1 \<and> newline \<notin> set line'
      | Err e \<Rightarrow> e \<noteq> EINTR \<and> length line' < maxlen - 1 \<and> newline \<notin> set line'"
    by auto
  show thesis
  proof (cases st)
    case Newline
    with c eq show ?thesis by (intro line) auto
  next
    case Full
    with c eq show ?thesis by (intro full) auto
  next
    case Eof
    with c eq show ?thesis by (intro eof) auto
  next
    case (Err e)
    with c eq show ?thesis by (intro failed) auto
  qed
qed

lemma readline_sf_total:
  assumes "rl_ok s"
  obtains (line) line lost s' w' where "readline_sf rd fd maxn s w = Some (Cnt (length line), line @ [NUL], s', w')"
      "line = line_of maxn (stream fd s w)" "line \<noteq> []" "last line = newline"
      "stream fd s w = line @ lost @ stream fd s' w'" "pending s' = []" "rl_ok s'"
      "healthy w fd \<longrightarrow> healthy w' fd"
  | (eof) line s' w' where "readline_sf rd fd maxn s w = Some (Cnt 0, line @ [NUL], s', w')"
      "line = stream fd s w" "length line < maxn" "newline \<notin> set line" "stream fd s' w' = []" "rl_ok s'"
      "healthy w fd \<longrightarrow> healthy w' fd"
  | (full) line lost s' w' where "readline_sf rd fd maxn s w = Some (Cnt (maxn + 1), line @ [NUL], s', w')"
      "line = line_of maxn (stream fd s w)" "length line = maxn" "newline \<notin> set line"
      "stream fd s w = line @ lost @ stream fd s' w'" "pending s' = []" "rl_ok s'"
      "healthy w fd \<longrightarrow> healthy w' fd"
  | (failed) e part s' w' where "readline_sf rd fd maxn s w = Some (Neg (Some e), part, s', w')"
      "e \<noteq> EINTR" "stream fd s w = part @ stream fd s' w'" "rl_ok s'" "\<not> healthy w fd"
proof -
  have eq: "readline_sf rd fd maxn s w = map_option (\<lambda>(st, p, s', w').
       (case st of
          Newline \<Rightarrow> (Cnt (length p), p @ [NUL], s'\<lparr>rl_cnt := 0\<rparr>, w')
        | Full \<Rightarrow> (Cnt (length p + 1), p @ [NUL], s'\<lparr>rl_cnt := 0\<rparr>, w')
        | Eof \<Rightarrow> (Cnt 0, p @ [NUL], s', w')
        | Err e \<Rightarrow> (Neg (Some e), p, s', w')))
      (collect rd MAXLINE_sf fd maxn [] s w)"
    by (simp add: readline_sf_def readline_sf_loop_collect)
  have emptied: "pending (t\<lparr>rl_cnt := 0\<rparr>) = []" "rl_ok (t\<lparr>rl_cnt := 0\<rparr>)" for t
    by (simp_all add: pending_def rl_ok_def)
  from collect_total [OF assms, of MAXLINE_sf fd maxn "[]" w] obtain st line' s' w' where
    c: "collect rd MAXLINE_sf fd maxn [] s w = Some (st, line', s', w')" "rl_ok s'"
      "healthy w fd \<longrightarrow> healthy w' fd \<and> (\<forall>e. st \<noteq> Err e)" "stream fd s w = line' @ stream fd s' w'"
      "case st of
        Newline \<Rightarrow> line' = line_of maxn (stream fd s w) \<and> line' \<noteq> [] \<and> last line' = newline
      | Full \<Rightarrow> line' = line_of maxn (stream fd s w) \<and> length line' = maxn \<and> newline \<notin> set line'
      | Eof \<Rightarrow> line' = line_of maxn (stream fd s w) \<and> stream fd s' w' = [] \<and>
          length line' < maxn \<and> newline \<notin> set line'
      | Err e \<Rightarrow> e \<noteq> EINTR \<and> length line' < maxn \<and> newline \<notin> set line'"
    by auto
  show thesis
  proof (cases st)
    case Newline
    with c eq emptied show ?thesis by (intro line [of line' "s'\<lparr>rl_cnt := 0\<rparr>" w' "pending s'"]) auto
  next
    case Full
    with c eq emptied show ?thesis by (intro full [of line' "s'\<lparr>rl_cnt := 0\<rparr>" w' "pending s'"]) auto
  next
    case Eof
    with c eq show ?thesis by (intro eof) auto
  next
    case (Err e)
    with c eq show ?thesis by (intro failed) auto
  qed
qed

end

locale byte_sink =
  fixes wr :: "'w writer"
    and out :: "'w \<Rightarrow> fd \<Rightarrow> char list"
    and wstalls :: "'w \<Rightarrow> fd \<Rightarrow> nat"
    and whealthy :: "'w \<Rightarrow> fd \<Rightarrow> bool"
  assumes wr_data: "wr w fd bs = (WrOk k, w') \<Longrightarrow> k \<le> length bs \<and> out w' fd = out w fd @ take k bs"
    and wr_error: "wr w fd bs = (WrErr e, w') \<Longrightarrow> out w' fd = out w fd"
    and wr_intr: "wr w fd bs = (WrErr EINTR, w') \<Longrightarrow> wstalls w' fd < wstalls w fd"
    and wr_healthy: "wr w fd bs = (a, w') \<Longrightarrow> whealthy w fd \<Longrightarrow> whealthy w' fd"
    and wr_sick: "wr w fd bs = (WrErr e, w') \<Longrightarrow> whealthy w fd \<Longrightarrow> e = EINTR"
    and wr_some: "wr w fd bs = (WrOk 0, w') \<Longrightarrow> whealthy w fd \<Longrightarrow> bs = []"
begin

lemma writen_loop_total:
  "\<exists>ret k w'. writen_loop wr fd n ptr w = Some (ret, w') \<and> k \<le> length ptr \<and>
     out w' fd = out w fd @ take k ptr \<and> (whealthy w fd \<longrightarrow> whealthy w' fd \<and> (\<forall>e. ret \<noteq> Neg e)) \<and>
     (case ret of Cnt m \<Rightarrow> m = n \<and> k = length ptr | Neg e \<Rightarrow>
        k < length ptr \<and> e \<noteq> Some EINTR)"
proof (induction "(length ptr, wstalls w fd)" arbitrary: ptr w
    rule: wf_induct_rule [OF wf_lex_prod [OF wf_less_than wf_less_than]])
  case (1 ptr w)
  note unfold = writen_loop.simps [of wr fd n ptr w]
  show ?case
  proof (cases "ptr = []")
    case True
    then show ?thesis by (auto simp: writen_loop.simps [of wr fd n "[]"])
  next
    case False
    obtain r w1 where r: "wr w fd ptr = (r, w1)" by fastforce
    then have h: "whealthy w fd \<longrightarrow> whealthy w1 fd" using wr_healthy by blast
    show ?thesis
    proof (cases r)
      case (WrErr e)
      show ?thesis
      proof (cases "e = EINTR")
        case True
        with r WrErr wr_intr
        have "((length ptr, wstalls w1 fd), (length ptr, wstalls w fd)) \<in> less_than <*lex*> less_than"
          by simp
        from 1 [OF this] show ?thesis
          using r h WrErr True False wr_error [of w fd ptr e w1]
          by (simp add: unfold) (elim exE, intro exI, auto)
      qed (use r h WrErr False wr_error [of w fd ptr e w1] wr_sick [of w fd ptr e w1] in \<open>auto simp: unfold\<close>)
    next
      case (WrOk j)
      with r wr_data have j: "j \<le> length ptr" "out w1 fd = out w fd @ take j ptr" by auto
      show ?thesis
      proof (cases "j = 0")
        case nz: False
        with False have "((length (drop j ptr), wstalls w1 fd), (length ptr, wstalls w fd))
            \<in> less_than <*lex*> less_than" by simp
        from 1 [OF this] obtain ret k w' where
          ih: "writen_loop wr fd n (drop j ptr) w1 = Some (ret, w')" "k \<le> length (drop j ptr)"
            "out w' fd = out w1 fd @ take k (drop j ptr)" "whealthy w1 fd \<longrightarrow> whealthy w' fd \<and> (\<forall>e. ret \<noteq> Neg e)"
            "case ret of Cnt m \<Rightarrow> m = n \<and> k = length (drop j ptr)
              | Neg e \<Rightarrow> k < length (drop j ptr) \<and> e \<noteq> Some EINTR"
          by blast
        with j nz h False r WrOk show ?thesis
          by (intro exI [of _ ret] exI [of _ "j + k"] exI [of _ w'])
            (auto simp: unfold take_add split: ssize.splits)
      qed (use r h WrOk False j wr_some [of w fd ptr w1] in \<open>auto simp: unfold\<close>)
    qed
  qed
qed

lemma writen_total:
  obtains (complete) w' where "writen wr fd vptr w = Some (Cnt (length vptr), w')"
      "out w' fd = out w fd @ vptr" "whealthy w fd \<longrightarrow> whealthy w' fd"
  | (failed) e k w' where "writen wr fd vptr w = Some (Neg e, w')" "e \<noteq> Some EINTR"
      "k < length vptr" "out w' fd = out w fd @ take k vptr" "\<not> whealthy w fd"
proof -
  from writen_loop_total [of fd "length vptr" vptr w] obtain ret k w' where
    r: "writen wr fd vptr w = Some (ret, w')" "k \<le> length vptr"
      "out w' fd = out w fd @ take k vptr" "whealthy w fd \<longrightarrow> whealthy w' fd \<and> (\<forall>e. ret \<noteq> Neg e)"
      "case ret of Cnt m \<Rightarrow> m = length vptr \<and> k = length vptr
        | Neg e \<Rightarrow> k < length vptr \<and> e \<noteq> Some EINTR"
    by (auto simp: writen_def)
  then show thesis
    by (cases ret) (auto intro: complete failed)
qed

end

text \<open>
  \<^verbatim>\<open>written\<close> and \<^verbatim>\<open>writen\<close> are the same function: the first returns \<^verbatim>\<open>size - left\<close>, the second \<^verbatim>\<open>n\<close>, and
  \<^verbatim>\<open>left\<close> is 0 wherever they return a count.
\<close>

lemma written_loop_imp_writen_loop:
  assumes "written_loop wr fd n ptr w = Some r"
  shows "writen_loop wr fd n ptr w = Some r"
proof (rule written_loop.raw_induct
    [where P = "\<lambda>wr fd n ptr w r. writen_loop wr fd n ptr w = Some r", OF _ assms])
  fix f :: "('a writer \<Rightarrow> fd \<Rightarrow> nat \<Rightarrow> char list \<Rightarrow> 'a \<Rightarrow> (ssize \<times> 'a) option)"
  fix wr fd n ptr w r
  assume IH: "\<And>wr fd n ptr w r. f wr fd n ptr w = Some r \<Longrightarrow> writen_loop wr fd n ptr w = Some r"
    and "(if ptr = [] then Some (Cnt (n - length ptr), w)
      else case wr w fd ptr of
        (WrErr e, w') \<Rightarrow> if e = EINTR then f wr fd n ptr w' else Some (Neg (Some e), w')
      | (WrOk k, w') \<Rightarrow> if k = 0 then Some (Neg None, w') else f wr fd n (drop k ptr) w') = Some r"
  then show "writen_loop wr fd n ptr w = Some r"
    by (subst writen_loop.simps) (auto split: if_splits prod.splits wr.splits)
qed

lemma writen_loop_imp_written_loop:
  assumes "writen_loop wr fd n ptr w = Some r"
  shows "written_loop wr fd n ptr w = Some r"
proof (rule writen_loop.raw_induct
    [where P = "\<lambda>wr fd n ptr w r. written_loop wr fd n ptr w = Some r", OF _ assms])
  fix f :: "('a writer \<Rightarrow> fd \<Rightarrow> nat \<Rightarrow> char list \<Rightarrow> 'a \<Rightarrow> (ssize \<times> 'a) option)"
  fix wr fd n ptr w r
  assume IH: "\<And>wr fd n ptr w r. f wr fd n ptr w = Some r \<Longrightarrow> written_loop wr fd n ptr w = Some r"
    and "(if ptr = [] then Some (Cnt n, w)
      else case wr w fd ptr of
        (WrErr e, w') \<Rightarrow> if e = EINTR then f wr fd n ptr w' else Some (Neg (Some e), w')
      | (WrOk k, w') \<Rightarrow> if k = 0 then Some (Neg None, w') else f wr fd n (drop k ptr) w') = Some r"
  then show "written_loop wr fd n ptr w = Some r"
    by (subst written_loop.simps) (auto split: if_splits prod.splits wr.splits)
qed

lemma written_eq_writen: "written wr fd vptr w = writen wr fd vptr w"
proof (cases "written wr fd vptr w")
  case None
  then show ?thesis
    using writen_loop_imp_written_loop [of wr fd "length vptr" vptr w]
    by (cases "writen wr fd vptr w") (auto simp: written_def writen_def)
next
  case (Some r)
  then show ?thesis
    by (simp add: written_def writen_def written_loop_imp_writen_loop)
qed

end
