(* ===== verification/Kern.thy ===== *)
theory Kern
  imports Byte_Io
begin

text \<open>
  The kernel as the stream programs see it. \<open>byte_kernel\<close> joins the contracts of \<^verbatim>\<open>read\<close> and \<^verbatim>\<open>write\<close> and
  adds that a call on one descriptor leaves every other alone. \<open>kern\<close> is a concrete kernel: per descriptor
  a queue of arrivals (segments of bytes, interruptions by signals, failures), a queue of what the send
  side will do (take some bytes, be interrupted, fail) and the bytes sent so far. Descriptors with an
  empty arrival queue are at end of file; with an empty send queue \<^verbatim>\<open>write\<close> takes everything.
\<close>

section \<open>The contract\<close>

locale byte_kernel = byte_source rd inp stalls healthy + byte_sink wr out wstalls whealthy
  for rd :: "'w reader" and inp stalls healthy and wr :: "'w writer" and out wstalls whealthy +
  assumes rd_other: "rd w fd n = (r, w') \<Longrightarrow> fd' \<noteq> fd \<Longrightarrow> inp w' fd' = inp w fd'"
    and rd_out: "rd w fd n = (r, w') \<Longrightarrow> out w' = out w"
    and wr_inp: "wr w fd bs = (a, w') \<Longrightarrow> inp w' = inp w"
    and wr_stalls: "wr w fd bs = (a, w') \<Longrightarrow> stalls w' = stalls w"
    and wr_keeps_healthy: "wr w fd bs = (a, w') \<Longrightarrow> healthy w' = healthy w"
    and rd_keeps_whealthy: "rd w fd n = (r, w') \<Longrightarrow> whealthy w' = whealthy w"
    and wr_other: "wr w fd bs = (a, w') \<Longrightarrow> fd' \<noteq> fd \<Longrightarrow> out w' fd' = out w fd'"
begin

lemma writen_frame:
  assumes "writen wr fd vptr w = Some (ret, w')"
  shows "inp w' = inp w \<and> stalls w' = stalls w \<and> healthy w' = healthy w \<and>
    (\<forall>fd'. fd' \<noteq> fd \<longrightarrow> out w' fd' = out w fd')"
  using assms unfolding writen_def
  by (rule writen_loop_keeps)
    (auto simp: keeps_wr_def wr_inp wr_stalls wr_keeps_healthy wr_other)

text \<open>Reading one descriptor leaves the output side and every other descriptor's input alone.\<close>

abbreviation same_but :: "fd \<Rightarrow> 'w \<Rightarrow> 'w \<Rightarrow> bool" where
  "same_but fd w w' \<equiv> out w' = out w \<and> whealthy w' = whealthy w \<and>
     (\<forall>fd'. fd' \<noteq> fd \<longrightarrow> inp w' fd' = inp w fd')"

lemma keeps_same_but: "keeps_rd (same_but fd w) rd fd"
  by (auto simp: keeps_rd_def rd_out rd_keeps_whealthy rd_other)

lemma readn_frame: "readn rd fd n w = Some (ret, buf, w') \<Longrightarrow> same_but fd w w'"
  unfolding readn_def by (rule readn_loop_keeps [OF _ keeps_same_but]) auto

lemma readn_sf_frame: "readn_sf rd fd n w = Some (ret, buf, w') \<Longrightarrow> same_but fd w w'"
  unfolding readn_sf_def by (rule readn_sf_loop_keeps [OF _ keeps_same_but]) auto

lemma readline_frame:
  assumes "readline rd fd maxlen s w = Some (ret, buf, s', w')"
  shows "same_but fd w w'"
proof -
  from assms obtain x where x: "collect rd MAXLINE fd (maxlen - 1) [] s w = Some x"
    by (auto simp: readline_def readline_loop_collect)
  obtain st p t w1 where "x = (st, p, t, w1)" by (cases x)
  with assms x have "collect rd MAXLINE fd (maxlen - 1) [] s w = Some (st, p, t, w')"
    by (cases st) (auto simp: readline_def readline_loop_collect)
  then show ?thesis by (rule collect_keeps [OF _ keeps_same_but]) auto
qed

lemma readline_sf_frame:
  assumes "readline_sf rd fd maxn s w = Some (ret, buf, s', w')"
  shows "same_but fd w w'"
proof -
  from assms obtain x where x: "collect rd MAXLINE_sf fd maxn [] s w = Some x"
    by (auto simp: readline_sf_def readline_sf_loop_collect)
  obtain st p t w1 where "x = (st, p, t, w1)" by (cases x)
  with assms x have "collect rd MAXLINE_sf fd maxn [] s w = Some (st, p, t, w')"
    by (cases st) (auto simp: readline_sf_def readline_sf_loop_collect)
  then show ?thesis by (rule collect_keeps [OF _ keeps_same_but]) auto
qed

text \<open>On a descriptor without failures.\<close>

lemma readline_ok:
  assumes "rl_ok s" and "healthy w fd"
  shows "\<exists>line cnt s' w'. line = line_of (maxlen - 1) (stream fd s w) \<and>
    readline rd fd maxlen s w = Some (Cnt cnt, line @ [NUL], s', w') \<and>
    stream fd s w = line @ stream fd s' w' \<and>
    cnt = length line + (if length line = maxlen - 1 \<and> newline \<notin> set line then 1 else 0) \<and>
    rl_ok s' \<and> healthy w' fd"
  using assms(1)
proof (cases rule: readline_total [of s fd maxlen w])
  case (line line s' w')
  from line(4,5) have "newline \<in> set line" using last_in_set by force
  with line assms(2) show ?thesis
    by (intro exI [of _ line] exI [of _ "length line"] exI [of _ s'] exI [of _ w'] conjI; force)
next
  case (eof line s' w')
  from eof(3-5) have "line = line_of (maxlen - 1) (stream fd s w)"
    using line_of_all [of line "maxlen - 1"] by simp
  with eof assms(2) show ?thesis
    by (intro exI [of _ line] exI [of _ "length line"] exI [of _ s'] exI [of _ w'] conjI; force)
next
  case (full line s' w')
  with assms(2) show ?thesis
    by (intro exI [of _ line] exI [of _ "length line + 1"] exI [of _ s'] exI [of _ w'] conjI; force)
next
  case failed
  with assms(2) show ?thesis by simp
qed

lemma readn_sf_ok:
  assumes "healthy w fd" and "0 < n"
  shows "\<exists>w'. readn_sf rd fd n w =
      Some (Cnt (if n \<le> length (inp w fd) then n else 0), take n (inp w fd), w') \<and>
    inp w' fd = drop n (inp w fd) \<and> healthy w' fd"
proof -
  from readn_sf_loop_total [of fd n "[]" w] assms(1) obtain ret bs w' where
    r: "readn_sf rd fd n w = Some (ret, bs, w')" "inp w fd = bs @ inp w' fd" "length bs \<le> n"
      "\<forall>e. ret \<noteq> Neg e" "healthy w' fd"
    and c: "case ret of
        Cnt c \<Rightarrow> (length bs < n \<longrightarrow> c = 0 \<and> inp w' fd = []) \<and> (length bs = n \<longrightarrow> c = length ([] @ bs))
      | Neg e \<Rightarrow> e \<noteq> None \<and> e \<noteq> Some EINTR \<and> length bs < n"
    unfolding readn_sf_def append_Nil by blast
  from r(3,4,5) c show ?thesis
    by (cases ret; cases "length bs < n") (auto simp: r(1,2))
qed

end

section \<open>A concrete kernel\<close>

datatype rxev = RxSeg char "char list" | RxIntr | RxFail errno

datatype txev = TxTake nat | TxIntr | TxFail errno

record kern =
  k_rx :: "fd \<Rightarrow> rxev list"
  k_tx :: "fd \<Rightarrow> txev list"
  k_sent :: "fd \<Rightarrow> char list"

definition k_read :: "kern \<Rightarrow> fd \<Rightarrow> nat \<Rightarrow> rd \<times> kern" where
  "k_read k fd n =
     (case k_rx k fd of
        [] \<Rightarrow> (RdOk [], k)
      | RxSeg c cs # es \<Rightarrow>
          (RdOk (take n (c # cs)),
           k\<lparr>k_rx := (k_rx k)(fd :=
             (case drop n (c # cs) of [] \<Rightarrow> es | d # ds \<Rightarrow> RxSeg d ds # es))\<rparr>)
      | RxIntr # es \<Rightarrow> (RdErr EINTR, k\<lparr>k_rx := (k_rx k)(fd := es)\<rparr>)
      | RxFail e # es \<Rightarrow> (RdErr e, k\<lparr>k_rx := (k_rx k)(fd := es)\<rparr>))"

definition k_write :: "kern \<Rightarrow> fd \<Rightarrow> char list \<Rightarrow> wr \<times> kern" where
  "k_write k fd bs =
     (let put = (\<lambda>j es. k\<lparr>k_tx := (k_tx k)(fd := es),
                         k_sent := (k_sent k)(fd := k_sent k fd @ take j bs)\<rparr>) in
      case k_tx k fd of
        [] \<Rightarrow> (WrOk (length bs), put (length bs) [])
      | TxTake n # es \<Rightarrow> (WrOk (min (Suc n) (length bs)), put (min (Suc n) (length bs)) es)
      | TxIntr # es \<Rightarrow> (WrErr EINTR, put 0 es)
      | TxFail e # es \<Rightarrow> (WrErr e, put 0 es))"

fun rx_bytes :: "rxev list \<Rightarrow> char list" where
  "rx_bytes [] = []"
| "rx_bytes (RxSeg c cs # es) = c # cs @ rx_bytes es"
| "rx_bytes (RxIntr # es) = rx_bytes es"
| "rx_bytes (RxFail e # es) = rx_bytes es"

definition k_inp :: "kern \<Rightarrow> fd \<Rightarrow> char list" where
  "k_inp k fd = rx_bytes (k_rx k fd)"

definition k_stalls :: "kern \<Rightarrow> fd \<Rightarrow> nat" where
  "k_stalls k fd = length (k_rx k fd)"

definition k_wstalls :: "kern \<Rightarrow> fd \<Rightarrow> nat" where
  "k_wstalls k fd = length (k_tx k fd)"

text \<open>A descriptor on which no call fails, other than by an interruption.\<close>

definition rx_clean :: "kern \<Rightarrow> fd \<Rightarrow> bool" where
  "rx_clean k fd \<longleftrightarrow> (\<forall>e. RxFail e \<notin> set (k_rx k fd))"

definition tx_clean :: "kern \<Rightarrow> fd \<Rightarrow> bool" where
  "tx_clean k fd \<longleftrightarrow> (\<forall>e. TxFail e \<notin> set (k_tx k fd))"

lemma rx_bytes_refill:
  "rx_bytes (case ds of [] \<Rightarrow> es | d # ds' \<Rightarrow> RxSeg d ds' # es) = ds @ rx_bytes es"
  by (cases ds) auto

lemma k_read_data:
  assumes "k_read k fd n = (RdOk bs, k')" and "0 < n"
  shows "length bs \<le> n \<and> k_inp k fd = bs @ k_inp k' fd \<and> (bs = [] \<longrightarrow> k_inp k fd = [])"
proof (cases "k_rx k fd")
  case (Cons ev es)
  show ?thesis
  proof (cases ev)
    case (RxSeg c cs)
    with Cons assms(1) have "bs = take n (c # cs)" "k_inp k' fd = drop n (c # cs) @ rx_bytes es"
      by (auto simp: k_read_def k_inp_def rx_bytes_refill)
    moreover from RxSeg Cons have "k_inp k fd = (c # cs) @ rx_bytes es"
      by (simp add: k_inp_def)
    ultimately show ?thesis
      using assms(2) by (simp only: append_assoc [symmetric] append_take_drop_id) auto
  qed (use assms Cons in \<open>auto simp: k_read_def\<close>)
qed (use assms in \<open>auto simp: k_read_def k_inp_def\<close>)

interpretation kio: byte_kernel k_read k_inp k_stalls rx_clean k_write k_sent k_wstalls tx_clean
proof unfold_locales
  show "k_read w fd n = (RdOk bs, w') \<Longrightarrow> 0 < n \<Longrightarrow>
      length bs \<le> n \<and> k_inp w fd = bs @ k_inp w' fd \<and> (bs = [] \<longrightarrow> k_inp w fd = [])"
    for w fd n bs w' by (rule k_read_data)
qed (auto simp: k_read_def k_write_def k_inp_def k_stalls_def k_wstalls_def Let_def min_def
      rx_clean_def tx_clean_def fun_eq_iff
      split: list.splits rxev.splits txev.splits if_splits)

section \<open>The stream routines on the kernel\<close>

text \<open>
  C22. \<^verbatim>\<open>readn\<close> (lib/readn.c) on a stream without failures, however the kernel cuts the stream into segments
  and however often it is interrupted: the call returns, it has stored exactly the first \<open>n\<close> bytes of the
  stream (all of it when the stream is shorter), the returned count is the number stored, and the stream
  goes on right after them.
\<close>

theorem readn_exact:
  assumes "rx_clean k fd"
  shows "\<exists>k'. readn k_read fd n k = Some (Cnt (min n (length (k_inp k fd))), take n (k_inp k fd), k') \<and>
    k_inp k' fd = drop n (k_inp k fd) \<and> rx_clean k' fd"
  using assms by (cases rule: kio.readn_total [of fd n k]) (auto simp: min_def)

definition demo_kern :: kern where
  "demo_kern = \<lparr>k_rx = (\<lambda>fd. if fd = 5 then [RxSeg (CHR ''a'') ''b'', RxIntr, RxSeg (CHR ''c'') ''d''] else []),
     k_tx = (\<lambda>fd. if fd = 5 then [TxTake 0, TxIntr] else []), k_sent = (\<lambda>_. [])\<rparr>"

theorem readn_exact_witness:
  "\<exists>k'. readn k_read 5 3 demo_kern = Some (Cnt 3, ''abc'', k') \<and> k_inp k' 5 = ''d'' \<and> rx_clean k' 5"
proof -
  have "rx_clean demo_kern 5" by (simp add: rx_clean_def demo_kern_def)
  from readn_exact [OF this, of 3] show ?thesis
    by (simp add: k_inp_def demo_kern_def numeral_3_eq_3)
qed

text \<open>
  \<^verbatim>\<open>writen\<close> (lib/writen.c) on a descriptor without failures: however few bytes each \<^verbatim>\<open>write\<close> takes and
  however often it is interrupted, the call returns the full count, exactly the given bytes have been
  appended to what was sent on that descriptor, and nothing else in the system has moved.
\<close>

theorem writen_exact:
  assumes "tx_clean k fd"
  shows "\<exists>k'. writen k_write fd bs k = Some (Cnt (length bs), k') \<and>
    k_sent k' = (k_sent k)(fd := k_sent k fd @ bs) \<and> k_inp k' = k_inp k \<and> tx_clean k' fd"
proof (cases rule: kio.writen_total [of fd bs k])
  case (complete k')
  with assms kio.writen_frame [OF complete(1)] show ?thesis
    by (auto simp: fun_eq_iff)
next
  case failed
  with assms show ?thesis by simp
qed

theorem writen_exact_witness:
  "\<exists>k'. writen k_write 5 ''xyz'' demo_kern = Some (Cnt 3, k') \<and> k_sent k' 5 = ''xyz''"
proof -
  have "tx_clean demo_kern 5" by (simp add: tx_clean_def demo_kern_def)
  from writen_exact [OF this, of "''xyz''"] show ?thesis
    by (auto simp: demo_kern_def)
qed

text \<open>
  C21. \<^verbatim>\<open>readline\<close> (lib/readline.c) on a stream without failures, started with any consistent read buffer:
  it returns; what it has stored is the next line of the stream (with its newline, at most \<^verbatim>\<open>maxlen - 1\<close>
  bytes) and a terminating zero; the bytes after the line are still there for the next call, in the buffer
  or in the kernel; and the count it returns is the length of that line, except when the line had to be
  cut: then the count is one more than the number of bytes read.
\<close>

theorem readline_exact:
  assumes "rl_ok s" and "rx_clean k fd"
  shows "\<exists>line cnt s' k'. line = line_of (maxlen - 1) (pending s @ k_inp k fd) \<and>
    readline k_read fd maxlen s k = Some (Cnt cnt, line @ [NUL], s', k') \<and>
    pending s @ k_inp k fd = line @ pending s' @ k_inp k' fd \<and>
    cnt = length line + (if length line = maxlen - 1 \<and> newline \<notin> set line then 1 else 0) \<and>
    rl_ok s' \<and> rx_clean k' fd"
  using kio.readline_ok [OF assms, of maxlen] by blast

definition empty_rline :: rline where
  "empty_rline = \<lparr>rl_cnt = 0, rl_bufptr = 0, rl_buf = []\<rparr>"

definition two_lines :: kern where
  "two_lines = \<lparr>k_rx = (\<lambda>fd. [RxSeg (CHR ''a'') [newline, CHR ''b'', newline]]),
     k_tx = (\<lambda>fd. []), k_sent = (\<lambda>fd. [])\<rparr>"

theorem readline_exact_witness:
  "\<exists>s' k'. readline k_read 5 10 empty_rline two_lines =
     Some (Cnt 2, [CHR ''a'', newline, NUL], s', k') \<and>
     pending s' @ k_inp k' 5 = [CHR ''b'', newline]"
proof -
  have "rl_ok empty_rline" "rx_clean two_lines 5"
    by (simp_all add: rl_ok_def empty_rline_def rx_clean_def two_lines_def)
  moreover have "line_of (10 - 1) (pending empty_rline @ k_inp two_lines 5) = [CHR ''a'', newline]"
    by (simp add: pending_def empty_rline_def k_inp_def two_lines_def eval_nat_numeral)
  moreover have "pending empty_rline @ k_inp two_lines 5 = [CHR ''a'', newline, CHR ''b'', newline]"
    by (simp add: pending_def empty_rline_def k_inp_def two_lines_def)
  ultimately show ?thesis
    using readline_exact [of empty_rline two_lines 5 10] by auto
qed

text \<open>
  \<^verbatim>\<open>readn\<close> of socket/socket_func.c is all or nothing on a stream without failures: it returns the
  full count and the first \<open>n\<close> bytes when the stream has that many, and 0, with the bytes it consumed
  unaccounted for, when it has not.
\<close>

theorem readn_sf_all_or_nothing:
  assumes "rx_clean k fd" and "0 < n"
  shows "\<exists>k'. readn_sf k_read fd n k =
      Some (Cnt (if n \<le> length (k_inp k fd) then n else 0), take n (k_inp k fd), k') \<and>
    k_inp k' fd = drop n (k_inp k fd)"
  using kio.readn_sf_ok [OF assms] by blast

theorem readn_sf_all_or_nothing_witness:
  "\<exists>k'. readn_sf k_read 5 6 demo_kern = Some (Cnt 0, ''abcd'', k') \<and> k_inp k' 5 = []"
proof -
  have "rx_clean demo_kern 5" "(0::nat) < 6" by (simp_all add: rx_clean_def demo_kern_def)
  from readn_sf_all_or_nothing [OF this] show ?thesis
    by (simp add: k_inp_def demo_kern_def)
qed

text \<open>
  \<^verbatim>\<open>readline\<close> of socket/socket_func.c, called as its callers call it, with \<open>maxn\<close> the size of their
  buffer: when the first \<open>maxn\<close> bytes of the stream hold no newline, it stores \<open>maxn + 1\<close> bytes (the
  terminating zero lands one past the end of the buffer) and returns \<open>maxn + 1\<close>, one more than it read.
\<close>

theorem readline_sf_overrun:
  assumes "rl_ok s" and "rx_clean k fd"
    and "newline \<notin> set (take maxn (pending s @ k_inp k fd))"
    and "maxn \<le> length (pending s @ k_inp k fd)"
  shows "\<exists>buf s' k'. readline_sf k_read fd maxn s k = Some (Cnt (maxn + 1), buf, s', k') \<and>
    length buf = maxn + 1"
  using assms(1)
proof (cases rule: kio.readline_sf_total [of s fd maxn k])
  case (line line lost s' k')
  then have "newline \<in> set line" using last_in_set by force
  moreover have "set line \<subseteq> set (take maxn (pending s @ k_inp k fd))"
    using line(2) set_line_of_subset by metis
  ultimately show ?thesis using assms(3) by blast
next
  case eof
  with assms(4) show ?thesis by simp
next
  case (full line lost s' k')
  from full(1,3) show ?thesis by simp
next
  case failed
  with assms(2) show ?thesis by simp
qed

theorem readline_sf_overrun_witness:
  "\<exists>buf s' k'. readline_sf k_read 5 3 empty_rline demo_kern = Some (Cnt 4, buf, s', k') \<and> length buf = 4"
proof -
  have "rl_ok empty_rline" "rx_clean demo_kern 5"
    "newline \<notin> set (take 3 (pending empty_rline @ k_inp demo_kern 5))"
    "3 \<le> length (pending empty_rline @ k_inp demo_kern 5)"
    by (simp_all add: rl_ok_def empty_rline_def rx_clean_def demo_kern_def pending_def k_inp_def)
  from readline_sf_overrun [OF this] show ?thesis by simp
qed

text \<open>
  \<^verbatim>\<open>readline\<close> of socket/socket_func.c throws away what it has buffered beyond the line it returns: when
  one segment carries two lines, the first call returns the first line and the second call reports end of
  file. The library's \<^verbatim>\<open>readline\<close> returns both.
\<close>

theorem readline_sf_loses_second_line:
  "\<exists>s1 k1 s2 k2. readline_sf k_read 5 10 empty_rline two_lines = Some (Cnt 2, [CHR ''a'', newline, NUL], s1, k1) \<and>
     readline_sf k_read 5 10 s1 k1 = Some (Cnt 0, [NUL], s2, k2) \<and>
     (\<exists>s1 k1 s2 k2. readline k_read 5 10 empty_rline two_lines = Some (Cnt 2, [CHR ''a'', newline, NUL], s1, k1) \<and>
        readline k_read 5 10 s1 k1 = Some (Cnt 2, [CHR ''b'', newline, NUL], s2, k2))"
proof -
  let ?buf = "[CHR ''a'', newline, CHR ''b'', newline]"
  let ?k = "two_lines\<lparr>k_rx := (k_rx two_lines)(5 := [])\<rparr>"
  let ?s = "\<lambda>c p. \<lparr>rl_cnt = c, rl_bufptr = p, rl_buf = ?buf\<rparr>"
  note sf = readline_sf_def readline_sf_loop.simps [of k_read 5 10 0]
    readline_sf_loop.simps [of k_read 5 10 "Suc 0"] myread_def
  note lib = readline_def readline_loop.simps [of k_read 5 10 "Suc 0"]
    readline_loop.simps [of k_read 5 10 "Suc (Suc 0)"]
  note env = my_read.simps take_char_def empty_rline_def two_lines_def k_read_def
  have "readline_sf k_read 5 10 empty_rline two_lines = Some (Cnt 2, [CHR ''a'', newline, NUL], ?s 0 2, ?k)"
    by (simp add: sf env)
  moreover have "readline_sf k_read 5 10 (?s 0 2) ?k = Some (Cnt 0, [NUL], ?s 0 2, ?k)"
    by (simp add: sf env)
  moreover have "readline k_read 5 10 empty_rline two_lines = Some (Cnt 2, [CHR ''a'', newline, NUL], ?s 2 2, ?k)"
    by (simp add: lib env)
  moreover have "readline k_read 5 10 (?s 2 2) ?k = Some (Cnt 2, [CHR ''b'', newline, NUL], ?s 0 4, ?k)"
    by (simp add: lib env)
  ultimately show ?thesis by blast
qed

end
