(* ===== verification/Echo.thy ===== *)
theory Echo
  imports Kern
begin

text \<open>
  The echo service and its relatives, on top of the stream routines:
  \<^item> \<^verbatim>\<open>unpv13e/lib/str_echo.c\<close> and \<^verbatim>\<open>str_cli.c\<close>, the library's server and client loops;
  \<^item> \<^verbatim>\<open>socket/server.c\<close> (\<^verbatim>\<open>str_echo\<close>), \<^verbatim>\<open>socket/client.c\<close> (\<^verbatim>\<open>str_cli\<close>) and \<^verbatim>\<open>socket/thread_server.c\<close>
    (\<^verbatim>\<open>str_echo\<close> on the per-thread \<^verbatim>\<open>readline\<close>);
  \<^item> \<^verbatim>\<open>socket/sum.h\<close> (\<^verbatim>\<open>number_echo\<close>) and \<^verbatim>\<open>unpv13e/tcpcliserv/str_echo09.c\<close>, the servers that add pairs
    of \<^verbatim>\<open>long\<close> sent in the host's binary form.
  The diagnostics the programs \<^verbatim>\<open>printf\<close> to their own terminal are not part of the state; what a client
  writes to its standard output is.
\<close>

section \<open>The C library as these programs use it\<close>

text \<open>
  An input stream is its remaining characters and whether it ends in a read error. \<^verbatim>\<open>fgets\<close> returns the
  next line, at most \<open>n - 1\<close> characters, and \<^verbatim>\<open>NULL\<close> at the end or when the error cuts the line short.
\<close>

type_synonym cfile = "char list \<times> bool"

definition fgets :: "nat \<Rightarrow> cfile \<Rightarrow> (char list \<times> cfile) option" where
  "fgets n fp = (case fp of (cs, err) \<Rightarrow>
     let l = line_of (n - 1) cs in
     if l = [] \<or> (err \<and> length l = length cs \<and> length l < n - 1 \<and> last l \<noteq> newline) then None
     else Some (l, (drop (length l) cs, err)))"

definition ferror :: "cfile \<Rightarrow> bool" where
  "ferror fp = snd fp"

definition c_string :: "char list \<Rightarrow> char list" where
  "c_string buf = takeWhile (\<lambda>c. c \<noteq> NUL) buf"

lemma c_string_id: "NUL \<notin> set cs \<Longrightarrow> c_string cs = cs"
  by (auto simp: c_string_def takeWhile_eq_all_conv)

lemma c_string_NUL: "NUL \<notin> set cs \<Longrightarrow> c_string (cs @ NUL # ds) = cs"
  by (auto simp: c_string_def takeWhile_append)

text \<open>
  A \<^verbatim>\<open>long\<close> is a 64-bit two's complement number in little-endian byte order. Signed overflow is
  undefined behaviour.
\<close>

fun enc_le :: "nat \<Rightarrow> nat \<Rightarrow> char list" where
  "enc_le 0 x = []"
| "enc_le (Suc k) x = char_of x # enc_le k (x div 256)"

fun dec_le :: "char list \<Rightarrow> nat" where
  "dec_le [] = 0"
| "dec_le (c # cs) = of_char c + 256 * dec_le cs"

definition enc_long :: "u64 \<Rightarrow> char list" where
  "enc_long x = enc_le 8 (unat x)"

definition dec_long :: "char list \<Rightarrow> u64" where
  "dec_long bs = word_of_nat (dec_le bs)"

lemma length_enc_le [simp]: "length (enc_le k x) = k"
  by (induction k arbitrary: x) auto

lemma dec_le_enc_le: "dec_le (enc_le k x) = x mod 256 ^ k"
proof (induction k arbitrary: x)
  case (Suc k)
  have "x mod (256 * 256 ^ k) = x mod 256 + 256 * (x div 256 mod 256 ^ k)"
    by (simp add: mod_mult2_eq)
  with Suc show ?case by simp
qed simp

lemma length_enc_long [simp]: "length (enc_long x) = 8"
  by (simp add: enc_long_def)

lemma dec_long_enc_long [simp]: "dec_long (enc_long x) = x"
proof -
  have "unat x < 256 ^ 8"
    using unsigned_less [of x] by simp
  then have "unat x mod 256 ^ 8 = unat x" by (rule mod_less)
  then show ?thesis by (simp add: dec_long_def enc_long_def dec_le_enc_le)
qed

definition add_long :: "u64 \<Rightarrow> u64 \<Rightarrow> u64 c_value" where
  "add_long a b = (if - (2 ^ 63) \<le> sint a + sint b \<and> sint a + sint b < 2 ^ 63 then Val (a + b) else UB)"

text \<open>
  A request of the adding client, its answer, and that neither of the two additions overflows.
\<close>

definition enc_pair :: "u64 \<times> u64 \<Rightarrow> char list" where
  "enc_pair p = enc_long (fst p) @ enc_long (snd p)"

definition answer :: "u64 \<times> u64 \<Rightarrow> char list" where
  "answer p = enc_long (fst p + snd p + 100)"

definition sum_fits :: "u64 \<times> u64 \<Rightarrow> bool" where
  "sum_fits p \<longleftrightarrow> add_long (fst p) (snd p) \<noteq> UB \<and> add_long (fst p + snd p) 100 \<noteq> UB"

lemma add_long_Val: "add_long a b \<noteq> UB \<Longrightarrow> add_long a b = Val (a + b)"
  by (simp add: add_long_def split: if_splits)

section \<open>lib/str_echo.c and lib/str_cli.c\<close>

partial_function (option) str_echo ::
    "'w reader \<Rightarrow> 'w writer \<Rightarrow> fd \<Rightarrow> 'w \<Rightarrow> (unit run \<times> 'w) option" where
  "str_echo rd wr sockfd w =
     (case rd w sockfd MAXLINE of
        (RdOk bs, w') \<Rightarrow>
          if bs = [] then Some (Ret (), w')
          else (case Writen wr sockfd bs w' of
                  None \<Rightarrow> None
                | Some (Exit c, w'') \<Rightarrow> Some (Exit c, w'')
                | Some (Ret _, w'') \<Rightarrow> str_echo rd wr sockfd w'')
      | (RdErr e, w') \<Rightarrow>
          if e = EINTR then str_echo rd wr sockfd w' else Some (Exit 1, w'))"

lemma fgets_shrinks: "fgets n fp = Some (l, fp') \<Longrightarrow> length (fst fp') < length (fst fp)"
proof -
  assume "fgets n fp = Some (l, fp')"
  moreover obtain cs err where "fp = (cs, err)" by fastforce
  ultimately have "l \<noteq> []" "l = line_of (n - 1) cs" "fst fp' = drop (length l) cs"
    by (auto simp: fgets_def Let_def split: if_splits)
  then show ?thesis using \<open>fp = (cs, err)\<close> by (cases cs) auto
qed

function str_cli ::
    "'w reader \<Rightarrow> 'w writer \<Rightarrow> cfile \<Rightarrow> fd \<Rightarrow> rline \<Rightarrow> char list \<Rightarrow> 'w
      \<Rightarrow> (unit run \<times> rline \<times> char list \<times> 'w) option" where
  "str_cli rd wr fp sockfd s stdout w =
     (case fgets MAXLINE fp of
        None \<Rightarrow> Some (if ferror fp then Exit 1 else Ret (), s, stdout, w)
      | Some (sendline, fp') \<Rightarrow>
          (case Writen wr sockfd (c_string sendline) w of
             None \<Rightarrow> None
           | Some (Exit c, w1) \<Rightarrow> Some (Exit c, s, stdout, w1)
           | Some (Ret _, w1) \<Rightarrow>
               (case Readline rd sockfd MAXLINE s w1 of
                  None \<Rightarrow> None
                | Some (Exit c, buf, s', w2) \<Rightarrow> Some (Exit c, s', stdout, w2)
                | Some (Ret n, recvline, s', w2) \<Rightarrow>
                    if n = 0 then Some (Exit 1, s', stdout, w2)
                    else str_cli rd wr fp' sockfd s' (stdout @ c_string recvline) w2)))"
  by pat_completeness auto
termination
  by (relation "measure (\<lambda>(rd, wr, fp, sockfd, s, stdout, w). length (fst fp))")
    (auto dest: fgets_shrinks)

declare str_cli.simps [simp del]

section \<open>socket/server.c, socket/client.c, socket/thread_server.c\<close>

text \<open>
  The server passes the buffer and the count \<^verbatim>\<open>readline\<close> returned to \<^verbatim>\<open>written\<close> and ignores its result;
  the loop ends with the last value of \<^verbatim>\<open>n\<close>.
\<close>

partial_function (option) str_echo_sf ::
    "'w reader \<Rightarrow> 'w writer \<Rightarrow> fd \<Rightarrow> rline \<Rightarrow> 'w \<Rightarrow> (ssize \<times> rline \<times> 'w) option" where
  "str_echo_sf rd wr sock s w =
     (case readline_sf rd sock MAXLINE_sf s w of
        None \<Rightarrow> None
      | Some (Cnt n, buffer, s', w') \<Rightarrow>
          if n > 0 then (case written wr sock (take n buffer) w' of
                           None \<Rightarrow> None
                         | Some (_, w'') \<Rightarrow> str_echo_sf rd wr sock s' w'')
          else Some (Cnt 0, s', w')
      | Some (Neg e, buffer, s', w') \<Rightarrow>
          if e = Some EINTR then str_echo_sf rd wr sock s' w' else Some (Neg e, s', w'))"

function str_cli_sf ::
    "'w reader \<Rightarrow> 'w writer \<Rightarrow> cfile \<Rightarrow> fd \<Rightarrow> rline \<Rightarrow> char list \<Rightarrow> 'w
      \<Rightarrow> (unit run \<times> rline \<times> char list \<times> 'w) option" where
  "str_cli_sf rd wr fp sock s stdout w =
     (case fgets MAXLINE_sf fp of
        None \<Rightarrow> Some (Ret (), s, stdout, w)
      | Some (sendline, fp') \<Rightarrow>
          (case written wr sock (c_string sendline) w of
             None \<Rightarrow> None
           | Some (Neg e, w1) \<Rightarrow> Some (Exit (-1), s, stdout, w1)
           | Some (Cnt _, w1) \<Rightarrow>
               (case readline_sf rd sock MAXLINE_sf s w1 of
                  None \<Rightarrow> None
                | Some (Neg e, buf, s', w2) \<Rightarrow> Some (Exit (-1), s', stdout, w2)
                | Some (Cnt n, recvline, s', w2) \<Rightarrow>
                    if n = 0 then Some (Exit (-1), s', stdout, w2)
                    else str_cli_sf rd wr fp' sock s' (stdout @ c_string recvline) w2)))"
  by pat_completeness auto
termination
  by (relation "measure (\<lambda>(rd, wr, fp, sock, s, stdout, w). length (fst fp))")
    (auto dest: fgets_shrinks)

declare str_cli_sf.simps [simp del]

text \<open>
  The threaded server: \<open>slot\<close> is the calling thread's value for \<^verbatim>\<open>rl_key\<close>, empty when the thread starts and
  set by the first call of \<^verbatim>\<open>thread_readline\<close>.
\<close>

partial_function (option) str_echo_thread ::
    "'w reader \<Rightarrow> 'w writer \<Rightarrow> fd \<Rightarrow> rline option \<Rightarrow> rline \<Rightarrow> 'w \<Rightarrow> (ssize \<times> 'w) c_value option" where
  "str_echo_thread rd wr sock slot fresh w =
     (case thread_readline rd sock MAXLINE_sf slot fresh w of
        UB \<Rightarrow> Some UB
      | Val r \<Rightarrow>
          (case r of
             None \<Rightarrow> None
           | Some (Cnt n, buffer, tsd, w') \<Rightarrow>
               if n > 0 then (case written wr sock (take n buffer) w' of
                                None \<Rightarrow> None
                              | Some (_, w'') \<Rightarrow> str_echo_thread rd wr sock (Some tsd) fresh w'')
               else Some (Val (Cnt 0, w'))
           | Some (Neg e, buffer, tsd, w') \<Rightarrow>
               if e = Some EINTR then str_echo_thread rd wr sock (Some tsd) fresh w'
               else Some (Val (Neg e, w'))))"

section \<open>socket/sum.h and tcpcliserv/str_echo09.c\<close>

partial_function (option) number_echo ::
    "'w reader \<Rightarrow> 'w writer \<Rightarrow> fd \<Rightarrow> 'w \<Rightarrow> (ssize \<times> 'w) c_value option" where
  "number_echo rd wr sockfd w =
     (case readn_sf rd sockfd 16 w of
        None \<Rightarrow> None
      | Some (Neg e, args, w') \<Rightarrow> Some (Val (Neg e, w'))
      | Some (Cnt n, args, w') \<Rightarrow>
          if n > 0 then
            (case add_long (dec_long (take 8 args)) (dec_long (drop 8 args)) of
               UB \<Rightarrow> Some UB
             | Val sm \<Rightarrow>
                 (case add_long sm 100 of
                    UB \<Rightarrow> Some UB
                  | Val sm' \<Rightarrow>
                      (case written wr sockfd (enc_long sm') w' of
                         None \<Rightarrow> None
                       | Some (_, w'') \<Rightarrow> number_echo rd wr sockfd w'')))
          else Some (Val (Cnt 0, w')))"

text \<open>
  \<open>args\<close> is the automatic \<^verbatim>\<open>struct args\<close>, which a short read overwrites only in part.
\<close>

partial_function (option) str_echo09 ::
    "'w reader \<Rightarrow> 'w writer \<Rightarrow> fd \<Rightarrow> char list \<Rightarrow> 'w \<Rightarrow> (unit run \<times> 'w) c_value option" where
  "str_echo09 rd wr sockfd args w =
     (case Readn rd sockfd 16 w of
        None \<Rightarrow> None
      | Some (Exit c, buf, w') \<Rightarrow> Some (Val (Exit c, w'))
      | Some (Ret n, buf, w') \<Rightarrow>
          if n = 0 then Some (Val (Ret (), w'))
          else let args' = buf @ drop (length buf) args in
            (case add_long (dec_long (take 8 args')) (dec_long (drop 8 args')) of
               UB \<Rightarrow> Some UB
             | Val sm \<Rightarrow>
                 (case Writen wr sockfd (enc_long sm) w' of
                    None \<Rightarrow> None
                  | Some (Exit c, w'') \<Rightarrow> Some (Val (Exit c, w''))
                  | Some (Ret _, w'') \<Rightarrow> str_echo09 rd wr sockfd args' w'')))"

section \<open>Correctness on any kernel that keeps its promises\<close>

context byte_kernel
begin

lemma writen_ok:
  assumes "whealthy w fd"
  obtains w' where "writen wr fd bs w = Some (Cnt (length bs), w')" "out w' fd = out w fd @ bs"
    "inp w' = inp w" "stalls w' = stalls w" "healthy w' = healthy w" "whealthy w' fd"
  using assms
  by (cases rule: writen_total [of fd bs w]) (use writen_frame [of fd bs w] in auto)

lemma Writen_ok:
  assumes "whealthy w fd"
  obtains w' where "Writen wr fd bs w = Some (Ret (), w')" "out w' fd = out w fd @ bs"
    "inp w' = inp w" "stalls w' = stalls w" "healthy w' = healthy w" "whealthy w' fd"
proof -
  from assms obtain w' where w': "writen wr fd bs w = Some (Cnt (length bs), w')"
    "out w' fd = out w fd @ bs" "inp w' = inp w" "stalls w' = stalls w" "healthy w' = healthy w"
    "whealthy w' fd"
    by (rule writen_ok)
  then show thesis by (intro that [of w']) (simp_all add: Writen_def)
qed

lemma str_echo_total:
  assumes "healthy w fd" and "whealthy w fd"
  shows "\<exists>w'. str_echo rd wr fd w = Some (Ret (), w') \<and> out w' fd = out w fd @ inp w fd \<and>
    inp w' fd = []"
  using assms
proof (induction "(length (inp w fd), stalls w fd)" arbitrary: w
    rule: wf_induct_rule [OF wf_lex_prod [OF wf_less_than wf_less_than]])
  case (1 w)
  note unfold = str_echo.simps [of rd wr fd w]
  have "(0 :: nat) < MAXLINE" by simp
  then show ?case
  proof (cases rule: rd_cases [where n = MAXLINE and w = w and fd = fd])
    case (intr w1)
    then have "((length (inp w1 fd), stalls w1 fd), length (inp w fd), stalls w fd)
        \<in> less_than <*lex*> less_than" by simp
    from 1(1) [OF this] 1(2,3) intr rd_out [OF intr(1)] rd_keeps_whealthy [OF intr(1)]
    show ?thesis by (auto simp: unfold)
  next
    case (eof w1)
    with rd_out [OF eof(1)] show ?thesis by (auto simp: unfold)
  next
    case (data bs w1)
    with 1(2,3) rd_keeps_whealthy [OF data(1)] have h: "healthy w1 fd" "whealthy w1 fd" by auto
    from h(2) obtain w2 where w2: "Writen wr fd bs w1 = Some (Ret (), w2)"
      "out w2 fd = out w1 fd @ bs" "inp w2 = inp w1" "healthy w2 = healthy w1" "whealthy w2 fd"
      by (rule Writen_ok)
    with data have "((length (inp w2 fd), stalls w2 fd), length (inp w fd), stalls w fd)
        \<in> less_than <*lex*> less_than" by simp
    from 1(1) [OF this] h w2 data rd_out [OF data(1)] show ?thesis by (auto simp: unfold)
  next
    case err
    with 1(2) show ?thesis by simp
  qed
qed

text \<open>
  The client against a server that answers what it is sent: the reply stream is the client's input.
\<close>

lemma str_cli_total:
  assumes "healthy w fd" and "whealthy w fd" and "rl_ok s" and "stream fd s w = cs" and "NUL \<notin> set cs"
  shows "\<exists>s' w'. str_cli rd wr (cs, False) fd s stdout w = Some (Ret (), s', stdout @ cs, w') \<and>
    out w' fd = out w fd @ cs"
  using assms
proof (induction "length cs" arbitrary: cs s stdout w rule: less_induct)
  case less
  let ?l = "line_of 4095 cs"
  show ?case
  proof (cases "cs = []")
    case True
    then show ?thesis by (subst str_cli.simps) (simp add: fgets_def ferror_def)
  next
    case False
    then have ne: "?l \<noteq> []" by (cases cs) (simp_all add: line_of_pos)
    have sub: "NUL \<notin> set ?l" using set_line_of_subset less.prems(5) by (metis in_set_takeD subset_code(1))
    from less.prems(2) obtain w1 where w1: "Writen wr fd ?l w = Some (Ret (), w1)"
      "out w1 fd = out w fd @ ?l" "inp w1 = inp w" "healthy w1 = healthy w" "whealthy w1 fd"
      by (rule Writen_ok)
    from w1 less.prems have "healthy w1 fd" "stream fd s w1 = cs" by auto
    with readline_ok [OF less.prems(3) this(1), of MAXLINE] obtain cnt s' w2 where
      w2: "readline rd fd MAXLINE s w1 = Some (Cnt cnt, ?l @ [NUL], s', w2)"
        "cs = ?l @ stream fd s' w2" "length ?l \<le> cnt" "rl_ok s'" "healthy w2 fd"
      by auto
    note frame = readline_frame [OF w2(1)]
    have shrinks: "length (stream fd s' w2) < length cs"
      using w2(2) ne by (metis length_append less_add_same_cancel2 length_greater_0_conv)
    have "NUL \<notin> set (stream fd s' w2)"
      using w2(2) less.prems(5) by (metis Un_iff set_append)
    with less.hyps [OF shrinks w2(5) _ w2(4) refl, of "stdout @ ?l"] w1(5) frame obtain s'' w'' where
      rest: "str_cli rd wr (stream fd s' w2, False) fd s' (stdout @ ?l) w2 =
         Some (Ret (), s'', (stdout @ ?l) @ stream fd s' w2, w'')"
        "out w'' fd = out w2 fd @ stream fd s' w2"
      by auto
    have "drop (length ?l) cs = stream fd s' w2"
      using w2(2) by (metis append_eq_conv_conj)
    then have "fgets MAXLINE (cs, False) = Some (?l, (stream fd s' w2, False))"
      using ne by (simp add: fgets_def Let_def)
    moreover have "0 < cnt" using ne w2(3) by (metis gr0I le_zero_eq length_0_conv)
    ultimately have "str_cli rd wr (cs, False) fd s stdout w =
        str_cli rd wr (stream fd s' w2, False) fd s' (stdout @ ?l) w2"
      using sub by (subst str_cli.simps) (simp add: w1(1) Readline_def w2(1) c_string_id c_string_NUL)
    with rest w1(2) frame w2(2) [symmetric] show ?thesis by auto
  qed
qed

text \<open>
  The adding server against a client that sends whole pairs: every pair is answered, in order.
\<close>

lemma number_echo_total:
  assumes "healthy w fd" and "whealthy w fd"
    and "inp w fd = concat (map enc_pair ps)" and "list_all sum_fits ps"
  shows "\<exists>w'. number_echo rd wr fd w = Some (Val (Cnt 0, w')) \<and>
    out w' fd = out w fd @ concat (map answer ps)"
  using assms
proof (induction ps arbitrary: w)
  case Nil
  with readn_sf_ok [OF Nil(1), of 16] obtain w1 where
    "readn_sf rd fd 16 w = Some (Cnt 0, [], w1)" by auto
  with readn_sf_frame [OF this] show ?case by (subst number_echo.simps) auto
next
  case (Cons p ps)
  obtain a b where p: "p = (a, b)" by (cases p)
  from Cons.prems(3) p have "inp w fd = enc_long a @ enc_long b @ concat (map enc_pair ps)"
    by (simp add: enc_pair_def [of "(a, b)"])
  with readn_sf_ok [OF Cons.prems(1), of 16] obtain w1 where
    w1: "readn_sf rd fd 16 w = Some (Cnt 16, enc_long a @ enc_long b, w1)"
      "inp w1 fd = concat (map enc_pair ps)" "healthy w1 fd" by auto
  note frame = readn_sf_frame [OF w1(1)]
  with Cons.prems(2) have "whealthy w1 fd" by simp
  then obtain w2 where w2: "writen wr fd (answer p) w1 = Some (Cnt (length (answer p)), w2)"
      "out w2 fd = out w1 fd @ answer p" "inp w2 = inp w1" "healthy w2 = healthy w1" "whealthy w2 fd"
    by (rule writen_ok)
  with Cons.IH [of w2] Cons.prems(4) w1 obtain w3 where
    w3: "number_echo rd wr fd w2 = Some (Val (Cnt 0, w3))"
      "out w3 fd = out w2 fd @ concat (map answer ps)" by auto
  have "number_echo rd wr fd w = number_echo rd wr fd w2"
    using Cons.prems(4) w2(1)
    by (subst number_echo.simps) (simp add: w1(1) p sum_fits_def written_eq_writen answer_def add_long_Val)
  with w3 w2(2) frame show ?case by simp
qed

text \<open>The threaded server, from a thread that has not read yet.\<close>

lemma str_echo_thread_second_call:
  assumes "rl_ok fresh" and "pending fresh = []" and "healthy w fd" and "whealthy w fd"
    and "newline \<in> set (take (MAXLINE_sf - 1) (inp w fd))"
  shows "str_echo_thread rd wr fd None fresh w = Some UB"
proof -
  have m: "0 < MAXLINE_sf" by simp
  from collect_total [OF assms(1) m, of fd "MAXLINE_sf - 1" "[]" w] assms(3) obtain st line s' w' where
    c: "collect rd MAXLINE_sf fd (MAXLINE_sf - 1) [] fresh w = Some (st, line, s', w')"
      "\<forall>e. st \<noteq> Err e" "stream fd fresh w = line @ stream fd s' w'"
      "case st of
        Newline \<Rightarrow> line = line_of (MAXLINE_sf - 1) (stream fd fresh w) \<and> line \<noteq> [] \<and> last line = newline
      | Full \<Rightarrow> line = line_of (MAXLINE_sf - 1) (stream fd fresh w) \<and> length line = MAXLINE_sf - 1 \<and>
          newline \<notin> set line
      | Eof \<Rightarrow> line = line_of (MAXLINE_sf - 1) (stream fd fresh w) \<and> stream fd s' w' = [] \<and>
          length line < MAXLINE_sf - 1 \<and> newline \<notin> set line
      | Err e \<Rightarrow> e \<noteq> EINTR \<and> length line < MAXLINE_sf - 1 \<and> newline \<notin> set line"
    unfolding append_Nil by blast
  have line: "st = Newline \<and> line \<noteq> []"
  proof (cases st)
    case Full
    with c(3,4) have "take (MAXLINE_sf - 1) (stream fd fresh w) = line" by simp
    with Full c(4) assms(2,5) show ?thesis by auto
  next
    case Eof
    with c(3,4) assms(2,5) in_set_takeD show ?thesis by fastforce
  qed (use c(2,4) in auto)
  then have r: "thread_readline rd fd MAXLINE_sf None fresh w =
      Val (Some (Cnt (length line), line @ [NUL], s', w'))"
    using c(1) by (simp add: thread_readline_def thread_readline_loop_collect)
  have "whealthy w' fd"
    using collect_keeps [OF c(1) keeps_same_but, of w] assms(4) by simp
  then obtain w2 where "writen wr fd line w' = Some (Cnt (length line), w2)" by (rule writen_ok)
  moreover have "str_echo_thread rd wr fd (Some s') fresh w2 = Some UB"
    by (simp add: str_echo_thread.simps [of _ _ _ "Some _"] thread_readline_def)
  ultimately show ?thesis
    using line by (subst str_echo_thread.simps) (simp add: r written_eq_writen)
qed

end

section \<open>Properties\<close>

text \<open>
  C19. The library's \<^verbatim>\<open>str_echo\<close> is an echo: on a connection without failures it returns normally once the
  client has closed, and by then it has sent back exactly the bytes it received, in order, whatever the
  sizes of the segments, the short writes and the interruptions in between.
\<close>

theorem str_echo_echoes:
  assumes "rx_clean k fd" and "tx_clean k fd"
  shows "\<exists>k'. str_echo k_read k_write fd k = Some (Ret (), k') \<and>
    k_sent k' fd = k_sent k fd @ k_inp k fd \<and> k_inp k' fd = []"
  using assms by (rule kio.str_echo_total)

theorem str_echo_echoes_witness:
  "\<exists>k'. str_echo k_read k_write 5 demo_kern = Some (Ret (), k') \<and> k_sent k' 5 = ''abcd''"
proof -
  have "rx_clean demo_kern 5" "tx_clean demo_kern 5"
    by (simp_all add: rx_clean_def tx_clean_def demo_kern_def)
  from str_echo_echoes [OF this] show ?thesis
    by (auto simp: k_inp_def demo_kern_def)
qed



text \<open>
  The adding server of socket/sum.h: when the client sends whole pairs of \<^verbatim>\<open>long\<close> in the host's byte
  order and no sum overflows, every pair \<open>(a, b)\<close> is answered, in order, by the encoding of
  \<open>a + b + 100\<close>, and the server ends when the client closes. The pairs may arrive cut anywhere.
\<close>

theorem number_echo_answers:
  assumes "rx_clean k fd" and "tx_clean k fd"
    and "k_inp k fd = concat (map enc_pair ps)" and "list_all sum_fits ps"
  shows "\<exists>k'. number_echo k_read k_write fd k = Some (Val (Cnt 0, k')) \<and>
    k_sent k' fd = k_sent k fd @ concat (map answer ps)"
  using assms by (rule kio.number_echo_total)

definition sum_kern :: kern where
  "sum_kern = \<lparr>k_rx = (\<lambda>fd. case enc_pair (3, 4) of [] \<Rightarrow> [] | c # cs \<Rightarrow>
       [RxSeg c (take 4 cs), RxIntr, RxSeg (cs ! 4) (drop 5 cs)]),
     k_tx = (\<lambda>fd. []), k_sent = (\<lambda>fd. [])\<rparr>"

theorem number_echo_answers_witness:
  "\<exists>k'. number_echo k_read k_write 5 sum_kern = Some (Val (Cnt 0, k')) \<and> dec_long (k_sent k' 5) = 107"
proof -
  have "enc_pair (3, 4) = [CHR 0x03, NUL, NUL, NUL, NUL, NUL, NUL, NUL, CHR 0x04, NUL, NUL, NUL, NUL, NUL, NUL, NUL]"
    by code_simp
  then have "rx_clean sum_kern 5" "tx_clean sum_kern 5" "k_inp sum_kern 5 = concat (map enc_pair [(3, 4)])"
    by (simp_all add: rx_clean_def tx_clean_def sum_kern_def k_inp_def)
  moreover have "list_all sum_fits [(3, 4)]" by (simp add: sum_fits_def add_long_def)
  ultimately have "\<exists>k'. number_echo k_read k_write 5 sum_kern = Some (Val (Cnt 0, k')) \<and>
      k_sent k' 5 = k_sent sum_kern 5 @ concat (map answer [(3, 4)])"
    by (rule number_echo_answers)
  then show ?thesis by (auto simp: sum_kern_def answer_def)
qed

text \<open>
  The threaded server of socket/thread_server.c on a connection without failures: as soon as the client
  has sent one line, the server reads the next one through an indeterminate pointer. The first call of
  \<^verbatim>\<open>thread_readline\<close> sets the thread's slot, and every later call leaves \<^verbatim>\<open>tsd\<close> uninitialised because only
  the branch for an empty slot assigns it.
\<close>

theorem str_echo_thread_undefined:
  assumes "rl_ok fresh" and "pending fresh = []" and "rx_clean k fd" and "tx_clean k fd"
    and "newline \<in> set (take (MAXLINE_sf - 1) (k_inp k fd))"
  shows "str_echo_thread k_read k_write fd None fresh k = Some UB"
  using assms by (rule kio.str_echo_thread_second_call)

theorem str_echo_thread_undefined_witness:
  "str_echo_thread k_read k_write 5 None empty_rline two_lines = Some UB"
proof -
  have "rl_ok empty_rline" "pending empty_rline = []" "rx_clean two_lines 5" "tx_clean two_lines 5"
    "newline \<in> set (take (MAXLINE_sf - 1) (k_inp two_lines 5))"
    by (simp_all add: rl_ok_def empty_rline_def pending_def rx_clean_def tx_clean_def two_lines_def k_inp_def)
  then show ?thesis by (rule str_echo_thread_undefined)
qed

end
