(* ===== verification/Heap_List.thy ===== *)
theory Heap_List
  imports CPrelude "HOL-Library.Monad_Syntax"
begin

text \<open>
  The container library: the doubly linked list of strings of \<^verbatim>\<open>container/list.c\<close> (\<^verbatim>\<open>library/container/list.c\<close>
  is the same file). Nodes and list headers live in a heap, one map per structure. A pointer is \<open>Null\<close>,
  the address of a block, or \<open>Indet\<close>, the contents of memory nobody has written. A definition returns
  \<open>None\<close> where C is undefined (a null, dangling or indeterminate pointer is dereferenced or freed, or
  an indeterminate one is compared) and where a loop does not end.

  Two things belong to \<^verbatim>\<open>malloc\<close>, not to this code, and are parameters: \<open>malloc\<close> chooses the address of
  the new block (or none, when memory is exhausted), and \<open>fresh\<close> is what the pointer fields of a new block
  hold: \<open>Indet\<close> by the C standard, \<open>Null\<close> when the memory comes zeroed, as pages new from the kernel do.
\<close>

section \<open>Heap\<close>

datatype ptr = Null | At nat | Indet

record node_type =
  n_val :: string
  n_next :: ptr
  n_last :: ptr

record list_type =
  l_head :: ptr
  l_tail :: ptr

record heap =
  hp_nodes :: "nat \<Rightarrow> node_type option"
  hp_lists :: "nat \<Rightarrow> list_type option"

type_synonym malloc = "heap \<Rightarrow> nat option"

fun is_null :: "ptr \<Rightarrow> bool option" where
  "is_null Null = Some True"
| "is_null (At a) = Some False"
| "is_null Indet = None"

fun get_node :: "heap \<Rightarrow> ptr \<Rightarrow> node_type option" where
  "get_node h (At a) = hp_nodes h a"
| "get_node h p = None"

fun set_node :: "heap \<Rightarrow> ptr \<Rightarrow> (node_type \<Rightarrow> node_type) \<Rightarrow> heap option" where
  "set_node h (At a) f = map_option (\<lambda>n. h\<lparr>hp_nodes := (hp_nodes h)(a \<mapsto> f n)\<rparr>) (hp_nodes h a)"
| "set_node h p f = None"

fun free_node :: "heap \<Rightarrow> ptr \<Rightarrow> heap option" where
  "free_node h (At a) = map_option (\<lambda>n. h\<lparr>hp_nodes := (hp_nodes h)(a := None)\<rparr>) (hp_nodes h a)"
| "free_node h Null = Some h"
| "free_node h Indet = None"

fun get_list :: "heap \<Rightarrow> ptr \<Rightarrow> list_type option" where
  "get_list h (At c) = hp_lists h c"
| "get_list h p = None"

fun set_list :: "heap \<Rightarrow> ptr \<Rightarrow> (list_type \<Rightarrow> list_type) \<Rightarrow> heap option" where
  "set_list h (At c) f = map_option (\<lambda>l. h\<lparr>hp_lists := (hp_lists h)(c \<mapsto> f l)\<rparr>) (hp_lists h c)"
| "set_list h p f = None"

fun free_list :: "heap \<Rightarrow> ptr \<Rightarrow> heap option" where
  "free_list h (At c) = map_option (\<lambda>l. h\<lparr>hp_lists := (hp_lists h)(c := None)\<rparr>) (hp_lists h c)"
| "free_list h Null = Some h"
| "free_list h Indet = None"

section \<open>The operations of container/list.c\<close>

definition list_create :: "malloc \<Rightarrow> ptr \<Rightarrow> heap \<Rightarrow> ptr \<times> heap" where
  "list_create malloc fresh h =
     (case malloc h of
        None \<Rightarrow> (Null, h)
      | Some c \<Rightarrow> (At c, h\<lparr>hp_lists := (hp_lists h)(c \<mapsto> \<lparr>l_head = fresh, l_tail = fresh\<rparr>)\<rparr>))"

text \<open>The loop of \<^verbatim>\<open>list_destory\<close> frees the node and then reads its \<^verbatim>\<open>next\<close> field.\<close>

partial_function (option) list_destory_loop :: "ptr \<Rightarrow> heap \<Rightarrow> heap option" where
  "list_destory_loop current h =
     do {
       fin \<leftarrow> is_null current;
       if fin then Some h
       else do {
         h' \<leftarrow> free_node h current;
         n \<leftarrow> get_node h' current;
         list_destory_loop (n_next n) h'
       }
     }"

definition list_destory :: "ptr \<Rightarrow> heap \<Rightarrow> heap option" where
  "list_destory container h =
     do {
       none \<leftarrow> is_null container;
       if none then Some h
       else do {
         l \<leftarrow> get_list h container;
         h' \<leftarrow> list_destory_loop (l_head l) h;
         free_list h' container
       }
     }"

definition new_node :: "ptr \<Rightarrow> heap \<Rightarrow> nat \<Rightarrow> string \<Rightarrow> heap" where
  "new_node fresh h a v = h\<lparr>hp_nodes := (hp_nodes h)(a \<mapsto> \<lparr>n_val = v, n_next = fresh, n_last = fresh\<rparr>)\<rparr>"

definition list_insert :: "malloc \<Rightarrow> ptr \<Rightarrow> ptr \<Rightarrow> string \<Rightarrow> heap \<Rightarrow> (int \<times> heap) option" where
  "list_insert malloc fresh container v h =
     (case malloc h of
        None \<Rightarrow> Some (-1, h)
      | Some a \<Rightarrow>
          do {
            let h1 = new_node fresh h a v;
            l \<leftarrow> get_list h1 container;
            empty \<leftarrow> is_null (l_head l);
            if empty then do {
              h2 \<leftarrow> set_list h1 container (\<lambda>l. l\<lparr>l_head := At a, l_tail := At a\<rparr>);
              Some (0, h2)
            } else do {
              h2 \<leftarrow> set_node h1 (l_head l) (\<lambda>n. n\<lparr>n_last := At a\<rparr>);
              h3 \<leftarrow> set_node h2 (At a) (\<lambda>n. n\<lparr>n_next := l_head l\<rparr>);
              h4 \<leftarrow> set_list h3 container (\<lambda>l. l\<lparr>l_head := At a\<rparr>);
              Some (0, h4)
            }
          })"

definition list_append :: "malloc \<Rightarrow> ptr \<Rightarrow> ptr \<Rightarrow> string \<Rightarrow> heap \<Rightarrow> (int \<times> heap) option" where
  "list_append malloc fresh container v h =
     (case malloc h of
        None \<Rightarrow> Some (-1, h)
      | Some a \<Rightarrow>
          do {
            let h1 = new_node fresh h a v;
            l \<leftarrow> get_list h1 container;
            empty \<leftarrow> is_null (l_tail l);
            if empty then do {
              h2 \<leftarrow> set_list h1 container (\<lambda>l. l\<lparr>l_head := At a, l_tail := At a\<rparr>);
              Some (0, h2)
            } else do {
              h2 \<leftarrow> set_node h1 (l_tail l) (\<lambda>n. n\<lparr>n_next := At a\<rparr>);
              h3 \<leftarrow> set_node h2 (At a) (\<lambda>n. n\<lparr>n_last := l_tail l\<rparr>);
              h4 \<leftarrow> set_list h3 container (\<lambda>l. l\<lparr>l_tail := At a\<rparr>);
              Some (0, h4)
            }
          })"

text \<open>\<^verbatim>\<open>NULL\<close> as a result string is \<open>None\<close> inside the result.\<close>

definition list_remove :: "ptr \<Rightarrow> heap \<Rightarrow> (string option \<times> heap) option" where
  "list_remove container h =
     do {
       none \<leftarrow> is_null container;
       if none then Some (None, h)
       else do {
         l \<leftarrow> get_list h container;
         empty \<leftarrow> is_null (l_tail l);
         if empty then Some (None, h)
         else do {
           n \<leftarrow> get_node h (l_tail l);
           single \<leftarrow> is_null (n_last n);
           h1 \<leftarrow> (if single then set_list h container (\<lambda>l. l\<lparr>l_tail := Null, l_head := Null\<rparr>)
                 else do {
                   h' \<leftarrow> set_list h container (\<lambda>l. l\<lparr>l_tail := n_last n\<rparr>);
                   set_node h' (n_last n) (\<lambda>m. m\<lparr>n_next := Null\<rparr>)
                 });
           h2 \<leftarrow> free_node h1 (l_tail l);
           Some (Some (n_val n), h2)
         }
       }
     }"

text \<open>The body that unlinks \<^verbatim>\<open>current\<close>, and the loop that looks for it.\<close>

definition unlink_node :: "ptr \<Rightarrow> ptr \<Rightarrow> heap \<Rightarrow> heap option" where
  "unlink_node container current h =
     do {
       n \<leftarrow> get_node h current;
       no_last \<leftarrow> is_null (n_last n);
       no_next \<leftarrow> (if no_last then is_null (n_next n) else Some False);
       h1 \<leftarrow> (if no_last \<and> no_next then set_list h container (\<lambda>l. l\<lparr>l_head := Null, l_tail := Null\<rparr>)
             else Some h);
       h2 \<leftarrow> (if \<not> no_last then set_node h1 (n_last n) (\<lambda>m. m\<lparr>n_next := n_next n\<rparr>)
             else set_list h1 container (\<lambda>l. l\<lparr>l_head := n_next n\<rparr>));
       no_next' \<leftarrow> is_null (n_next n);
       h3 \<leftarrow> (if \<not> no_next' then set_node h2 (n_next n) (\<lambda>m. m\<lparr>n_last := n_last n\<rparr>)
             else set_list h2 container (\<lambda>l. l\<lparr>l_tail := n_last n\<rparr>));
       free_node h3 current
     }"

partial_function (option) list_remove_loop :: "ptr \<Rightarrow> string \<Rightarrow> ptr \<Rightarrow> heap \<Rightarrow> (int \<times> heap) option" where
  "list_remove_loop container v current h =
     do {
       fin \<leftarrow> is_null current;
       if fin then Some (-1, h)
       else do {
         n \<leftarrow> get_node h current;
         if n_val n \<noteq> v then list_remove_loop container v (n_next n) h
         else do {
           h' \<leftarrow> unlink_node container current h;
           Some (0, h')
         }
       }
     }"

definition list_remove_specified :: "ptr \<Rightarrow> string \<Rightarrow> heap \<Rightarrow> (int \<times> heap) option" where
  "list_remove_specified container v h =
     do {
       none \<leftarrow> is_null container;
       if none then Some (-1, h)
       else do {
         l \<leftarrow> get_list h container;
         list_remove_loop container v (l_head l) h
       }
     }"

partial_function (option) list_search_loop :: "string \<Rightarrow> ptr \<Rightarrow> heap \<Rightarrow> string option option" where
  "list_search_loop v current h =
     do {
       fin \<leftarrow> is_null current;
       if fin then Some None
       else do {
         n \<leftarrow> get_node h current;
         if n_val n = v then Some (Some (n_val n)) else list_search_loop v (n_next n) h
       }
     }"

definition list_search :: "ptr \<Rightarrow> string \<Rightarrow> heap \<Rightarrow> string option option" where
  "list_search container v h =
     do { l \<leftarrow> get_list h container; list_search_loop v (l_head l) h }"

definition list_is_empty :: "ptr \<Rightarrow> heap \<Rightarrow> bool option" where
  "list_is_empty container h =
     do {
       l \<leftarrow> get_list h container;
       no_head \<leftarrow> is_null (l_head l);
       if no_head then is_null (l_tail l) else Some False
     }"

partial_function (option) list_display_loop :: "ptr \<Rightarrow> heap \<Rightarrow> string list option" where
  "list_display_loop current h =
     do {
       fin \<leftarrow> is_null current;
       if fin then Some []
       else do {
         n \<leftarrow> get_node h current;
         rest \<leftarrow> list_display_loop (n_next n) h;
         Some (n_val n # rest)
       }
     }"

definition list_display :: "ptr \<Rightarrow> heap \<Rightarrow> string list option" where
  "list_display container h =
     do { l \<leftarrow> get_list h container; list_display_loop (l_head l) h }"

section \<open>The list a heap represents\<close>

text \<open>
  A segment of the chain, as the addresses and strings of its nodes: \<open>prev\<close> is what the first node
  points back to and \<open>nxt\<close> what the last one points forward to.
\<close>

fun first_ptr :: "(nat \<times> string) list \<Rightarrow> ptr \<Rightarrow> ptr" where
  "first_ptr [] p = p"
| "first_ptr (x # xs) p = At (fst x)"

fun last_ptr :: "ptr \<Rightarrow> (nat \<times> string) list \<Rightarrow> ptr" where
  "last_ptr p [] = p"
| "last_ptr p (x # xs) = last_ptr (At (fst x)) xs"

fun dseg :: "(nat \<Rightarrow> node_type option) \<Rightarrow> ptr \<Rightarrow> (nat \<times> string) list \<Rightarrow> ptr \<Rightarrow> bool" where
  "dseg m prev [] nxt = True"
| "dseg m prev (x # xs) nxt =
     (m (fst x) = Some \<lparr>n_val = snd x, n_next = first_ptr xs nxt, n_last = prev\<rparr> \<and>
      dseg m (At (fst x)) xs nxt)"

definition dll :: "heap \<Rightarrow> ptr \<Rightarrow> (nat \<times> string) list \<Rightarrow> bool" where
  "dll h container xs \<longleftrightarrow>
     get_list h container = Some \<lparr>l_head = first_ptr xs Null, l_tail = last_ptr Null xs\<rparr> \<and>
     dseg (hp_nodes h) Null xs Null \<and> distinct (map fst xs)"

definition represents :: "heap \<Rightarrow> ptr \<Rightarrow> string list \<Rightarrow> bool" where
  "represents h container vs \<longleftrightarrow> (\<exists>xs. dll h container xs \<and> map snd xs = vs)"

lemma first_ptr_append [simp]: "first_ptr (xs @ ys) p = first_ptr xs (first_ptr ys p)"
  by (cases xs) auto

lemma last_ptr_append [simp]: "last_ptr p (xs @ ys) = last_ptr (last_ptr p xs) ys"
  by (induction xs arbitrary: p) auto

lemma dseg_append [simp]:
  "dseg m prev (xs @ ys) nxt \<longleftrightarrow>
     dseg m prev xs (first_ptr ys nxt) \<and> dseg m (last_ptr prev xs) ys nxt"
  by (induction xs arbitrary: prev) auto

lemma dseg_upd [simp]: "a \<notin> fst ` set xs \<Longrightarrow> dseg (m(a := n)) prev xs nxt = dseg m prev xs nxt"
  by (induction xs arbitrary: prev) auto

lemma dseg_fresh: "dseg m prev xs nxt \<Longrightarrow> m a = None \<Longrightarrow> a \<notin> fst ` set xs"
  by (induction xs arbitrary: prev) auto

lemma is_null_first [simp]: "is_null (first_ptr xs Null) = Some (xs = [])"
  by (cases xs) auto

lemma is_null_last [simp]: "is_null (last_ptr Null xs) = Some (xs = [])"
  by (cases xs rule: rev_cases) auto

lemma dllE:
  assumes "dll h container xs"
  obtains c where "container = At c"
    "hp_lists h c = Some \<lparr>l_head = first_ptr xs Null, l_tail = last_ptr Null xs\<rparr>"
    "dseg (hp_nodes h) Null xs Null" "distinct (map fst xs)"
  using assms by (cases container) (auto simp: dll_def)

lemma list_insert_dll:
  assumes "dll h container xs" and "malloc h = Some a" and "hp_nodes h a = None"
  shows "\<exists>h'. list_insert malloc Null container v h = Some (0, h') \<and> dll h' container ((a, v) # xs)"
  using assms(1)
proof (cases rule: dllE)
  case (1 c)
  have a: "a \<notin> fst ` set xs" using 1(3) assms(3) by (rule dseg_fresh)
  show ?thesis
  proof (cases xs)
    case Nil
    with 1 assms(2) show ?thesis
      by (auto simp: list_insert_def new_node_def dll_def)
  next
    case (Cons x ys)
    with 1 assms(2) a show ?thesis
      by (auto simp: list_insert_def new_node_def dll_def)
  qed
qed

lemma list_append_dll:
  assumes "dll h container xs" and "malloc h = Some a" and "hp_nodes h a = None"
  shows "\<exists>h'. list_append malloc Null container v h = Some (0, h') \<and> dll h' container (xs @ [(a, v)])"
  using assms(1)
proof (cases rule: dllE)
  case (1 c)
  have a: "a \<notin> fst ` set xs" using 1(3) assms(3) by (rule dseg_fresh)
  show ?thesis
  proof (cases xs rule: rev_cases)
    case Nil
    with 1 assms(2) show ?thesis
      by (auto simp: list_append_def new_node_def dll_def)
  next
    case (snoc ys x)
    with 1 assms(2) a show ?thesis
      by (auto simp: list_append_def new_node_def dll_def)
  qed
qed

lemma list_remove_dll:
  assumes "dll h container xs"
  shows "\<exists>h'. list_remove container h = Some (if xs = [] then None else Some (snd (last xs)), h') \<and>
    dll h' container (butlast xs)"
  using assms
proof (cases rule: dllE)
  case (1 c)
  show ?thesis
  proof (cases xs rule: rev_cases)
    case Nil
    with 1 show ?thesis by (auto simp: list_remove_def dll_def)
  next
    case (snoc ys x)
    with 1 show ?thesis
      by (cases ys rule: rev_cases) (auto simp: list_remove_def dll_def butlast_append)
  qed
qed

lemma unlink_node_dll:
  assumes "dll h container (xs @ x # ys)"
  shows "\<exists>h'. unlink_node container (At (fst x)) h = Some h' \<and> dll h' container (xs @ ys)"
  using assms
proof (cases rule: dllE)
  case (1 c)
  then show ?thesis
    by (cases xs rule: rev_cases; cases ys) (auto simp: unlink_node_def dll_def)
qed

lemma list_remove_loop_dll:
  assumes "dll h container (xs @ ys)"
  shows "\<exists>h' zs. list_remove_loop container v (first_ptr ys Null) h =
      Some (if v \<in> snd ` set ys then 0 else -1, h') \<and> dll h' container zs \<and>
    map snd zs = map snd xs @ remove1 v (map snd ys)"
  using assms
proof (induction ys arbitrary: xs)
  case Nil
  then show ?case by (subst list_remove_loop.simps) auto
next
  case (Cons y ys)
  then have y: "hp_nodes h (fst y) =
      Some \<lparr>n_val = snd y, n_next = first_ptr ys Null, n_last = last_ptr Null xs\<rparr>"
    by (auto simp: dll_def)
  show ?case
  proof (cases "snd y = v")
    case True
    from unlink_node_dll [OF Cons.prems] obtain h' where
      "unlink_node container (At (fst y)) h = Some h'" "dll h' container (xs @ ys)" by blast
    with True y show ?thesis
      by (subst list_remove_loop.simps) (auto intro!: exI [of _ "xs @ ys"])
  next
    case False
    with Cons.IH [of "xs @ [y]"] Cons.prems y show ?thesis
      by (subst list_remove_loop.simps) auto
  qed
qed

lemma list_remove_specified_dll:
  assumes "dll h container xs"
  shows "\<exists>h' zs. list_remove_specified container v h =
      Some (if v \<in> snd ` set xs then 0 else -1, h') \<and> dll h' container zs \<and>
    map snd zs = remove1 v (map snd xs)"
proof -
  from assms obtain c where c: "container = At c"
    "hp_lists h c = Some \<lparr>l_head = first_ptr xs Null, l_tail = last_ptr Null xs\<rparr>" by (rule dllE)
  with list_remove_loop_dll [of h container "[]" xs v] assms show ?thesis
    by (simp add: list_remove_specified_def)
qed

lemma list_search_loop_dseg:
  "dseg (hp_nodes h) prev xs Null \<Longrightarrow>
     list_search_loop v (first_ptr xs Null) h = Some (if v \<in> snd ` set xs then Some v else None)"
proof (induction xs arbitrary: prev)
  case (Cons x xs)
  then have "list_search_loop v (first_ptr xs Null) h = Some (if v \<in> snd ` set xs then Some v else None)"
    using Cons.IH [of "At (fst x)"] by simp
  with Cons.prems show ?case by (subst list_search_loop.simps) simp
qed (subst list_search_loop.simps, simp)

lemma list_display_loop_dseg:
  "dseg (hp_nodes h) prev xs Null \<Longrightarrow> list_display_loop (first_ptr xs Null) h = Some (map snd xs)"
  by (induction xs arbitrary: prev) (subst list_display_loop.simps; auto)+

lemma list_search_dll:
  "dll h container xs \<Longrightarrow>
     list_search container v h = Some (if v \<in> snd ` set xs then Some v else None)"
  by (elim dllE) (simp add: list_search_def list_search_loop_dseg)

lemma list_is_empty_dll: "dll h container xs \<Longrightarrow> list_is_empty container h = Some (xs = [])"
  by (auto simp: list_is_empty_def elim!: dllE)

lemma list_display_dll: "dll h container xs \<Longrightarrow> list_display container h = Some (map snd xs)"
  by (auto simp: list_display_def list_display_loop_dseg elim!: dllE)

lemma list_create_dll:
  "malloc h = Some c \<Longrightarrow> \<exists>h'. list_create malloc Null h = (At c, h') \<and> dll h' (At c) []"
  by (simp add: list_create_def dll_def)

section \<open>What the container promises\<close>

text \<open>
  The calls a client makes, their results, and the list of strings they are meant to act on. An insertion
  may fail for lack of memory: it then returns \<^verbatim>\<open>-1\<close> and the list is as before.
\<close>

datatype list_call =
    Insert string | Append string | Remove | RemoveSpecified string | Search string | IsEmpty | Display

datatype list_result = Status int | Str "string option" | Flag bool | Shown "string list"

fun spec_call :: "list_call \<Rightarrow> string list \<Rightarrow> list_result \<Rightarrow> string list \<Rightarrow> bool" where
  "spec_call (Insert v) vs r vs' \<longleftrightarrow> r = Status 0 \<and> vs' = v # vs \<or> r = Status (-1) \<and> vs' = vs"
| "spec_call (Append v) vs r vs' \<longleftrightarrow> r = Status 0 \<and> vs' = vs @ [v] \<or> r = Status (-1) \<and> vs' = vs"
| "spec_call Remove vs r vs' \<longleftrightarrow>
     r = Str (if vs = [] then None else Some (last vs)) \<and> vs' = butlast vs"
| "spec_call (RemoveSpecified v) vs r vs' \<longleftrightarrow>
     r = Status (if v \<in> set vs then 0 else -1) \<and> vs' = remove1 v vs"
| "spec_call (Search v) vs r vs' \<longleftrightarrow> r = Str (if v \<in> set vs then Some v else None) \<and> vs' = vs"
| "spec_call IsEmpty vs r vs' \<longleftrightarrow> r = Flag (vs = []) \<and> vs' = vs"
| "spec_call Display vs r vs' \<longleftrightarrow> r = Shown vs \<and> vs' = vs"

inductive spec_run :: "string list \<Rightarrow> list_call list \<Rightarrow> list_result list \<Rightarrow> string list \<Rightarrow> bool" where
  spec_done: "spec_run vs [] [] vs"
| spec_step: "spec_call c vs r vs' \<Longrightarrow> spec_run vs' cs rs vs'' \<Longrightarrow> spec_run vs (c # cs) (r # rs) vs''"

text \<open>A client's session: one call after the other on the same state.\<close>

fun session ::
    "(list_call \<Rightarrow> 'h \<Rightarrow> (list_result \<times> 'h) option) \<Rightarrow> list_call list \<Rightarrow> 'h \<Rightarrow> (list_result list \<times> 'h) option" where
  "session call [] h = Some ([], h)"
| "session call (c # cs) h =
     do {
       (r, h') \<leftarrow> call c h;
       (rs, h'') \<leftarrow> session call cs h';
       Some (r # rs, h'')
     }"

text \<open>
  The interface: \<open>call\<close> runs one call on the state \<open>'h\<close>, \<open>rep\<close> says which list a state stands for, and
  every call does what \<open>spec_call\<close> says. A client's whole session then is a session of the list.
\<close>

locale string_container =
  fixes call :: "list_call \<Rightarrow> 'h \<Rightarrow> (list_result \<times> 'h) option"
    and rep :: "'h \<Rightarrow> string list \<Rightarrow> bool"
  assumes call_refines: "rep h vs \<Longrightarrow> \<exists>r h' vs'. call c h = Some (r, h') \<and> spec_call c vs r vs' \<and> rep h' vs'"
begin

lemma session_refines:
  "rep h vs \<Longrightarrow> \<exists>rs h' vs'. session call cs h = Some (rs, h') \<and> spec_run vs cs rs vs' \<and> rep h' vs'"
proof (induction cs arbitrary: h vs)
  case (Cons c cs)
  from call_refines [OF Cons.prems, of c] obtain r h' vs' where
    1: "call c h = Some (r, h')" "spec_call c vs r vs'" "rep h' vs'" by blast
  from Cons.IH [OF 1(3)] obtain rs h'' vs'' where
    "session call cs h' = Some (rs, h'')" "spec_run vs' cs rs vs''" "rep h'' vs''" by blast
  with 1 show ?case by (auto intro: spec_step)
qed (auto intro: spec_done)

end

section \<open>The linked list keeps the promise on zeroed memory\<close>

fun list_call_run :: "malloc \<Rightarrow> ptr \<Rightarrow> ptr \<Rightarrow> list_call \<Rightarrow> heap \<Rightarrow> (list_result \<times> heap) option" where
  "list_call_run malloc fresh l (Insert v) h =
     map_option (\<lambda>(i, h'). (Status i, h')) (list_insert malloc fresh l v h)"
| "list_call_run malloc fresh l (Append v) h =
     map_option (\<lambda>(i, h'). (Status i, h')) (list_append malloc fresh l v h)"
| "list_call_run malloc fresh l Remove h = map_option (\<lambda>(s, h'). (Str s, h')) (list_remove l h)"
| "list_call_run malloc fresh l (RemoveSpecified v) h =
     map_option (\<lambda>(i, h'). (Status i, h')) (list_remove_specified l v h)"
| "list_call_run malloc fresh l (Search v) h = map_option (\<lambda>s. (Str s, h)) (list_search l v h)"
| "list_call_run malloc fresh l IsEmpty h = map_option (\<lambda>b. (Flag b, h)) (list_is_empty l h)"
| "list_call_run malloc fresh l Display h = map_option (\<lambda>vs. (Shown vs, h)) (list_display l h)"

text \<open>What \<^verbatim>\<open>malloc\<close> promises: a block it returns is not in use.\<close>

definition malloc_ok :: "malloc \<Rightarrow> bool" where
  "malloc_ok malloc \<longleftrightarrow> (\<forall>h a. malloc h = Some a \<longrightarrow> hp_nodes h a = None \<and> hp_lists h a = None)"

lemma list_call_run_refines:
  assumes "malloc_ok malloc" and "represents h l vs"
  shows "\<exists>r h' vs'. list_call_run malloc Null l c h = Some (r, h') \<and> spec_call c vs r vs' \<and>
    represents h' l vs'"
proof -
  from assms(2) obtain xs where xs: "dll h l xs" "map snd xs = vs" by (auto simp: represents_def)
  have rep: "dll h' l ys \<Longrightarrow> map snd ys = ws \<Longrightarrow> represents h' l ws" for h' ys ws
    by (auto simp: represents_def)
  show ?thesis
  proof (cases c)
    case (Insert v)
    show ?thesis
    proof (cases "malloc h")
      case None
      with Insert assms(2) show ?thesis by (simp add: list_insert_def)
    next
      case (Some a)
      with assms(1) have "hp_nodes h a = None" by (simp add: malloc_ok_def)
      with list_insert_dll [of h l xs malloc a v] Some Insert xs show ?thesis by (fastforce intro: rep)
    qed
  next
    case (Append v)
    show ?thesis
    proof (cases "malloc h")
      case None
      with Append assms(2) show ?thesis by (simp add: list_append_def)
    next
      case (Some a)
      with assms(1) have "hp_nodes h a = None" by (simp add: malloc_ok_def)
      with list_append_dll [of h l xs malloc a v] Some Append xs show ?thesis by (fastforce intro: rep)
    qed
  next
    case Remove
    from list_remove_dll [OF xs(1)] Remove xs(2) show ?thesis
      by (fastforce intro: rep simp: last_map map_butlast)
  next
    case (RemoveSpecified v)
    from list_remove_specified_dll [OF xs(1), of v] RemoveSpecified xs(2) show ?thesis
      by (fastforce intro: rep)
  qed (use xs assms(2) in \<open>force simp: list_search_dll list_is_empty_dll list_display_dll\<close>)+
qed

lemma string_container_list:
  "malloc_ok malloc \<Longrightarrow> string_container (list_call_run malloc Null l) (\<lambda>h. represents h l)"
  by unfold_locales (rule list_call_run_refines)

text \<open>A concrete \<^verbatim>\<open>malloc\<close>: the first unused address of an arena of \<open>n\<close> blocks.\<close>

definition arena_malloc :: "nat \<Rightarrow> malloc" where
  "arena_malloc n h = find (\<lambda>a. hp_nodes h a = None \<and> hp_lists h a = None) [1..<n]"

lemma arena_malloc_ok: "malloc_ok (arena_malloc n)"
  by (auto simp: malloc_ok_def arena_malloc_def find_Some_iff)

interpretation dlc: string_container "list_call_run (arena_malloc n) Null l" "\<lambda>h. represents h l" for n l
  by (rule string_container_list [OF arena_malloc_ok])

definition empty_heap :: heap where
  "empty_heap = \<lparr>hp_nodes = (\<lambda>_. None), hp_lists = (\<lambda>_. None)\<rparr>"

lemma list_destory_dll: "dll h l xs \<Longrightarrow> list_destory l h = None \<longleftrightarrow> xs \<noteq> []"
  by (elim dllE, cases xs)
    (simp_all add: list_destory_def list_destory_loop.simps [of Null] list_destory_loop.simps [of "At _"])

section \<open>Properties\<close>



text \<open>
  Without that luck nothing works: \<^verbatim>\<open>list_create\<close> writes neither field of the block \<^verbatim>\<open>malloc\<close> returns, so
  on memory with indeterminate contents every call on a new list is undefined.
\<close>

theorem list_create_uninitialised:
  assumes "list_create malloc Indet h = (l, h0)" and "l \<noteq> Null" and "malloc h0 \<noteq> None"
  shows "list_call_run malloc Indet l call h0 = None"
proof -
  from assms(1,2) obtain c where
    c: "l = At c" "hp_lists h0 c = Some \<lparr>l_head = Indet, l_tail = Indet\<rparr>"
    by (auto simp: list_create_def split: option.splits)
  from assms(3) c show ?thesis
    by (cases call) (auto simp: list_insert_def list_append_def new_node_def list_remove_def
        list_remove_specified_def list_search_def list_is_empty_def list_display_def
        list_remove_loop.simps [of _ _ Indet] list_search_loop.simps [of _ Indet]
        list_display_loop.simps [of Indet])
qed

theorem list_create_uninitialised_witness:
  "list_call_run (arena_malloc 9) Indet (At 1) (Insert ''a'') (snd (list_create (arena_malloc 9) Indet empty_heap)) = None"
proof -
  let ?h0 = "snd (list_create (arena_malloc 9) Indet empty_heap)"
  have "arena_malloc 9 empty_heap = Some 1"
    by (simp add: arena_malloc_def empty_heap_def upt_conv_Cons)
  then have "list_create (arena_malloc 9) Indet empty_heap = (At 1, ?h0)" "arena_malloc 9 ?h0 \<noteq> None"
    by (simp_all add: list_create_def arena_malloc_def empty_heap_def upt_conv_Cons)
  then show ?thesis by (intro list_create_uninitialised) simp_all
qed

text \<open>
  \<^verbatim>\<open>list_destory\<close> works on the empty list only: on every other list it reads the \<^verbatim>\<open>next\<close> field of a node
  it has just freed.
\<close>

theorem list_destory_use_after_free:
  assumes "represents h l vs"
  shows "list_destory l h = None \<longleftrightarrow> vs \<noteq> []"
proof -
  from assms obtain xs where "dll h l xs" "map snd xs = vs" by (auto simp: represents_def)
  with list_destory_dll [OF this(1)] show ?thesis by auto
qed

theorem list_destory_use_after_free_witness:
  "list_destory (At 1) \<lparr>hp_nodes = [2 \<mapsto> \<lparr>n_val = ''b'', n_next = Null, n_last = Null\<rparr>],
     hp_lists = [1 \<mapsto> \<lparr>l_head = At 2, l_tail = At 2\<rparr>]\<rparr> = None"
proof -
  let ?h = "\<lparr>hp_nodes = [2 \<mapsto> \<lparr>n_val = ''b'', n_next = Null, n_last = Null\<rparr>],
     hp_lists = [1 \<mapsto> \<lparr>l_head = At 2, l_tail = At 2\<rparr>]\<rparr>"
  have "dll ?h (At 1) [(2, ''b'')]" by (simp add: dll_def)
  then have "represents ?h (At 1) [''b'']" by (force simp: represents_def)
  from list_destory_use_after_free [OF this] show ?thesis by simp
qed

end
