(* ===== verification/Func_Lib.thy ===== *)
theory Func_Lib
  imports Heap_List
begin

text \<open>
  The small library of \<^verbatim>\<open>func/\<close>: the bounded stack of \<^verbatim>\<open>stack.c\<close>, the singly linked list of integers of
  \<^verbatim>\<open>list.c\<close>, the string concatenation of \<^verbatim>\<open>memary.c\<close> and the line reader of \<^verbatim>\<open>string.c\<close>. Undefined behaviour
  is \<open>UB\<close> or, for the pointer code, \<open>None\<close>.
\<close>

section \<open>func/stack.c\<close>

abbreviation STACK_SIZE :: nat where
  "STACK_SIZE \<equiv> 100"

record stack_type =
  contents :: "int list"
  top :: int

text \<open>\<open>junk\<close> is what \<^verbatim>\<open>malloc\<close> leaves in the array; \<^verbatim>\<open>create\<close> ends the process when there is no memory.\<close>

definition create :: "int list option \<Rightarrow> stack_type run" where
  "create junk = (case junk of None \<Rightarrow> Exit 1 | Some c \<Rightarrow> Ret \<lparr>contents = c, top = 0\<rparr>)"

definition make_empty :: "stack_type \<Rightarrow> stack_type" where
  "make_empty s = s\<lparr>top := 0\<rparr>"

definition is_empty :: "stack_type \<Rightarrow> bool" where
  "is_empty s \<longleftrightarrow> top s = 0"

definition is_full :: "stack_type \<Rightarrow> bool" where
  "is_full s \<longleftrightarrow> top s = int STACK_SIZE"

definition push :: "stack_type \<Rightarrow> int \<Rightarrow> stack_type run c_value" where
  "push s i =
     (if is_full s then Val (Exit 1)
      else if 0 \<le> top s \<and> nat (top s) < length (contents s)
      then Val (Ret (s\<lparr>contents := (contents s)[nat (top s) := i], top := top s + 1\<rparr>))
      else UB)"

definition pop :: "stack_type \<Rightarrow> (int \<times> stack_type) c_value" where
  "pop s =
     (if is_empty s then Val (0, s)
      else let t = top s - 1 in
        if 0 \<le> t \<and> nat t < length (contents s) then Val (contents s ! nat t, s\<lparr>top := t\<rparr>) else UB)"

text \<open>The stack as a list, top first, and the invariant of the array.\<close>

definition stack_abs :: "stack_type \<Rightarrow> int list" where
  "stack_abs s = rev (take (nat (top s)) (contents s))"

definition stack_ok :: "stack_type \<Rightarrow> bool" where
  "stack_ok s \<longleftrightarrow> length (contents s) = STACK_SIZE \<and> 0 \<le> top s \<and> top s \<le> int STACK_SIZE"

text \<open>
  What a bounded stack promises, and a session of pushes and pops on it: the process ends when a push
  finds the stack full, and a pop of the empty stack answers zero.
\<close>

datatype stack_call = Push int | Pop

fun stack_session ::
    "('s \<Rightarrow> int \<Rightarrow> 's run c_value) \<Rightarrow> ('s \<Rightarrow> (int \<times> 's) c_value) \<Rightarrow> stack_call list \<Rightarrow> 's
      \<Rightarrow> int list run c_value" where
  "stack_session psh pp [] s = Val (Ret [])"
| "stack_session psh pp (Push i # cs) s =
     (case psh s i of
        UB \<Rightarrow> UB
      | Val (Exit c) \<Rightarrow> Val (Exit c)
      | Val (Ret s') \<Rightarrow> stack_session psh pp cs s')"
| "stack_session psh pp (Pop # cs) s =
     (case pp s of
        UB \<Rightarrow> UB
      | Val (x, s') \<Rightarrow>
          (case stack_session psh pp cs s' of
             Val (Ret xs) \<Rightarrow> Val (Ret (x # xs))
           | r \<Rightarrow> r))"

fun stack_spec :: "nat \<Rightarrow> stack_call list \<Rightarrow> int list \<Rightarrow> int list run" where
  "stack_spec n [] xs = Ret []"
| "stack_spec n (Push i # cs) xs = (if length xs = n then Exit 1 else stack_spec n cs (i # xs))"
| "stack_spec n (Pop # cs) xs =
     (case stack_spec n cs (tl xs) of
        Ret ys \<Rightarrow> Ret ((if xs = [] then 0 else hd xs) # ys)
      | Exit c \<Rightarrow> Exit c)"

locale bounded_stack =
  fixes psh :: "'s \<Rightarrow> int \<Rightarrow> 's run c_value"
    and pp :: "'s \<Rightarrow> (int \<times> 's) c_value"
    and abs :: "'s \<Rightarrow> int list" and ok :: "'s \<Rightarrow> bool" and bound :: nat
  assumes push_full: "ok s \<Longrightarrow> length (abs s) = bound \<Longrightarrow> psh s i = Val (Exit 1)"
    and push_room: "ok s \<Longrightarrow> length (abs s) \<noteq> bound \<Longrightarrow>
      \<exists>s'. psh s i = Val (Ret s') \<and> ok s' \<and> abs s' = i # abs s"
    and pop_law: "ok s \<Longrightarrow>
      \<exists>s'. pp s = Val (if abs s = [] then 0 else hd (abs s), s') \<and> ok s' \<and> abs s' = tl (abs s)"
begin

lemma stack_session_spec: "ok s \<Longrightarrow> stack_session psh pp cs s = Val (stack_spec bound cs (abs s))"
proof (induction cs arbitrary: s)
  case (Cons c cs)
  show ?case
  proof (cases c)
    case (Push i)
    show ?thesis
    proof (cases "length (abs s) = bound")
      case True
      with Push push_full [OF Cons.prems] show ?thesis by simp
    next
      case False
      with push_room [OF Cons.prems, of i] Push Cons.IH show ?thesis by auto
    qed
  next
    case Pop
    from pop_law [OF Cons.prems] obtain s' where
      "pp s = Val (if abs s = [] then 0 else hd (abs s), s')" "ok s'" "abs s' = tl (abs s)" by blast
    with Pop Cons.IH [of s'] show ?thesis by (simp split: run.split)
  qed
qed simp

end

lemma take_update_last: "i < length xs \<Longrightarrow> take (Suc i) (xs[i := x]) = take i xs @ [x]"
  by (simp add: take_Suc_conv_app_nth)

lemma length_stack_abs: "stack_ok s \<Longrightarrow> length (stack_abs s) = nat (top s)"
  by (auto simp: stack_ok_def stack_abs_def)

interpretation stk: bounded_stack push pop stack_abs stack_ok STACK_SIZE
proof
  fix s i assume ok: "stack_ok s"
  note len = length_stack_abs [OF ok]
  show "length (stack_abs s) = STACK_SIZE \<Longrightarrow> push s i = Val (Exit 1)"
    using ok len by (auto simp: push_def is_full_def stack_ok_def)
  show "\<exists>s'. push s i = Val (Ret s') \<and> stack_ok s' \<and> stack_abs s' = i # stack_abs s"
    if "length (stack_abs s) \<noteq> STACK_SIZE"
    using ok len that
    by (auto simp: push_def is_full_def stack_ok_def stack_abs_def take_update_last nat_add_distrib)
  show "\<exists>s'. pop s = Val (if stack_abs s = [] then 0 else hd (stack_abs s), s') \<and> stack_ok s' \<and>
      stack_abs s' = tl (stack_abs s)"
  proof (cases "top s = 0")
    case True
    with ok show ?thesis by (auto simp: pop_def is_empty_def stack_abs_def)
  next
    case False
    define t where "t = nat (top s - 1)"
    from False ok have t: "top s = int t + 1" "nat (top s) = Suc t" "Suc t \<le> length (contents s)"
      by (auto simp: t_def stack_ok_def)
    then have "stack_abs s = contents s ! t # rev (take t (contents s))"
      by (simp add: stack_abs_def take_Suc_conv_app_nth)
    with ok t show ?thesis
      by (auto simp: pop_def is_empty_def stack_abs_def stack_ok_def)
  qed
qed

section \<open>func/list.c\<close>

text \<open>The heap is a map from addresses to nodes; pointers are those of \<^verbatim>\<open>container/list.c\<close>.\<close>

record Node =
  node_value :: int
  next_node :: ptr

type_synonym node_heap = "nat \<Rightarrow> Node option"

fun deref :: "node_heap \<Rightarrow> ptr \<Rightarrow> Node option" where
  "deref m (At a) = m a"
| "deref m p = None"

definition add_node :: "nat option \<Rightarrow> ptr \<Rightarrow> int \<Rightarrow> node_heap \<Rightarrow> (ptr \<times> node_heap) run" where
  "add_node block list n m =
     (case block of
        None \<Rightarrow> Exit (-1)
      | Some a \<Rightarrow> Ret (At a, m(a \<mapsto> \<lparr>node_value = n, next_node = list\<rparr>)))"

text \<open>The loop condition of \<^verbatim>\<open>search_list\<close> reads \<^verbatim>\<open>p->next\<close>, not \<^verbatim>\<open>p\<close>.\<close>

partial_function (option) search_list :: "ptr \<Rightarrow> int \<Rightarrow> node_heap \<Rightarrow> ptr option" where
  "search_list p n m =
     do {
       x \<leftarrow> deref m p;
       fin \<leftarrow> is_null (next_node x);
       if fin then Some Null
       else if node_value x = n then Some p
       else search_list (next_node x) n m
     }"

text \<open>
  \<^verbatim>\<open>remove_node\<close> gets the head pointer by node_value: its assignment to \<^verbatim>\<open>list\<close> is lost on return. The two
  branches on \<^verbatim>\<open>cur->next == NULL\<close> store the same node_value.
\<close>

fun set_next :: "node_heap \<Rightarrow> ptr \<Rightarrow> ptr \<Rightarrow> node_heap option" where
  "set_next m (At a) q = map_option (\<lambda>x. m(a \<mapsto> x\<lparr>next_node := q\<rparr>)) (m a)"
| "set_next m p q = None"

partial_function (option) remove_node_loop :: "ptr \<Rightarrow> ptr \<Rightarrow> int \<Rightarrow> node_heap \<Rightarrow> (int \<times> node_heap) option" where
  "remove_node_loop prev cur n m =
     do {
       fin \<leftarrow> is_null cur;
       if fin then Some (0, m)
       else do {
         x \<leftarrow> deref m cur;
         if node_value x = n then do {
           no_prev \<leftarrow> is_null prev;
           m' \<leftarrow> (if no_prev then Some m
                 else do {
                   no_next \<leftarrow> is_null (next_node x);
                   if no_next then set_next m prev Null else set_next m prev (next_node x)
                 });
           Some (1, case cur of At a \<Rightarrow> m'(a := None) | _ \<Rightarrow> m')
         }
         else remove_node_loop cur (next_node x) n m
       }
     }"

definition remove_node :: "ptr \<Rightarrow> int \<Rightarrow> node_heap \<Rightarrow> (int \<times> node_heap) option" where
  "remove_node list n m = remove_node_loop Null list n m"

partial_function (option) display_loop :: "ptr \<Rightarrow> node_heap \<Rightarrow> int list option" where
  "display_loop list m =
     do {
       fin \<leftarrow> is_null list;
       if fin then Some []
       else do {
         x \<leftarrow> deref m list;
         rest \<leftarrow> display_loop (next_node x) m;
         Some (node_value x # rest)
       }
     }"

text \<open>A chain of nodes, as addresses and values.\<close>

fun first_node :: "(nat \<times> int) list \<Rightarrow> ptr \<Rightarrow> ptr" where
  "first_node [] q = q"
| "first_node (x # xs) q = At (fst x)"

fun chain :: "node_heap \<Rightarrow> (nat \<times> int) list \<Rightarrow> ptr \<Rightarrow> bool" where
  "chain m [] q = True"
| "chain m (x # xs) q \<longleftrightarrow>
     m (fst x) = Some \<lparr>node_value = snd x, next_node = first_node xs q\<rparr> \<and> chain m xs q"

lemma first_node_append [simp]: "first_node (xs @ ys) q = first_node xs (first_node ys q)"
  by (cases xs) auto

lemma chain_append [simp]: "chain m (xs @ ys) q \<longleftrightarrow> chain m xs (first_node ys q) \<and> chain m ys q"
  by (induction xs) auto

lemma chain_upd [simp]: "a \<notin> fst ` set xs \<Longrightarrow> chain (m(a := n)) xs q = chain m xs q"
  by (induction xs) auto

lemma chain_fresh: "chain m xs q \<Longrightarrow> m a = None \<Longrightarrow> a \<notin> fst ` set xs"
  by (induction xs) auto

lemma is_null_first_node [simp]: "is_null (first_node xs Null) = Some (xs = [])"
  by (cases xs) auto

lemma display_loop_chain: "chain m xs Null \<Longrightarrow> display_loop (first_node xs Null) m = Some (map snd xs)"
  by (induction xs) (subst display_loop.simps; auto)+

lemma remove_node_loop_chain:
  assumes "chain m (xs @ y # ys) Null" and "distinct (map fst (xs @ y # ys))"
  shows "\<exists>m'. remove_node_loop (At (fst y)) (first_node ys Null) n m =
      Some (if n \<in> snd ` set ys then 1 else 0, m') \<and>
    (\<exists>zs. chain m' (xs @ y # zs) Null \<and> map snd zs = remove1 n (map snd ys))"
  using assms
proof (induction ys arbitrary: xs y)
  case Nil
  then show ?case by (subst remove_node_loop.simps) (auto intro!: exI [of _ "[]"])
next
  case (Cons z zs)
  show ?case
  proof (cases "snd z = n")
    case True
    let ?m = "m(fst y \<mapsto> \<lparr>node_value = snd y, next_node = first_node zs Null\<rparr>, fst z := None)"
    from Cons.prems True have "remove_node_loop (At (fst y)) (At (fst z)) n m = Some (1, ?m)"
      by (subst remove_node_loop.simps) (cases zs, auto)
    moreover from Cons.prems have "chain ?m (xs @ y # zs) Null" by auto
    ultimately show ?thesis using True by auto
  next
    case False
    from Cons.IH [of "xs @ [y]" z] Cons.prems obtain m' ws where
      IH: "remove_node_loop (At (fst z)) (first_node zs Null) n m =
        Some (if n \<in> snd ` set zs then 1 else 0, m')" "chain m' ((xs @ [y]) @ z # ws) Null"
        "map snd ws = remove1 n (map snd zs)"
      by auto
    from False Cons.prems have "remove_node_loop (At (fst y)) (At (fst z)) n m =
        remove_node_loop (At (fst z)) (first_node zs Null) n m"
      by (subst remove_node_loop.simps) simp
    with False IH show ?thesis by (auto intro!: exI [of _ m'] exI [of _ "z # ws"])
  qed
qed

lemma search_list_chain:
  assumes "chain m (xs @ [x]) Null"
  shows "search_list (first_node (xs @ [x]) Null) n m =
    Some (case find (\<lambda>y. snd y = n) xs of None \<Rightarrow> Null | Some y \<Rightarrow> At (fst y))"
  using assms
proof (induction xs)
  case Nil
  then show ?case by (subst search_list.simps) simp
next
  case (Cons y ys)
  then show ?case by (subst search_list.simps) (cases ys, auto)
qed

section \<open>func/memary.c and func/string.c\<close>

text \<open>
  Strings are memory up to a zero byte. A block of memory is a list of bytes, \<open>None\<close> where nothing has
  been written; a store outside of it is undefined.
\<close>

definition store :: "char option list \<Rightarrow> nat \<Rightarrow> char \<Rightarrow> char option list c_value" where
  "store buf i c = (if i < length buf then Val (buf[i := Some c]) else UB)"

fun copy_string :: "char list \<Rightarrow> char option list \<Rightarrow> nat \<Rightarrow> (char option list \<times> nat) c_value" where
  "copy_string [] buf pr = Val (buf, pr)"
| "copy_string (c # cs) buf pr =
     (case store buf pr c of UB \<Rightarrow> UB | Val buf' \<Rightarrow> copy_string cs buf' (Suc pr))"

definition concat_str :: "char list \<Rightarrow> char list \<Rightarrow> char option list c_value" where
  "concat_str s1 s2 =
     (let result = replicate (length s1 + length s2 + 1) None in
      case copy_string s1 result 0 of
        UB \<Rightarrow> UB
      | Val (buf, pr) \<Rightarrow>
          (case copy_string s2 buf pr of
             UB \<Rightarrow> UB
           | Val (buf', pr') \<Rightarrow> store buf' pr' NUL))"

lemma copy_string_fills:
  "copy_string cs (pre @ replicate (length cs + k) None) (length pre) =
     Val (pre @ map Some cs @ replicate k None, length pre + length cs)"
proof (induction cs arbitrary: pre)
  case (Cons c cs)
  have "(pre @ replicate (length (c # cs) + k) None)[length pre := Some c] =
      (pre @ [Some c]) @ replicate (length cs + k) None"
    by (simp add: list_update_append)
  with Cons.IH [of "pre @ [Some c]"] show ?case by (simp add: store_def)
qed simp

text \<open>
  \<^verbatim>\<open>read_line\<close>: \<open>inp\<close> is what is left of standard input. At its end \<^verbatim>\<open>getchar\<close> answers \<^verbatim>\<open>EOF\<close> (-1), which
  is not a newline and is stored as the byte 255.
\<close>

fun getchar :: "char list \<Rightarrow> int \<times> char list" where
  "getchar [] = (-1, [])"
| "getchar (c # cs) = (of_char c, cs)"

function read_line_loop :: "char list \<Rightarrow> nat \<Rightarrow> char list \<Rightarrow> nat \<times> char list \<times> char list" where
  "read_line_loop str n inp =
     (case getchar inp of (ch, inp') \<Rightarrow>
        if ch \<noteq> 10 then
          (if length str \<ge> n then (length str, str @ [NUL], inp')
           else read_line_loop (str @ [char_of (nat (ch mod 256))]) n inp')
        else (length str, str @ [NUL], inp'))"
  by pat_completeness auto
termination by (relation "measure (\<lambda>(str, n, inp). n - length str)") auto

declare read_line_loop.simps [simp del]

definition read_line :: "nat \<Rightarrow> char list \<Rightarrow> nat \<times> char list \<times> char list" where
  "read_line n inp = read_line_loop [] n inp"

lemma of_char_newline: "(of_char c :: int) = 10 \<longleftrightarrow> c = newline"
proof -
  have "(of_char c :: int) = of_char newline \<longleftrightarrow> c = newline" by (simp only: of_char_eq_iff)
  then show ?thesis by simp
qed

lemma read_line_loop_line:
  "newline \<notin> set l \<Longrightarrow> length str \<le> n \<Longrightarrow> read_line_loop str n (l @ newline # rest) =
     (if length str + length l \<le> n then (length str + length l, str @ l @ [NUL], rest)
      else (n, str @ take (n - length str) l @ [NUL], drop (Suc (n - length str)) l @ newline # rest))"
proof (induction l arbitrary: str)
  case Nil
  then show ?case by (subst read_line_loop.simps) simp
next
  case (Cons c l)
  then have "c \<noteq> newline" by auto
  show ?case
  proof (cases "length str < n")
    case True
    with Cons \<open>c \<noteq> newline\<close> show ?thesis
      by (subst read_line_loop.simps) (auto simp: of_char_newline take_Cons' Suc_diff_Suc)
  next
    case False
    with Cons.prems \<open>c \<noteq> newline\<close> show ?thesis
      by (subst read_line_loop.simps) (simp add: of_char_newline)
  qed
qed

section \<open>Properties\<close>

text \<open>
  C35. \<^verbatim>\<open>func/stack.c\<close> is a stack of at most 100 integers: from \<^verbatim>\<open>create\<close> on, whatever the block \<^verbatim>\<open>malloc\<close>
  returned held, every sequence of pushes and pops stays inside the array and answers what a list used
  as a stack answers. A push on the full stack ends the process, a pop of the empty one answers 0.
\<close>

theorem stack_session_lifo:
  assumes "length junk = STACK_SIZE"
  shows "\<exists>s. create (Some junk) = Ret s \<and>
    stack_session push pop calls s = Val (stack_spec STACK_SIZE calls [])"
proof -
  let ?s = "\<lparr>contents = junk, top = 0\<rparr>"
  have "stack_ok ?s" "stack_abs ?s = []" using assms by (simp_all add: stack_ok_def stack_abs_def)
  with stk.stack_session_spec [of ?s calls] show ?thesis by (simp add: create_def)
qed

theorem stack_session_lifo_witness:
  "\<exists>s. create (Some (replicate 100 7)) = Ret s \<and>
     stack_session push pop [Push 1, Push 2, Pop, Pop, Pop] s = Val (Ret [2, 1, 0])"
proof -
  have "length (replicate 100 (7 :: int)) = STACK_SIZE" by simp
  from stack_session_lifo [OF this, of "[Push 1, Push 2, Pop, Pop, Pop]"] show ?thesis by simp
qed

text \<open>
  \<^verbatim>\<open>remove_node\<close> of func/list.c on a list \<open>x # xs\<close>: asked for a value other than the first one, it
  removes the first node with that value, answers whether there was one, and the list the caller holds is
  the old one without it. Asked for the value of the first node, it frees that node and the caller, whose
  pointer it cannot change, is left with a dangling pointer: the next use of the list is undefined.
\<close>

theorem remove_node_removes:
  assumes "chain m (x # xs) Null" and "distinct (map fst (x # xs))"
  shows "\<exists>r m'. remove_node (At (fst x)) n m = Some (r, m') \<and>
    (if snd x = n then r = 1 \<and> display_loop (At (fst x)) m' = None
     else r = (if n \<in> snd ` set xs then 1 else 0) \<and>
       display_loop (At (fst x)) m' = Some (remove1 n (map snd (x # xs))))"
proof (cases "snd x = n")
  case True
  with assms have "remove_node (At (fst x)) n m = Some (1, m(fst x := None))"
    by (simp add: remove_node_def remove_node_loop.simps [of Null])
  moreover have "display_loop (At (fst x)) (m(fst x := None)) = None"
    by (subst display_loop.simps) simp
  ultimately show ?thesis using True by auto
next
  case False
  with assms(1) have "remove_node (At (fst x)) n m =
      remove_node_loop (At (fst x)) (first_node xs Null) n m"
    by (simp add: remove_node_def remove_node_loop.simps [of Null])
  moreover from remove_node_loop_chain [of m "[]" x xs n] assms obtain m' zs where
    "remove_node_loop (At (fst x)) (first_node xs Null) n m = Some (if n \<in> snd ` set xs then 1 else 0, m')"
    "chain m' (x # zs) Null" "map snd zs = remove1 n (map snd xs)" by auto
  moreover from display_loop_chain [OF this(2)] have "display_loop (At (fst x)) m' = Some (map snd (x # zs))"
    by simp
  ultimately show ?thesis using False by auto
qed

theorem remove_node_removes_witness:
  "\<exists>r m'. remove_node (At 1) 8 [1 \<mapsto> \<lparr>node_value = 7, next_node = At 2\<rparr>,
       2 \<mapsto> \<lparr>node_value = 8, next_node = Null\<rparr>] = Some (r, m') \<and> r = 1 \<and> display_loop (At 1) m' = Some [7]"
proof -
  let ?m = "[1 \<mapsto> \<lparr>node_value = 7, next_node = At 2\<rparr>, 2 \<mapsto> \<lparr>node_value = 8, next_node = Null\<rparr>]"
  have "chain ?m ((1, 7) # [(2, 8)]) Null" "distinct (map fst ((1 :: nat, 7 :: int) # [(2, 8)]))"
    by simp_all
  from remove_node_removes [OF this, of 8] show ?thesis by simp
qed

text \<open>
  \<^verbatim>\<open>search_list\<close> of func/list.c never finds the last node: on a list \<open>xs @ [x]\<close> it answers the first
  node of \<open>xs\<close> with the value, and \<^verbatim>\<open>NULL\<close> when \<open>xs\<close> has none, even if \<open>x\<close> has it. On the empty list it
  dereferences \<^verbatim>\<open>NULL\<close>.
\<close>

theorem search_list_misses_last:
  assumes "chain m (xs @ [x]) Null"
  shows "search_list (first_node (xs @ [x]) Null) n m =
      Some (case find (\<lambda>y. snd y = n) xs of None \<Rightarrow> Null | Some y \<Rightarrow> At (fst y)) \<and>
    search_list Null n m = None"
  using search_list_chain [OF assms] by (simp add: search_list.simps [of Null])

theorem search_list_misses_last_witness:
  "search_list (At 1) 7 [1 \<mapsto> \<lparr>node_value = 7, next_node = Null\<rparr>] = Some Null"
proof -
  have "chain [1 \<mapsto> \<lparr>node_value = 7, next_node = Null\<rparr>] ([] @ [(1, 7)]) Null" by simp
  from search_list_misses_last [OF this, of 7] show ?thesis by simp
qed

text \<open>
  \<^verbatim>\<open>concat\<close> of func/memary.c: the block it allocates is exactly large enough, every store is inside of
  it, every byte of it is written, and it holds the first string, the second string and the final zero.
\<close>

theorem concat_str_correct: "concat_str s1 s2 = Val (map Some (s1 @ s2 @ [NUL]))"
proof -
  have "copy_string s1 (replicate (length s1 + length s2 + 1) None) 0 =
      Val (map Some s1 @ replicate (length s2 + 1) None, length s1)"
    using copy_string_fills [of s1 "[]" "length s2 + 1"] by (simp add: add.assoc)
  then show ?thesis
    using copy_string_fills [of s2 "map Some s1" 1]
    by (simp add: concat_str_def Let_def store_def list_update_append)
qed

text \<open>
  \<^verbatim>\<open>read_line\<close> of func/string.c on a complete line \<open>l\<close>: a line of at most \<open>n\<close> bytes is stored whole and
  the next call goes on after its newline. Of a longer line the first \<open>n\<close> bytes are stored, with a zero
  after them (so the array needs \<open>n + 1\<close> bytes), the next byte is lost, and the next call goes on in the
  middle of the line.
\<close>

theorem read_line_line:
  assumes "newline \<notin> set l"
  shows "read_line n (l @ newline # rest) =
    (if length l \<le> n then (length l, l @ [NUL], rest)
     else (n, take n l @ [NUL], drop (Suc n) l @ newline # rest))"
  using read_line_loop_line [OF assms, of "[]" n rest] by (simp add: read_line_def)

theorem read_line_line_witness:
  "read_line 2 (''abcd'' @ newline # ''x'') = (2, ''ab'' @ [NUL], ''d'' @ newline # ''x'')"
proof -
  have "newline \<notin> set ''abcd''" by simp
  from read_line_line [OF this, of 2 "''x''"] show ?thesis by (simp add: eval_nat_numeral)
qed

end
