(* ===== verification/Rtt.thy ===== *)
theory Rtt
  imports CPrelude Complex_Main
begin

text \<open>
  Reliable datagrams: the round-trip timing of \<^verbatim>\<open>unpv13e/lib/rtt.c\<close> and the request/reply exchange of
  \<^verbatim>\<open>unpv13e/rtt/dg_send_recv.c\<close> on top of it.

  The C code keeps its estimators as \<^verbatim>\<open>float\<close>; here they are rational numbers, so rounding errors are not
  modelled. Timestamps are 32-bit words and wrap around as in C. What the world does to a call of
  \<^verbatim>\<open>dg_send_recv\<close> is a list of events in the order they reach the process: a datagram arrives, the alarm
  goes off, a call fails, each with the time of day right after it.
\<close>

section \<open>lib/rtt.c\<close>

record rtt_info =
  rtt_rtt :: rat
  rtt_srtt :: rat
  rtt_rttvar :: rat
  rtt_rto :: rat
  rtt_nrexmt :: int
  rtt_base :: u32

definition RTT_RXTMIN :: rat where
  "RTT_RXTMIN = 2"

definition RTT_RXTMAX :: rat where
  "RTT_RXTMAX = 60"

definition RTT_MAXNREXMT :: int where
  "RTT_MAXNREXMT = 3"

text \<open>The time of day, as seconds and microseconds.\<close>

type_synonym timeval = "int \<times> int"

definition RTT_RTOCALC :: "rtt_info \<Rightarrow> rat" where
  "RTT_RTOCALC p = rtt_srtt p + 4 * rtt_rttvar p"

definition rtt_minmax :: "rat \<Rightarrow> rat" where
  "rtt_minmax rto = (if rto < RTT_RXTMIN then RTT_RXTMIN else if rto > RTT_RXTMAX then RTT_RXTMAX else rto)"

definition rtt_init :: "timeval \<Rightarrow> rtt_info \<Rightarrow> rtt_info" where
  "rtt_init tv p =
     (let p1 = p\<lparr>rtt_base := word_of_int (fst tv), rtt_rtt := 0, rtt_srtt := 0, rtt_rttvar := 3 / 4\<rparr> in
      p1\<lparr>rtt_rto := rtt_minmax (RTT_RTOCALC p1)\<rparr>)"

definition rtt_ts :: "timeval \<Rightarrow> rtt_info \<Rightarrow> u32" where
  "rtt_ts tv p = word_of_int ((fst tv - uint (rtt_base p)) * 1000 + snd tv div 1000)"

definition rtt_newpack :: "rtt_info \<Rightarrow> rtt_info" where
  "rtt_newpack p = p\<lparr>rtt_nrexmt := 0\<rparr>"

definition rtt_start :: "rtt_info \<Rightarrow> int" where
  "rtt_start p = \<lfloor>rtt_rto p + 1 / 2\<rfloor>"

definition rtt_stop :: "u32 \<Rightarrow> rtt_info \<Rightarrow> rtt_info" where
  "rtt_stop ms p =
     (let p1 = p\<lparr>rtt_rtt := of_nat (unat ms) / 1000\<rparr>;
          delta = rtt_rtt p1 - rtt_srtt p1;
          p2 = p1\<lparr>rtt_srtt := rtt_srtt p1 + delta / 8\<rparr>;
          delta' = (if delta < 0 then - delta else delta);
          p3 = p2\<lparr>rtt_rttvar := rtt_rttvar p2 + (delta' - rtt_rttvar p2) / 4\<rparr>
      in p3\<lparr>rtt_rto := rtt_minmax (RTT_RTOCALC p3)\<rparr>)"

definition rtt_timeout :: "rtt_info \<Rightarrow> int \<times> rtt_info" where
  "rtt_timeout p =
     (let p1 = p\<lparr>rtt_rto := rtt_rto p * 2, rtt_nrexmt := rtt_nrexmt p + 1\<rparr> in
      (if rtt_nrexmt p1 > RTT_MAXNREXMT then -1 else 0, p1))"

section \<open>rtt/dg_send_recv.c\<close>

text \<open>
  \<open>Datagram n s t\<close> is a datagram of \<open>n\<close> bytes whose header, if it is long enough to have one (8 bytes),
  holds the sequence number \<open>s\<close> and the timestamp \<open>t\<close>.
\<close>

datatype net_event = Datagram nat u32 u32 | Alarm | RecvFails

record dg_state =
  rttinfo :: rtt_info
  rttinit :: bool
  sendhdr_seq :: u32

text \<open>
  The outcome of a call: the size of the reply, \<^verbatim>\<open>-1\<close> with \<^verbatim>\<open>ETIMEDOUT\<close>, the end of the process, or the call
  is still waiting when the list of events ends. Each transmission is recorded as its sequence number,
  its timestamp and the seconds the alarm is set to.
\<close>

datatype dg_result = Received int | TimedOut | Died | Waiting

type_synonym sent = "u32 \<times> u32 \<times> int"

definition transmit :: "timeval \<Rightarrow> dg_state \<Rightarrow> sent" where
  "transmit tv st = (sendhdr_seq st, rtt_ts tv (rttinfo st), rtt_start (rttinfo st))"

fun dg_loop :: "(net_event \<times> timeval) list \<Rightarrow> dg_state \<Rightarrow> sent list \<Rightarrow> dg_result \<times> dg_state \<times> sent list" where
  "dg_loop [] st sends = (Waiting, st, sends)"
| "dg_loop ((ev, tv) # evs) st sends =
     (case ev of
        Alarm \<Rightarrow>
          (case rtt_timeout (rttinfo st) of (r, p) \<Rightarrow>
             if r < 0 then (TimedOut, st\<lparr>rttinfo := p, rttinit := False\<rparr>, sends)
             else let st' = st\<lparr>rttinfo := p\<rparr> in dg_loop evs st' (sends @ [transmit tv st']))
      | RecvFails \<Rightarrow> (Died, st, sends)
      | Datagram n s t \<Rightarrow>
          if n < 8 \<or> s \<noteq> sendhdr_seq st then dg_loop evs st sends
          else (Received (int n - 8),
                st\<lparr>rttinfo := rtt_stop (rtt_ts tv (rttinfo st) - t) (rttinfo st)\<rparr>, sends))"

definition dg_send_recv ::
    "timeval \<Rightarrow> (net_event \<times> timeval) list \<Rightarrow> dg_state \<Rightarrow> dg_result \<times> dg_state \<times> sent list" where
  "dg_send_recv tv evs st =
     (let st1 = (if \<not> rttinit st then st\<lparr>rttinfo := rtt_init tv (rttinfo st), rttinit := True\<rparr> else st);
          st2 = st1\<lparr>sendhdr_seq := sendhdr_seq st1 + 1, rttinfo := rtt_newpack (rttinfo st1)\<rparr>
      in dg_loop evs st2 [transmit tv st2])"

section \<open>Correctness\<close>

text \<open>The estimators between two calls, and \<open>k\<close> timeouts into a call.\<close>

definition rtt_ok :: "nat \<Rightarrow> rtt_info \<Rightarrow> bool" where
  "rtt_ok k p \<longleftrightarrow> 0 \<le> rtt_srtt p \<and> 0 \<le> rtt_rttvar p \<and> 2 * 2 ^ k \<le> rtt_rto p \<and> rtt_rto p \<le> 60 * 2 ^ k"

lemma minmax_bounds: "2 \<le> rtt_minmax r \<and> rtt_minmax r \<le> 60"
  by (simp add: rtt_minmax_def RTT_RXTMIN_def RTT_RXTMAX_def)

lemma rtt_ok_init: "rtt_ok 0 (rtt_init tv p)"
  using minmax_bounds by (simp add: rtt_ok_def rtt_init_def Let_def)

lemma rtt_ok_stop:
  assumes "rtt_ok k p"
  shows "rtt_ok 0 (rtt_stop ms p)"
proof -
  have "0 \<le> rtt_srtt p + (of_nat m / 1000 - rtt_srtt p) / 8" for m
  proof -
    have "rtt_srtt p + (of_nat m / 1000 - rtt_srtt p) / 8 = 7 / 8 * rtt_srtt p + of_nat m / 8000" by (simp add: field_simps)
    also have "0 \<le> \<dots>" using assms by (simp add: rtt_ok_def)
    finally show ?thesis .
  qed
  moreover have "0 \<le> v + (d - v) / 4" if "0 \<le> d" "0 \<le> v" for d v :: rat
    using that by (simp add: field_simps)
  ultimately show ?thesis
    using assms minmax_bounds by (auto simp: rtt_ok_def rtt_stop_def Let_def not_less simp del: of_nat_unat)
qed

lemma rtt_ok_timeout: "rtt_ok k p \<Longrightarrow> rtt_ok (Suc k) (snd (rtt_timeout p))"
  by (simp add: rtt_ok_def rtt_timeout_def Let_def)

lemma rtt_ok_newpack [simp]: "rtt_ok k (rtt_newpack p) = rtt_ok k p"
  by (simp add: rtt_ok_def rtt_newpack_def)

lemma rtt_start_bounds:
  assumes "rtt_ok k p"
  shows "2 * 2 ^ k \<le> rtt_start p \<and> rtt_start p \<le> 60 * 2 ^ k"
proof -
  have "of_int (2 * 2 ^ k) \<le> rtt_rto p + 1 / 2" "rtt_rto p + 1 / 2 < of_int (60 * 2 ^ k) + 1"
    using assms by (simp_all add: rtt_ok_def)
  then show ?thesis by (simp add: rtt_start_def le_floor_iff floor_le_iff)
qed

text \<open>\<open>k\<close> timeouts into the call: the datagrams sent so far carry the call's sequence number and growing alarms.\<close>

definition sends_ok :: "u32 \<Rightarrow> sent list \<Rightarrow> bool" where
  "sends_ok s sends \<longleftrightarrow>
     (\<forall>j < length sends. fst (sends ! j) = s \<and> 2 * 2 ^ j \<le> snd (snd (sends ! j)) \<and> snd (snd (sends ! j)) \<le> 60 * 2 ^ j)"

lemma sends_ok_snoc:
  "sends_ok s sends \<Longrightarrow> fst x = s \<Longrightarrow> 2 * 2 ^ length sends \<le> snd (snd x) \<Longrightarrow>
     snd (snd x) \<le> 60 * 2 ^ length sends \<Longrightarrow> sends_ok s (sends @ [x])"
  by (auto simp: sends_ok_def nth_append less_Suc_eq)

definition in_call :: "nat \<Rightarrow> dg_state \<Rightarrow> sent list \<Rightarrow> bool" where
  "in_call k st sends \<longleftrightarrow> k \<le> 3 \<and> rtt_ok k (rttinfo st) \<and> rtt_nrexmt (rttinfo st) = int k \<and>
     length sends = Suc k \<and> sends_ok (sendhdr_seq st) sends"

lemma in_call_alarm:
  assumes "in_call k st sends" and "rtt_timeout (rttinfo st) = (r, p)"
  shows "(r < 0 \<longleftrightarrow> k = 3) \<and> (k < 3 \<longrightarrow> in_call (Suc k) (st\<lparr>rttinfo := p\<rparr>) (sends @ [transmit tv (st\<lparr>rttinfo := p\<rparr>)]))"
proof -
  from assms have p: "rtt_ok (Suc k) p" "rtt_nrexmt p = int k + 1" "r = (if int k + 1 > 3 then -1 else 0)"
    using rtt_ok_timeout [of k "rttinfo st"]
    by (auto simp: in_call_def rtt_timeout_def Let_def RTT_MAXNREXMT_def)
  from rtt_start_bounds [OF p(1)] assms(1)
  have "sends_ok (sendhdr_seq st) (sends @ [transmit tv (st\<lparr>rttinfo := p\<rparr>)])"
    by (intro sends_ok_snoc) (simp_all add: in_call_def transmit_def)
  with p assms(1) show ?thesis by (auto simp: in_call_def)
qed

text \<open>What a call may end in.\<close>

definition dg_post :: "(net_event \<times> timeval) list \<Rightarrow> u32 \<Rightarrow> dg_result \<times> dg_state \<times> sent list \<Rightarrow> bool" where
  "dg_post evs s out = (case out of (r, st', sends) \<Rightarrow>
     sends \<noteq> [] \<and> length sends \<le> 4 \<and> sends_ok s sends \<and> sendhdr_seq st' = s \<and>
     (case r of
        Received m \<Rightarrow> (\<exists>n t tv. (Datagram n s t, tv) \<in> set evs \<and> 8 \<le> n \<and> m = int n - 8) \<and> rtt_ok 0 (rttinfo st')
      | TimedOut \<Rightarrow> length sends = 4 \<and> \<not> rttinit st'
      | Died \<Rightarrow> (\<exists>tv. (RecvFails, tv) \<in> set evs)
      | Waiting \<Rightarrow> length sends = Suc (length (filter (\<lambda>e. fst e = Alarm) evs))))"

lemma dg_loop_post:
  "in_call k st sends \<Longrightarrow> length (filter (\<lambda>e. fst e = Alarm) before) = k \<Longrightarrow>
     dg_post (before @ evs) (sendhdr_seq st) (dg_loop evs st sends)"
proof (induction evs arbitrary: k st sends before)
  case Nil
  then show ?case by (auto simp: dg_post_def in_call_def)
next
  case (Cons e evs)
  obtain ev tv where e: "e = (ev, tv)" by (cases e)
  note IH = Cons.IH [where before = "before @ [e]"]
  show ?case
  proof (cases ev)
    case (Datagram n s t)
    show ?thesis
    proof (cases "n < 8 \<or> s \<noteq> sendhdr_seq st")
      case True
      with Datagram e Cons.prems IH [of k st sends] show ?thesis by auto
    next
      case False
      then have "(Datagram n (sendhdr_seq st) t, tv) \<in> set (before @ e # evs)" "8 \<le> n"
        using e Datagram by auto
      then have "\<exists>n' t tv. (Datagram n' (sendhdr_seq st) t, tv) \<in> set (before @ e # evs) \<and> 8 \<le> n' \<and>
          int n - 8 = int n' - 8" by blast
      with False e Datagram Cons.prems(1) rtt_ok_stop [of k "rttinfo st"] show ?thesis
        by (auto simp: dg_post_def in_call_def simp del: split_paired_Ex)
    qed
  next
    case Alarm
    obtain r p where rp: "rtt_timeout (rttinfo st) = (r, p)" by fastforce
    from in_call_alarm [OF Cons.prems(1) this] Cons.prems Alarm e rp
      IH [of "Suc k" "st\<lparr>rttinfo := p\<rparr>" "sends @ [transmit tv (st\<lparr>rttinfo := p\<rparr>)]"]
    show ?thesis by (auto simp: dg_post_def in_call_def Let_def)
  next
    case RecvFails
    with e Cons.prems show ?thesis by (auto simp: dg_post_def in_call_def simp del: split_paired_Ex)
  qed
qed

text \<open>The first datagram that answers the request, with \<open>a\<close> alarms before it.\<close>

definition answers :: "u32 \<Rightarrow> net_event \<Rightarrow> bool" where
  "answers s ev = (case ev of Datagram n s' t \<Rightarrow> 8 \<le> n \<and> s' = s | _ \<Rightarrow> False)"

lemma dg_loop_delivers:
  assumes "in_call k st sends" and "list_all (\<lambda>e. \<not> answers (sendhdr_seq st) (fst e) \<and> fst e \<noteq> RecvFails) pre"
    and "8 \<le> n"
  shows "fst (dg_loop (pre @ (Datagram n (sendhdr_seq st) t, tv) # post) st sends) =
    (if k + length (filter (\<lambda>e. fst e = Alarm) pre) \<le> 3 then Received (int n - 8) else TimedOut)"
  using assms
proof (induction pre arbitrary: k st sends)
  case Nil
  then show ?case by (auto simp: in_call_def)
next
  case (Cons e pre)
  obtain ev tv' where e: "e = (ev, tv')" by (cases e)
  show ?case
  proof (cases ev)
    case (Datagram n' s' t')
    with e Cons show ?thesis by (auto simp: answers_def)
  next
    case Alarm
    obtain r p where rp: "rtt_timeout (rttinfo st) = (r, p)" by fastforce
    from in_call_alarm [OF Cons.prems(1) this] Cons.prems Alarm e rp
      Cons.IH [of "Suc k" "st\<lparr>rttinfo := p\<rparr>" "sends @ [transmit tv' (st\<lparr>rttinfo := p\<rparr>)]"]
    show ?thesis by (auto simp: in_call_def Let_def)
  next
    case RecvFails
    with e Cons.prems show ?thesis by simp
  qed
qed

lemma in_call_start:
  assumes "rttinit st \<Longrightarrow> rtt_ok 0 (rttinfo st)"
  obtains st2 where "dg_send_recv tv evs st = dg_loop evs st2 [transmit tv st2]"
    "in_call 0 st2 [transmit tv st2]" "sendhdr_seq st2 = sendhdr_seq st + 1"
proof -
  let ?st1 = "if \<not> rttinit st then st\<lparr>rttinfo := rtt_init tv (rttinfo st), rttinit := True\<rparr> else st"
  let ?st2 = "?st1\<lparr>sendhdr_seq := sendhdr_seq ?st1 + 1, rttinfo := rtt_newpack (rttinfo ?st1)\<rparr>"
  have ok: "rtt_ok 0 (rttinfo ?st2)" using assms rtt_ok_init by auto
  with rtt_start_bounds [OF ok] have "in_call 0 ?st2 [transmit tv ?st2]"
    by (auto simp: in_call_def sends_ok_def transmit_def rtt_newpack_def)
  moreover have "dg_send_recv tv evs st = dg_loop evs ?st2 [transmit tv ?st2]"
    by (simp add: dg_send_recv_def Let_def)
  ultimately show thesis by (intro that [of ?st2]) auto
qed

section \<open>Properties\<close>

text \<open>
  C17. A call of \<^verbatim>\<open>dg_send_recv\<close>, whatever arrives and whatever is lost: the request goes out at least once
  and at most four times, always with the call's own sequence number; the \<open>j\<close>-th alarm is set to at least
  \<open>2 * 2 ^ j\<close> and at most \<open>60 * 2 ^ j\<close> seconds; a reply is returned only if a datagram with that sequence
  number and a whole header arrived; the call times out only after the fourth transmission, and then the
  estimators are set up anew next time; after a reply the timeout is again between 2 and 60 seconds.
\<close>

theorem dg_send_recv_safe:
  assumes "rttinit st \<Longrightarrow> rtt_ok 0 (rttinfo st)"
  shows "dg_post evs (sendhdr_seq st + 1) (dg_send_recv tv evs st)"
  using assms
proof (rule in_call_start [where tv = tv and evs = evs])
  fix st2
  assume "dg_send_recv tv evs st = dg_loop evs st2 [transmit tv st2]"
    "in_call 0 st2 [transmit tv st2]" "sendhdr_seq st2 = sendhdr_seq st + 1"
  then show ?thesis using dg_loop_post [of 0 st2 "[transmit tv st2]" "[]" evs] by simp
qed

definition fresh_dg :: dg_state where
  "fresh_dg = \<lparr>rttinfo = \<lparr>rtt_rtt = 0, rtt_srtt = 0, rtt_rttvar = 0, rtt_rto = 0, rtt_nrexmt = 0, rtt_base = 0\<rparr>,
     rttinit = False, sendhdr_seq = 0\<rparr>"

theorem dg_send_recv_safe_witness:
  "dg_post [(Alarm, (13, 0)), (Datagram 20 0 7, (14, 0)), (Datagram 20 1 7, (14, 5000))] 1
     (dg_send_recv (10, 0) [(Alarm, (13, 0)), (Datagram 20 0 7, (14, 0)), (Datagram 20 1 7, (14, 5000))] fresh_dg)"
proof -
  have "rttinit fresh_dg \<Longrightarrow> rtt_ok 0 (rttinfo fresh_dg)" by (simp add: fresh_dg_def)
  from dg_send_recv_safe [OF this, of "[(Alarm, (13, 0)), (Datagram 20 0 7, (14, 0)), (Datagram 20 1 7, (14, 5000))]" "(10, 0)"]
  show ?thesis by (simp add: fresh_dg_def)
qed



text \<open>
  The measured round trip is the elapsed time: a reply that carries back the timestamp of the request
  is measured as the milliseconds between the two clock readings, also when the 32-bit timestamp has
  wrapped around in between.
\<close>

theorem rtt_measures_elapsed:
  assumes "ms = (fst tv1 * 1000 + snd tv1 div 1000) - (fst tv0 * 1000 + snd tv0 div 1000)"
    and "0 \<le> ms" and "ms < 2 ^ 32"
  shows "uint (rtt_ts tv1 p - rtt_ts tv0 p) = ms"
proof -
  have "rtt_ts tv1 p - rtt_ts tv0 p = word_of_int ms"
    by (simp add: rtt_ts_def assms(1) algebra_simps)
  with assms(2,3) show ?thesis by (simp add: uint_word_of_int)
qed

theorem rtt_measures_elapsed_witness:
  "uint (rtt_ts (4294968, 500000) (rttinfo fresh_dg) - rtt_ts (4294967, 0) (rttinfo fresh_dg)) = 1500"
proof -
  have "1500 = (fst (4294968 :: int, 500000 :: int) * 1000 + snd (4294968 :: int, 500000 :: int) div 1000) -
      (fst (4294967 :: int, 0 :: int) * 1000 + snd (4294967 :: int, 0 :: int) div 1000)"
    "(0 :: int) \<le> 1500" "(1500 :: int) < 2 ^ 32" by simp_all
  then show ?thesis by (rule rtt_measures_elapsed)
qed

text \<open>
  \<^verbatim>\<open>RTT_RXTMAX\<close>, documented as the maximal retransmit timeout, does not bound it: \<^verbatim>\<open>rtt_timeout\<close> doubles the
  timeout without the clamping that the other two places apply.
\<close>

theorem rtt_timeout_exceeds_max:
  assumes "RTT_RXTMAX / 2 < rtt_rto p"
  shows "RTT_RXTMAX < rtt_rto (snd (rtt_timeout p))"
  using assms by (simp add: rtt_timeout_def Let_def)

theorem rtt_timeout_exceeds_max_witness:
  "RTT_RXTMAX < rtt_rto (snd (rtt_timeout (rttinfo fresh_dg\<lparr>rtt_rto := 60\<rparr>)))"
proof -
  have "RTT_RXTMAX / 2 < rtt_rto (rttinfo fresh_dg\<lparr>rtt_rto := 60\<rparr>)" by (simp add: RTT_RXTMAX_def)
  then show ?thesis by (rule rtt_timeout_exceeds_max)
qed

end
