(* ===== verification/Sigio.thy ===== *)
theory Sigio
  imports CPrelude
begin

text \<open>
  The signal-driven echo server of \<^verbatim>\<open>unpv13e/sigio/dgecho01.c\<close>: the handler of \<^verbatim>\<open>SIGIO\<close> reads datagrams into a
  ring of eight buffers, the main loop echoes them. The two share \<^verbatim>\<open>iget\<close>, \<^verbatim>\<open>iput\<close> and \<^verbatim>\<open>nqueue\<close>; the main loop
  blocks the signal around its accesses to \<^verbatim>\<open>nqueue\<close> only. The main loop is cut into its steps (\<open>phase\<close> is
  where it stands), and the handler may run between any two steps during which the signal is not blocked,
  or inside \<^verbatim>\<open>sigsuspend\<close>. \<open>received\<close> and \<open>echoed\<close> record the datagrams read and sent so far.
\<close>

abbreviation QSIZE :: nat where
  "QSIZE \<equiv> 8"

abbreviation MAXDG :: nat where
  "MAXDG \<equiv> 4096"

section \<open>State\<close>

record DG =
  dg_data :: "char list"
  dg_sa :: nat

text \<open>
  Where the main loop stands: about to test \<^verbatim>\<open>nqueue\<close> (signal blocked), about to send, about to advance
  \<^verbatim>\<open>iget\<close>, about to block the signal again, about to decrement \<^verbatim>\<open>nqueue\<close> (signal blocked).
\<close>

datatype phase = AtTest | AtSend | AtAdvance | AtBlock | AtDecrement

record dgq =
  dg :: "DG list"
  cntread :: "int list"
  iget :: nat
  iput :: nat
  nqueue :: nat
  phase :: phase
  received :: "DG list"
  echoed :: "DG list"

definition dg_echo_init :: "DG list \<Rightarrow> dgq" where
  "dg_echo_init bufs = \<lparr>dg = bufs, cntread = replicate (QSIZE + 1) 0, iget = 0, iput = 0, nqueue = 0,
     phase = AtTest, received = [], echoed = []\<rparr>"

section \<open>The handler\<close>

text \<open>
  \<open>avail\<close> are the datagrams waiting in the socket; after them \<^verbatim>\<open>recvfrom\<close> answers \<^verbatim>\<open>EWOULDBLOCK\<close>, or the error
  \<open>err\<close>. Datagrams longer than the buffer are cut.
\<close>

fun sig_io_loop :: "errno \<Rightarrow> DG list \<Rightarrow> nat \<Rightarrow> dgq \<Rightarrow> dgq run" where
  "sig_io_loop err [] nread s =
     (if nqueue s \<ge> QSIZE then Exit 1
      else if err = EWOULDBLOCK then Ret (s\<lparr>cntread := (cntread s)[nread := cntread s ! nread + 1]\<rparr>)
      else Exit 1)"
| "sig_io_loop err (d # avail) nread s =
     (if nqueue s \<ge> QSIZE then Exit 1
      else
        let d' = d\<lparr>dg_data := take MAXDG (dg_data d)\<rparr>;
            s1 = s\<lparr>dg := (dg s)[iput s := d'], nqueue := nqueue s + 1, received := received s @ [d']\<rparr>;
            s2 = s1\<lparr>iput := (if iput s1 + 1 \<ge> QSIZE then 0 else iput s1 + 1)\<rparr>
        in sig_io_loop err avail (nread + 1) s2)"

definition sig_io :: "errno \<Rightarrow> DG list \<Rightarrow> dgq \<Rightarrow> dgq run" where
  "sig_io err avail s = sig_io_loop err avail 0 s"

definition sig_hup :: "dgq \<Rightarrow> int list" where
  "sig_hup s = map (\<lambda>i. cntread s ! i) [0..<QSIZE + 1]"

section \<open>The main loop\<close>

definition dg_echo_step :: "dgq \<Rightarrow> dgq" where
  "dg_echo_step s =
     (case phase s of
        AtTest \<Rightarrow> if nqueue s = 0 then s else s\<lparr>phase := AtSend\<rparr>
      | AtSend \<Rightarrow> s\<lparr>echoed := echoed s @ [dg s ! iget s], phase := AtAdvance\<rparr>
      | AtAdvance \<Rightarrow> s\<lparr>iget := (if iget s + 1 \<ge> QSIZE then 0 else iget s + 1), phase := AtBlock\<rparr>
      | AtBlock \<Rightarrow> s\<lparr>phase := AtDecrement\<rparr>
      | AtDecrement \<Rightarrow> s\<lparr>nqueue := nqueue s - 1, phase := AtTest\<rparr>)"

text \<open>The signal is delivered while the loop is suspended or while it runs unblocked.\<close>

definition signal_open :: "dgq \<Rightarrow> bool" where
  "signal_open s \<longleftrightarrow> phase s \<in> {AtSend, AtAdvance, AtBlock} \<or> phase s = AtTest \<and> nqueue s = 0"

inductive dg_step :: "dgq \<Rightarrow> dgq \<Rightarrow> bool" where
  main: "dg_step s (dg_echo_step s)"
| handler: "signal_open s \<Longrightarrow> sig_io err avail s = Ret s' \<Longrightarrow> dg_step s s'"

inductive dg_reach :: "DG list \<Rightarrow> dgq \<Rightarrow> bool" for bufs where
  start: "dg_reach bufs (dg_echo_init bufs)"
| step: "dg_reach bufs s \<Longrightarrow> dg_step s s' \<Longrightarrow> dg_reach bufs s'"

section \<open>Invariant\<close>

text \<open>
  The datagrams read but not yet echoed, as they lie in the ring. Between the \<^verbatim>\<open>Sendto\<close> and the decrement
  \<^verbatim>\<open>nqueue\<close> still counts the one that has just been sent.
\<close>

definition already_sent :: "phase \<Rightarrow> nat" where
  "already_sent p = (case p of AtAdvance \<Rightarrow> 1 | AtBlock \<Rightarrow> 1 | AtDecrement \<Rightarrow> 1 | _ \<Rightarrow> 0)"

definition first_unsent :: "dgq \<Rightarrow> nat" where
  "first_unsent s = (if phase s = AtAdvance then (iget s + 1) mod QSIZE else iget s)"

definition unsent :: "dgq \<Rightarrow> DG list" where
  "unsent s = slots (dg s) (first_unsent s) (nqueue s - already_sent (phase s))"

definition ring_ok :: "dgq \<Rightarrow> bool" where
  "ring_ok s \<longleftrightarrow> length (dg s) = QSIZE \<and> length (cntread s) = QSIZE + 1 \<and> iget s < QSIZE \<and> iput s < QSIZE \<and>
     nqueue s \<le> QSIZE \<and> already_sent (phase s) \<le> nqueue s \<and> (phase s = AtSend \<longrightarrow> 0 < nqueue s) \<and>
     iput s = (first_unsent s + (nqueue s - already_sent (phase s))) mod QSIZE \<and>
     received s = echoed s @ unsent s"

lemma ring_ok_init: "length bufs = QSIZE \<Longrightarrow> ring_ok (dg_echo_init bufs)"
  by (simp add: ring_ok_def dg_echo_init_def already_sent_def first_unsent_def unsent_def)

lemma ring_ok_main:
  assumes "ring_ok s"
  shows "ring_ok (dg_echo_step s)"
proof (cases "phase s")
  case AtTest
  with assms show ?thesis
    by (auto simp: ring_ok_def dg_echo_step_def already_sent_def first_unsent_def unsent_def)
next
  case AtSend
  with assms obtain m where m: "nqueue s = Suc m" by (cases "nqueue s") (auto simp: ring_ok_def)
  with AtSend assms slots_get [of "iget s" "dg s" m] show ?thesis
    by (auto simp: ring_ok_def dg_echo_step_def already_sent_def first_unsent_def unsent_def mod_simps)
next
  case AtAdvance
  with assms have "dg_echo_step s = s\<lparr>iget := first_unsent s, phase := AtBlock\<rparr>"
    using slots_wrap [of "iget s" QSIZE] by (simp add: ring_ok_def dg_echo_step_def first_unsent_def)
  with AtAdvance assms show ?thesis
    by (simp add: ring_ok_def already_sent_def unsent_def) (simp add: first_unsent_def)
next
  case AtBlock
  with assms show ?thesis
    by (auto simp: ring_ok_def dg_echo_step_def already_sent_def first_unsent_def unsent_def)
next
  case AtDecrement
  with assms show ?thesis
    by (auto simp: ring_ok_def dg_echo_step_def already_sent_def first_unsent_def unsent_def)
qed

text \<open>One datagram read by the handler goes to a free slot, behind the unsent ones.\<close>

definition put_dg :: "DG \<Rightarrow> dgq \<Rightarrow> dgq" where
  "put_dg d s = s\<lparr>dg := (dg s)[iput s := d], nqueue := nqueue s + 1, received := received s @ [d],
     iput := (if iput s + 1 \<ge> QSIZE then 0 else iput s + 1)\<rparr>"

lemma ring_ok_put:
  assumes "ring_ok s" and "nqueue s < QSIZE"
  shows "ring_ok (put_dg d s)"
proof -
  let ?f = "first_unsent s" and ?m = "nqueue s - already_sent (phase s)"
  have f: "first_unsent (put_dg d s) = ?f" by (simp add: first_unsent_def put_dg_def)
  have m: "nqueue (put_dg d s) - already_sent (phase (put_dg d s)) = Suc ?m"
    using assms(1) by (simp add: ring_ok_def put_dg_def Suc_diff_le)
  have iput: "iput s = (?f + ?m) mod QSIZE" and len: "length (dg s) = QSIZE" using assms(1) by (auto simp: ring_ok_def)
  have "?m < length (dg s)" using assms(2) len by simp
  from slots_put [OF this, of ?f d] have un: "unsent (put_dg d s) = unsent s @ [d]"
    unfolding unsent_def f m using iput len by (simp add: put_dg_def)
  have "iput (put_dg d s) = (iput s + 1) mod QSIZE"
    using slots_wrap [of "iput s" QSIZE] assms(1) by (simp add: ring_ok_def put_dg_def)
  also have "\<dots> = (?f + Suc ?m) mod QSIZE"
    unfolding iput by (simp add: mod_Suc_eq)
  finally have ip: "iput (put_dg d s) = (?f + Suc ?m) mod QSIZE" .
  have "received s = echoed s @ unsent s" "already_sent (phase s) \<le> nqueue s"
    using assms(1) by (simp_all add: ring_ok_def)
  moreover have "length (cntread s) = QSIZE + 1" "iget s < QSIZE" using assms(1) by (simp_all add: ring_ok_def)
  moreover have "iput (put_dg d s) < QSIZE" unfolding ip by simp
  ultimately show ?thesis
    using assms(2) len unfolding ring_ok_def f m un by (intro conjI ip) (simp_all add: put_dg_def)
qed

lemma sig_io_loop_put:
  "sig_io_loop err (d # avail) nread s =
     (if nqueue s \<ge> QSIZE then Exit 1
      else sig_io_loop err avail (nread + 1) (put_dg (d\<lparr>dg_data := take MAXDG (dg_data d)\<rparr>) s))"
  by (simp add: put_dg_def Let_def)

lemma ring_ok_handler: "ring_ok s \<Longrightarrow> sig_io_loop err avail nread s = Ret s' \<Longrightarrow> ring_ok s'"
proof (induction avail arbitrary: nread s)
  case Nil
  then show ?case
    by (auto simp: ring_ok_def first_unsent_def unsent_def split: if_splits)
next
  case (Cons d avail)
  let ?s = "put_dg (d\<lparr>dg_data := take MAXDG (dg_data d)\<rparr>) s"
  from Cons.prems(2) have "nqueue s < QSIZE" "sig_io_loop err avail (nread + 1) ?s = Ret s'"
    unfolding sig_io_loop_put by (auto split: if_splits)
  from Cons.IH [OF ring_ok_put [OF Cons.prems(1) this(1)] this(2)] show ?case .
qed

lemma dg_reach_ring_ok: "dg_reach bufs s \<Longrightarrow> length bufs = QSIZE \<Longrightarrow> ring_ok s"
proof (induction rule: dg_reach.induct)
  case start
  then show ?case by (rule ring_ok_init)
next
  case (step s s')
  from step.hyps(2) step.IH [OF step.prems] show ?case
    by (cases rule: dg_step.cases) (auto intro: ring_ok_main ring_ok_handler simp: sig_io_def)
qed

lemma sig_io_loop_room:
  "ring_ok s \<Longrightarrow> nread \<le> nqueue s \<Longrightarrow>
   (\<exists>s'. sig_io_loop EWOULDBLOCK avail nread s = Ret s') \<longleftrightarrow> nqueue s + length avail < QSIZE"
proof (induction avail arbitrary: nread s)
  case (Cons d avail)
  show ?case
  proof (cases "nqueue s < QSIZE")
    case True
    with ring_ok_put [OF Cons.prems(1) True] Cons.prems(2) show ?thesis
      unfolding sig_io_loop_put by (subst if_not_P, simp, subst Cons.IH) (auto simp: put_dg_def)
  next
    case False
    then show ?thesis by simp
  qed
qed auto

section \<open>Properties\<close>

text \<open>
  C12. However the handler interrupts the main loop, the server echoes what it received, in order: in every
  reachable state the datagrams echoed are a prefix of the datagrams read, the rest (at most eight) lies in
  the ring unharmed, and both indices stay inside the ring. In particular the handler never overwrites the
  buffer \<^verbatim>\<open>Sendto\<close> is working on, although \<^verbatim>\<open>iget\<close> is advanced while the signal is not blocked.
\<close>

theorem dg_echo_fifo:
  assumes "dg_reach bufs s" and "length bufs = QSIZE"
  shows "\<exists>rest. received s = echoed s @ rest \<and> length rest \<le> nqueue s \<and> nqueue s \<le> QSIZE \<and>
    iget s < QSIZE \<and> iput s < QSIZE"
  using dg_reach_ring_ok [OF assms] by (auto simp: ring_ok_def unsent_def)

theorem dg_echo_fifo_witness:
  "\<exists>rest. received (dg_echo_init (replicate 8 \<lparr>dg_data = [], dg_sa = 0\<rparr>)) =
     echoed (dg_echo_init (replicate 8 \<lparr>dg_data = [], dg_sa = 0\<rparr>)) @ rest"
proof -
  let ?b = "replicate 8 \<lparr>dg_data = [], dg_sa = 0\<rparr>"
  have "dg_reach ?b (dg_echo_init ?b)" "length ?b = QSIZE" by (auto intro: dg_reach.start)
  from dg_echo_fifo [OF this] show ?thesis by blast
qed

text \<open>
  The ring of eight buffers holds seven: the handler tests for overflow before it asks the socket
  whether there is another datagram, so it ends the process whenever the eighth buffer has been filled,
  even if nothing more is waiting.
\<close>

theorem sig_io_capacity:
  assumes "dg_reach bufs s" and "length bufs = QSIZE"
  shows "(\<exists>s'. sig_io EWOULDBLOCK avail s = Ret s') \<longleftrightarrow> nqueue s + length avail < QSIZE"
  using sig_io_loop_room [OF dg_reach_ring_ok [OF assms]] by (simp add: sig_io_def)

theorem sig_io_capacity_witness:
  "(\<exists>s'. sig_io EWOULDBLOCK (replicate 8 \<lparr>dg_data = ''x'', dg_sa = 1\<rparr>)
      (dg_echo_init (replicate 8 \<lparr>dg_data = [], dg_sa = 0\<rparr>)) = Ret s') \<longleftrightarrow> False"
proof -
  let ?b = "replicate 8 \<lparr>dg_data = [], dg_sa = 0\<rparr>"
  have "dg_reach ?b (dg_echo_init ?b)" "length ?b = QSIZE" by (auto intro: dg_reach.start)
  from sig_io_capacity [OF this, of "replicate 8 \<lparr>dg_data = ''x'', dg_sa = 1\<rparr>"] show ?thesis
    by (simp add: dg_echo_init_def)
qed

end
