(* ===== verification/Nonblock.thy ===== *)
theory Nonblock
  imports CPrelude
begin

text \<open>
  The clients on non-blocking descriptors: \<^verbatim>\<open>unpv13e/nonblock/strclinonb.c\<close> and \<^verbatim>\<open>unlock_str_cli\<close> of
  \<^verbatim>\<open>socket/select_client_unlock.c\<close>, which is the same loop with another buffer size, another exit status and
  an unchecked \<^verbatim>\<open>select\<close>. Two buffers carry the data: \<^verbatim>\<open>to\<close> from standard input to the socket, \<^verbatim>\<open>fr\<close> from
  the socket to standard output.

  A buffer is the bytes between its start and the input pointer (\<^verbatim>\<open>toiptr\<close>, \<^verbatim>\<open>friptr\<close>) and the offset of the
  output pointer (\<^verbatim>\<open>tooptr\<close>, \<^verbatim>\<open>froptr\<close>). One iteration of the loop takes the answers of the kernel to its calls
  (\<open>answers\<close>); any answer a non-blocking descriptor may give is allowed. The answer to a \<^verbatim>\<open>read\<close> is what is
  waiting in the descriptor, of which the call returns as much as it has room for; the answer to a \<^verbatim>\<open>write\<close> is
  how much the descriptor would take, of which the call uses as much as it has to offer. The last five fields of the state
  record the bytes that went through each descriptor and whether the socket's sending side was shut down.
\<close>

section \<open>State and answers\<close>

record nb =
  to_buf :: "char list"
  tooptr :: nat
  fr_buf :: "char list"
  froptr :: nat
  stdineof :: bool
  from_stdin :: "char list"
  to_sock :: "char list"
  from_sock :: "char list"
  to_stdout :: "char list"
  fin_sent :: bool

text \<open>
  \<open>sel = None\<close> is a failed \<^verbatim>\<open>select\<close>; otherwise the descriptors found ready: standard input and socket for
  reading, standard output and socket for writing.
\<close>

record answers =
  sel :: "(bool \<times> bool \<times> bool \<times> bool) option"
  a_stdin :: rd
  a_sock :: rd
  a_stdout :: wr
  a_wsock :: wr

datatype nb_result = Continue nb | Finished nb | Quit int nb

definition nb_init :: nb where
  "nb_init = \<lparr>to_buf = [], tooptr = 0, fr_buf = [], froptr = 0, stdineof = False,
     from_stdin = [], to_sock = [], from_sock = [], to_stdout = [], fin_sent = False\<rparr>"

section \<open>One iteration\<close>

text \<open>The parameters are the size of the buffers, the exit status and whether a failed \<^verbatim>\<open>select\<close> ends the process.\<close>

definition want_stdin :: "nat \<Rightarrow> nb \<Rightarrow> bool" where
  "want_stdin maxl s \<longleftrightarrow> \<not> stdineof s \<and> length (to_buf s) < maxl"

definition want_sock :: "nat \<Rightarrow> nb \<Rightarrow> bool" where
  "want_sock maxl s \<longleftrightarrow> length (fr_buf s) < maxl"

definition want_wsock :: "nb \<Rightarrow> bool" where
  "want_wsock s \<longleftrightarrow> tooptr s \<noteq> length (to_buf s)"

definition want_stdout :: "nb \<Rightarrow> bool" where
  "want_stdout s \<longleftrightarrow> froptr s \<noteq> length (fr_buf s)"

text \<open>Reading standard input; the flag tells that the socket is to be written in this iteration.\<close>

definition nb_stdin :: "nat \<Rightarrow> int \<Rightarrow> rd \<Rightarrow> nb \<Rightarrow> (bool \<times> nb) run" where
  "nb_stdin maxl code ans s =
     (case ans of
        RdErr e \<Rightarrow> if e = EWOULDBLOCK then Ret (False, s) else Exit code
      | RdOk bs \<Rightarrow>
          if bs = [] then
            Ret (False, s\<lparr>stdineof := True,
              fin_sent := (if tooptr s = length (to_buf s) then True else fin_sent s)\<rparr>)
          else let got = take (maxl - length (to_buf s)) bs in
            Ret (True, s\<lparr>to_buf := to_buf s @ got, from_stdin := from_stdin s @ got\<rparr>))"

definition nb_sock :: "nat \<Rightarrow> int \<Rightarrow> rd \<Rightarrow> nb \<Rightarrow> (bool \<times> bool \<times> nb) run" where
  "nb_sock maxl code ans s =
     (case ans of
        RdErr e \<Rightarrow> if e = EWOULDBLOCK then Ret (False, False, s) else Exit code
      | RdOk bs \<Rightarrow>
          if bs = [] then (if stdineof s then Ret (True, False, s) else Exit code)
          else let got = take (maxl - length (fr_buf s)) bs in
            Ret (False, True, s\<lparr>fr_buf := fr_buf s @ got, from_sock := from_sock s @ got\<rparr>))"

definition nb_stdout :: "int \<Rightarrow> wr \<Rightarrow> nb \<Rightarrow> nb run" where
  "nb_stdout code ans s =
     (case ans of
        WrErr e \<Rightarrow> if e = EWOULDBLOCK then Ret s else Exit code
      | WrOk k \<Rightarrow>
          let nwritten = min k (length (fr_buf s) - froptr s);
              s1 = s\<lparr>froptr := froptr s + nwritten,
                     to_stdout := to_stdout s @ take nwritten (drop (froptr s) (fr_buf s))\<rparr> in
          Ret (if froptr s1 = length (fr_buf s1) then s1\<lparr>fr_buf := [], froptr := 0\<rparr> else s1))"

definition nb_wsock :: "int \<Rightarrow> wr \<Rightarrow> nb \<Rightarrow> nb run" where
  "nb_wsock code ans s =
     (case ans of
        WrErr e \<Rightarrow> if e = EWOULDBLOCK then Ret s else Exit code
      | WrOk k \<Rightarrow>
          let nwritten = min k (length (to_buf s) - tooptr s);
              s1 = s\<lparr>tooptr := tooptr s + nwritten,
                     to_sock := to_sock s @ take nwritten (drop (tooptr s) (to_buf s))\<rparr> in
          Ret (if tooptr s1 = length (to_buf s1)
               then s1\<lparr>to_buf := [], tooptr := 0, fin_sent := (if stdineof s1 then True else fin_sent s1)\<rparr>
               else s1))"

text \<open>After \<^verbatim>\<open>select\<close>, with the members of the sets it left: \<open>i\<close>, \<open>r\<close> readable, \<open>o1\<close>, \<open>w\<close> writable.\<close>

definition nb_body :: "nat \<Rightarrow> int \<Rightarrow> answers \<Rightarrow> bool \<Rightarrow> bool \<Rightarrow> bool \<Rightarrow> bool \<Rightarrow> nb \<Rightarrow> nb_result" where
  "nb_body maxl code a i r o1 w s =
     (case (if i then nb_stdin maxl code (a_stdin a) s else Ret (False, s)) of
        Exit c \<Rightarrow> Quit c s
      | Ret (w', s1) \<Rightarrow>
          (case (if r then nb_sock maxl code (a_sock a) s1 else Ret (False, False, s1)) of
             Exit c \<Rightarrow> Quit c s1
           | Ret (eof, o', s2) \<Rightarrow>
               if eof then Finished s2
               else case (if (o1 \<or> o') \<and> froptr s2 < length (fr_buf s2) then nb_stdout code (a_stdout a) s2 else Ret s2) of
                 Exit c \<Rightarrow> Quit c s2
               | Ret s3 \<Rightarrow>
                   (case (if (w \<or> w') \<and> tooptr s3 < length (to_buf s3) then nb_wsock code (a_wsock a) s3 else Ret s3) of
                      Exit c \<Rightarrow> Quit c s3
                    | Ret s4 \<Rightarrow> Continue s4)))"

definition nb_iter :: "nat \<Rightarrow> int \<Rightarrow> bool \<Rightarrow> answers \<Rightarrow> nb \<Rightarrow> nb_result" where
  "nb_iter maxl code checked a s =
     (case sel a of
        None \<Rightarrow>
          if checked then Quit code s
          else nb_body maxl code a (want_stdin maxl s) (want_sock maxl s) (want_stdout s) (want_wsock s) s
      | Some (r_in, r_sock, w_out, w_sock) \<Rightarrow>
          nb_body maxl code a (want_stdin maxl s \<and> r_in) (want_sock maxl s \<and> r_sock)
            (want_stdout s \<and> w_out) (want_wsock s \<and> w_sock) s)"

text \<open>The two programs.\<close>

definition str_cli_nonb :: "answers \<Rightarrow> nb \<Rightarrow> nb_result" where
  "str_cli_nonb = nb_iter 4096 1 True"

definition unlock_str_cli :: "answers \<Rightarrow> nb \<Rightarrow> nb_result" where
  "unlock_str_cli = nb_iter 1024 (-1) False"

fun nb_run :: "(answers \<Rightarrow> nb \<Rightarrow> nb_result) \<Rightarrow> answers list \<Rightarrow> nb \<Rightarrow> nb_result" where
  "nb_run iter [] s = Continue s"
| "nb_run iter (a # as) s = (case iter a s of Continue s' \<Rightarrow> nb_run iter as s' | r \<Rightarrow> r)"

section \<open>Invariant\<close>

text \<open>
  A buffer between two descriptors: what has been written out, then what the buffer still holds, is what
  has been read in; and the pointers go back to the start as soon as the buffer is empty.
\<close>

definition buf_ok :: "nat \<Rightarrow> char list \<Rightarrow> nat \<Rightarrow> char list \<Rightarrow> char list \<Rightarrow> bool" where
  "buf_ok maxl buf p written_out read_in \<longleftrightarrow>
     length buf \<le> maxl \<and> (if buf = [] then p = 0 else p < length buf) \<and> written_out @ drop p buf = read_in"

definition nb_ok :: "nat \<Rightarrow> nb \<Rightarrow> bool" where
  "nb_ok maxl s \<longleftrightarrow> buf_ok maxl (to_buf s) (tooptr s) (to_sock s) (from_stdin s) \<and>
     buf_ok maxl (fr_buf s) (froptr s) (to_stdout s) (from_sock s) \<and>
     (fin_sent s \<longleftrightarrow> stdineof s \<and> to_buf s = [])"

lemma buf_ok_read:
  assumes "buf_ok maxl buf p out inp"
  shows "buf_ok maxl (buf @ take (maxl - length buf) bs) p out (inp @ take (maxl - length buf) bs)"
proof -
  have "p \<le> length buf" using assms by (auto simp: buf_ok_def split: if_splits)
  with assms show ?thesis by (cases "buf = []") (auto simp: buf_ok_def)
qed

lemma buf_ok_write:
  assumes "buf_ok maxl buf p out inp" and "p < length buf" and "n = min k (length buf - p)"
  shows "if p + n = length buf then buf_ok maxl [] 0 (out @ take n (drop p buf)) inp
    else buf_ok maxl buf (p + n) (out @ take n (drop p buf)) inp"
proof -
  have "take n (drop p buf) @ drop (p + n) buf = drop p buf"
    by (metis append_take_drop_id drop_drop add.commute)
  with assms show ?thesis by (auto simp: buf_ok_def)
qed

lemma buf_ok_nonempty: "buf_ok maxl buf p out inp \<Longrightarrow> p = length buf \<longleftrightarrow> buf = []"
  by (auto simp: buf_ok_def split: if_splits)

lemma nb_ok_init: "nb_ok maxl nb_init"
  by (simp add: nb_ok_def buf_ok_def nb_init_def)

lemma nb_ok_stdin:
  assumes "nb_ok maxl s" and "want_stdin maxl s" and "nb_stdin maxl code ans s = Ret (w, s')"
  shows "nb_ok maxl s'"
proof (cases ans)
  case (RdOk bs)
  have "\<not> stdineof s" "length (to_buf s) < maxl" using assms(2) by (simp_all add: want_stdin_def)
  with RdOk assms(1,3) buf_ok_read [of maxl "to_buf s" "tooptr s" "to_sock s" "from_stdin s" bs]
    buf_ok_nonempty [of maxl "to_buf s" "tooptr s" "to_sock s" "from_stdin s"]
  show ?thesis by (auto simp: nb_ok_def nb_stdin_def Let_def split: if_splits)
next
  case (RdErr e)
  with assms show ?thesis by (auto simp: nb_stdin_def split: if_splits)
qed

lemma nb_ok_sock:
  assumes "nb_ok maxl s" and "nb_sock maxl code ans s = Ret (eof, w, s')"
  shows "nb_ok maxl s'"
proof (cases ans)
  case (RdOk bs)
  with assms buf_ok_read [of maxl "fr_buf s" "froptr s" "to_stdout s" "from_sock s" bs]
  show ?thesis by (auto simp: nb_ok_def nb_sock_def Let_def split: if_splits)
next
  case (RdErr e)
  with assms show ?thesis by (auto simp: nb_sock_def split: if_splits)
qed

lemma nb_ok_stdout:
  assumes "nb_ok maxl s" and "froptr s < length (fr_buf s)" and "nb_stdout code ans s = Ret s'"
  shows "nb_ok maxl s'"
proof (cases ans)
  case (WrOk k)
  from assms(1) have "buf_ok maxl (fr_buf s) (froptr s) (to_stdout s) (from_sock s)" by (simp add: nb_ok_def)
  from buf_ok_write [OF this assms(2) refl, of k] WrOk assms(1,3) show ?thesis
    by (auto simp: nb_ok_def nb_stdout_def Let_def split: if_splits)
next
  case (WrErr e)
  with assms show ?thesis by (auto simp: nb_stdout_def split: if_splits)
qed

lemma nb_ok_wsock:
  assumes "nb_ok maxl s" and "tooptr s < length (to_buf s)" and "nb_wsock code ans s = Ret s'"
  shows "nb_ok maxl s'"
proof (cases ans)
  case (WrOk k)
  from assms(1) have "buf_ok maxl (to_buf s) (tooptr s) (to_sock s) (from_stdin s)" by (simp add: nb_ok_def)
  from buf_ok_write [OF this assms(2) refl, of k] WrOk assms show ?thesis
    by (auto simp: nb_ok_def nb_wsock_def Let_def split: if_splits)
next
  case (WrErr e)
  with assms show ?thesis by (auto simp: nb_wsock_def split: if_splits)
qed

fun result_state :: "nb_result \<Rightarrow> nb" where
  "result_state (Continue s) = s"
| "result_state (Finished s) = s"
| "result_state (Quit c s) = s"

lemma nb_sock_eof: "nb_sock maxl code ans s = Ret (True, w, s') \<Longrightarrow> stdineof s'"
  by (auto simp: nb_sock_def Let_def split: rd.splits if_splits)

lemma nb_body_ok:
  assumes "nb_ok maxl s" and "i \<longrightarrow> want_stdin maxl s" and "nb_body maxl code a i r o1 w s = res"
  shows "nb_ok maxl (result_state res) \<and> (\<forall>s'. res = Finished s' \<longrightarrow> stdineof s')"
proof (cases "if i then nb_stdin maxl code (a_stdin a) s else Ret (False, s)")
  case (Exit c)
  with assms(1,3) show ?thesis by (auto simp: nb_body_def)
next
  case (Ret x)
  obtain w' s1 where x: "x = (w', s1)" by (cases x)
  with Ret assms(1,2) have s1: "nb_ok maxl s1" by (auto intro: nb_ok_stdin split: if_splits)
  show ?thesis
  proof (cases "if r then nb_sock maxl code (a_sock a) s1 else Ret (False, False, s1)")
    case (Exit c)
    with Ret x s1 assms(3) show ?thesis by (auto simp: nb_body_def)
  next
    case r2: (Ret y)
    obtain eof o' s2 where y: "y = (eof, o', s2)" by (cases y)
    with r2 s1 have s2: "nb_ok maxl s2" "eof \<longrightarrow> stdineof s2"
      by (auto intro: nb_ok_sock nb_sock_eof split: if_splits)
    let ?out = "if (o1 \<or> o') \<and> froptr s2 < length (fr_buf s2) then nb_stdout code (a_stdout a) s2 else Ret s2"
    show ?thesis
    proof (cases "eof \<or> (\<exists>c. ?out = Exit c)")
      case True
      with Ret x r2 y s2 assms(3) show ?thesis by (cases eof) (auto simp: nb_body_def)
    next
      case False
      then obtain s3 where s3: "?out = Ret s3" "\<not> eof" by (cases ?out) auto
      with s2 have "nb_ok maxl s3" by (auto intro: nb_ok_stdout split: if_splits)
      with Ret x r2 y s3 assms(3) show ?thesis
        by (cases "(w \<or> w') \<and> tooptr s3 < length (to_buf s3)")
          (auto simp: nb_body_def intro: nb_ok_wsock split: run.splits)
    qed
  qed
qed

lemma nb_iter_ok:
  assumes "nb_ok maxl s"
  shows "nb_ok maxl (result_state (nb_iter maxl code checked a s)) \<and>
    (\<forall>s'. nb_iter maxl code checked a s = Finished s' \<longrightarrow> stdineof s')"
proof (cases "sel a")
  case None
  with assms nb_body_ok [OF assms _ refl, of "want_stdin maxl s"] show ?thesis by (simp add: nb_iter_def)
next
  case (Some rs)
  obtain r_in r_sock w_out w_sock where rs: "rs = (r_in, r_sock, w_out, w_sock)" by (cases rs)
  with Some nb_body_ok [OF assms _ refl, of "want_stdin maxl s \<and> r_in"] show ?thesis by (simp add: nb_iter_def)
qed

lemma nb_run_ok:
  "nb_ok maxl s \<Longrightarrow> nb_ok maxl (result_state (nb_run (nb_iter maxl code checked) as s)) \<and>
     (\<forall>s'. nb_run (nb_iter maxl code checked) as s = Finished s' \<longrightarrow> stdineof s')"
proof (induction as arbitrary: s)
  case (Cons a as)
  from nb_iter_ok [OF Cons.prems, of code checked a] Cons.IH show ?case
    by (cases "nb_iter maxl code checked a s") auto
qed simp

section \<open>Properties\<close>

text \<open>
  C13. The non-blocking client never loses, repeats or reorders a byte while it runs: after any number of
  iterations with any answers of the kernel, what it has sent on the socket is what it read from standard
  input, less what still waits in \<^verbatim>\<open>to\<close>; what it has printed is what it read from the socket, less what
  still waits in \<^verbatim>\<open>fr\<close>; neither buffer overflows; and the sending side has been shut down exactly when the
  end of standard input was seen and everything has been sent. Both programs.
\<close>

theorem nonb_conserves_bytes:
  assumes "prog = (4096, nb_run str_cli_nonb) \<or> prog = (1024, nb_run unlock_str_cli)"
    and "s = result_state (snd prog as nb_init)"
  shows "from_stdin s = to_sock s @ drop (tooptr s) (to_buf s) \<and> length (to_buf s) \<le> fst prog \<and>
    from_sock s = to_stdout s @ drop (froptr s) (fr_buf s) \<and> length (fr_buf s) \<le> fst prog \<and>
    (fin_sent s \<longleftrightarrow> stdineof s \<and> from_stdin s = to_sock s)"
proof -
  have "nb_ok (fst prog) s"
    using assms nb_run_ok [OF nb_ok_init] by (auto simp: str_cli_nonb_def unlock_str_cli_def)
  moreover from this buf_ok_nonempty [of "fst prog" "to_buf s" "tooptr s" "to_sock s" "from_stdin s"]
  have "from_stdin s = to_sock s \<longleftrightarrow> to_buf s = []"
    by (auto simp: nb_ok_def buf_ok_def split: if_splits)
  ultimately show ?thesis by (auto simp: nb_ok_def buf_ok_def)
qed

definition quiet :: answers where
  "quiet = \<lparr>sel = Some (False, False, False, False), a_stdin = RdErr EWOULDBLOCK, a_sock = RdErr EWOULDBLOCK,
     a_stdout = WrErr EWOULDBLOCK, a_wsock = WrErr EWOULDBLOCK\<rparr>"

theorem nonb_conserves_bytes_witness:
  "to_sock (result_state (nb_run unlock_str_cli [quiet\<lparr>sel := Some (True, False, False, False), a_stdin := RdOk ''abc'', a_wsock := WrOk 2\<rparr>] nb_init)) = ''ab''"
proof -
  let ?s = "result_state (nb_run unlock_str_cli [quiet\<lparr>sel := Some (True, False, False, False), a_stdin := RdOk ''abc'', a_wsock := WrOk 2\<rparr>] nb_init)"
  have "(1024, nb_run unlock_str_cli) = (4096, nb_run str_cli_nonb) \<or>
      (1024 :: nat, nb_run unlock_str_cli) = (1024, nb_run unlock_str_cli)" by simp
  from nonb_conserves_bytes [OF this refl, of "[quiet\<lparr>sel := Some (True, False, False, False), a_stdin := RdOk ''abc'', a_wsock := WrOk 2\<rparr>]"]
  have "from_stdin ?s = to_sock ?s @ drop (tooptr ?s) (to_buf ?s)" by simp
  moreover have "from_stdin ?s = ''abc''" "drop (tooptr ?s) (to_buf ?s) = ''c''"
    by (simp_all add: unlock_str_cli_def nb_iter_def nb_body_def nb_stdin_def nb_wsock_def quiet_def nb_init_def
        want_stdin_def want_sock_def want_wsock_def want_stdout_def Let_def)
  ultimately show ?thesis by simp
qed

text \<open>
  The client never waits for nothing: in every state it can reach, the sets it passes to \<^verbatim>\<open>select\<close> are not
  all empty. If it does not ask for the socket's data because \<^verbatim>\<open>fr\<close> is full, it asks to write standard output.
\<close>

theorem nonb_never_waits_for_nothing:
  assumes "s = result_state (nb_run (nb_iter maxl code checked) as nb_init)" and "0 < maxl"
  shows "want_sock maxl s \<or> want_stdout s"
proof -
  from assms(1) nb_run_ok [OF nb_ok_init] have "nb_ok maxl s" by simp
  then show ?thesis
    using assms(2) by (auto simp: nb_ok_def buf_ok_def want_sock_def want_stdout_def split: if_splits)
qed

theorem nonb_never_waits_for_nothing_witness: "want_sock 1024 nb_init \<or> want_stdout nb_init"
proof -
  have "nb_init = result_state (nb_run (nb_iter 1024 (-1) False) [] nb_init)" "(0 :: nat) < 1024" by simp_all
  then show ?thesis by (rule nonb_never_waits_for_nothing)
qed

text \<open>
  But it may lose data at the end: when the server has closed, the loop returns at once, whether or not
  \<^verbatim>\<open>fr\<close> still holds bytes that standard output could not take yet. Here the server's reply is read, standard
  output would block, the server closes, and the client ends normally without having printed the reply.
\<close>

theorem nonb_loses_reply_at_eof:
  "nb_run str_cli_nonb
     [quiet\<lparr>sel := Some (True, True, False, False), a_stdin := RdOk [], a_sock := RdOk ''reply''\<rparr>,
      quiet\<lparr>sel := Some (False, True, False, False), a_sock := RdOk []\<rparr>] nb_init =
   Finished (nb_init\<lparr>stdineof := True, fin_sent := True, fr_buf := ''reply'', from_sock := ''reply''\<rparr>)"
  by (simp add: str_cli_nonb_def nb_iter_def nb_body_def nb_stdin_def nb_sock_def nb_stdout_def quiet_def
      nb_init_def want_stdin_def want_sock_def want_wsock_def want_stdout_def Let_def)

end
