(* ===== verification/Select_Server.thy ===== *)
theory Select_Server
  imports CPrelude
begin

text \<open>
  The single-process echo servers on \<^verbatim>\<open>select\<close>: \<^verbatim>\<open>unpv13e/tcpcliserv/tcpservselect01.c\<close> and
  \<^verbatim>\<open>socket/select_server.c\<close>. The state is that of the two programs: the array of connected descriptors (-1
  for a free entry), its highest index in use, the highest descriptor and the set given to \<^verbatim>\<open>select\<close>; the
  last two fields record what was echoed on which descriptor and which descriptors were closed.

  One iteration of the main loop takes what the kernel answers in it: the set \<^verbatim>\<open>select\<close> leaves, the descriptor
  \<^verbatim>\<open>accept\<close> returns, what each \<^verbatim>\<open>read\<close> returns, whether a descriptor can be written. The first program ends
  when a call fails, the second ignores failures (\<open>strict\<close>). Putting a descriptor outside of \<open>0..<FD_SETSIZE\<close>
  into a set, and indexing the array beyond its end, is undefined (\<open>UB\<close>).
\<close>

section \<open>State\<close>

record sel_srv =
  client :: "int list"
  maxi :: int
  maxfd :: int
  allset :: "int set"
  echo_log :: "(int \<times> char list) list"
  close_log :: "int list"

record sel_env =
  select_ok :: bool
  rset :: "int set"
  accepted :: int
  read_ans :: "int \<Rightarrow> rd"
  writable :: "int \<Rightarrow> bool"

definition sel_init :: "int \<Rightarrow> int \<Rightarrow> sel_srv" where
  "sel_init m listenfd = \<lparr>client = replicate FD_SETSIZE (-1), maxi = m, maxfd = listenfd,
     allset = {listenfd}, echo_log = [], close_log = []\<rparr>"

definition sel_init_unp :: "int \<Rightarrow> sel_srv" where
  "sel_init_unp = sel_init (-1)"

definition sel_init_own :: "int \<Rightarrow> sel_srv" where
  "sel_init_own = sel_init 0"

section \<open>A new connection\<close>

text \<open>The index of the first free entry, or \<^verbatim>\<open>FD_SETSIZE\<close>.\<close>

fun first_free :: "int list \<Rightarrow> nat" where
  "first_free [] = 0"
| "first_free (c # cs) = (if c < 0 then 0 else Suc (first_free cs))"

definition note_client :: "int \<Rightarrow> nat \<Rightarrow> sel_srv \<Rightarrow> sel_srv" where
  "note_client connfd i s = s\<lparr>maxfd := (if connfd > maxfd s then connfd else maxfd s),
     maxi := (if int i > maxi s then int i else maxi s)\<rparr>"

definition sel_accept_unp :: "int \<Rightarrow> sel_srv \<Rightarrow> sel_srv run c_value" where
  "sel_accept_unp connfd s =
     (let i = first_free (client s) in
      if connfd < 0 then Val (Exit 1)
      else if i = FD_SETSIZE then Val (Exit 1)
      else case FD_SET connfd (allset s) of
        UB \<Rightarrow> UB
      | Val st \<Rightarrow> Val (Ret (note_client connfd i (s\<lparr>client := (client s)[i := connfd], allset := st\<rparr>))))"

text \<open>The second program neither looks at the result of \<^verbatim>\<open>accept\<close> nor for a full array.\<close>

definition sel_accept_own :: "int \<Rightarrow> sel_srv \<Rightarrow> sel_srv run c_value" where
  "sel_accept_own connfd s =
     (let i = first_free (client s) in
      case FD_SET connfd (allset s) of
        UB \<Rightarrow> UB
      | Val st \<Rightarrow> Val (Ret (note_client connfd i (s\<lparr>client := (client s)[i := connfd], allset := st\<rparr>))))"

section \<open>The connected clients\<close>

text \<open>What is done for entry \<open>i\<close>, which holds the readable descriptor \<open>fd\<close>.\<close>

definition sel_serve :: "bool \<Rightarrow> sel_env \<Rightarrow> nat \<Rightarrow> int \<Rightarrow> sel_srv \<Rightarrow> sel_srv run" where
  "sel_serve strict env i fd s =
     (case read_ans env fd of
        RdErr e \<Rightarrow> if strict then Exit 1 else Ret s
      | RdOk bs \<Rightarrow>
          if bs = [] then
            Ret (s\<lparr>close_log := close_log s @ [fd], allset := allset s - {fd}, client := (client s)[i := -1]\<rparr>)
          else if writable env fd then Ret (s\<lparr>echo_log := echo_log s @ [(fd, bs)]\<rparr>)
          else if strict then Exit 1 else Ret s)"

lemma sel_serve_keeps: "sel_serve strict env i fd s = Ret s' \<Longrightarrow>
    maxi s' = maxi s \<and> length (client s') = length (client s)"
  by (auto simp: sel_serve_def split: rd.splits if_splits)

function sel_clients :: "bool \<Rightarrow> sel_env \<Rightarrow> nat \<Rightarrow> int \<Rightarrow> sel_srv \<Rightarrow> sel_srv run c_value" where
  "sel_clients strict env i nready s =
     (if int i \<le> maxi s then
        if i \<ge> length (client s) then UB
        else
          let fd = client s ! i in
          if fd < 0 then sel_clients strict env (i + 1) nready s
          else if fd \<in> rset env then
            (case sel_serve strict env i fd s of
               Exit c \<Rightarrow> Val (Exit c)
             | Ret s' \<Rightarrow>
                 if nready - 1 \<le> 0 then Val (Ret s') else sel_clients strict env (i + 1) (nready - 1) s')
          else sel_clients strict env (i + 1) nready s
      else Val (Ret s))"
  by pat_completeness auto

termination
  by (relation "measure (\<lambda>(strict, env, i, nready, s). nat (maxi s + 1) - i)")
    (auto dest: sel_serve_keeps)

declare sel_clients.simps [simp del]

section \<open>One iteration of the main loop\<close>

text \<open>
  A failing \<^verbatim>\<open>select\<close> ends the first program (its wrapper calls \<^verbatim>\<open>err_sys\<close>); the second one goes on with -1 as
  the number of descriptors and the set as it was.
\<close>

definition select_set :: "sel_env \<Rightarrow> sel_srv \<Rightarrow> sel_env" where
  "select_set env s = (if select_ok env then env else env\<lparr>rset := allset s\<rparr>)"

definition select_count :: "sel_env \<Rightarrow> int" where
  "select_count env = (if select_ok env then int (card (rset env)) else -1)"

definition sel_iter :: "bool \<Rightarrow> (int \<Rightarrow> sel_srv \<Rightarrow> sel_srv run c_value) \<Rightarrow> int \<Rightarrow> sel_env \<Rightarrow> sel_srv \<Rightarrow> sel_srv run c_value" where
  "sel_iter strict acc listenfd env s =
     (let nready = select_count env; env = select_set env s in
      if strict \<and> \<not> select_ok env then Val (Exit 1)
      else if listenfd \<in> rset env then
        (case acc (accepted env) s of
           UB \<Rightarrow> UB
         | Val (Exit c) \<Rightarrow> Val (Exit c)
         | Val (Ret s') \<Rightarrow>
             if nready - 1 \<le> 0 then Val (Ret s') else sel_clients strict env 0 (nready - 1) s')
      else sel_clients strict env 0 nready s)"

definition tcpservselect01_iter :: "int \<Rightarrow> sel_env \<Rightarrow> sel_srv \<Rightarrow> sel_srv run c_value" where
  "tcpservselect01_iter = sel_iter True sel_accept_unp"

definition select_server_iter :: "int \<Rightarrow> sel_env \<Rightarrow> sel_srv \<Rightarrow> sel_srv run c_value" where
  "select_server_iter = sel_iter False sel_accept_own"

section \<open>What an iteration does\<close>

definition served :: "sel_env \<Rightarrow> int list \<Rightarrow> int list" where
  "served env cs = filter (\<lambda>fd. 0 \<le> fd \<and> fd \<in> rset env) cs"

definition bytes_of :: "sel_env \<Rightarrow> int \<Rightarrow> char list" where
  "bytes_of env fd = (case read_ans env fd of RdOk bs \<Rightarrow> bs | RdErr _ \<Rightarrow> [])"

definition no_failures :: "sel_env \<Rightarrow> int list \<Rightarrow> bool" where
  "no_failures env cs \<longleftrightarrow> list_all (\<lambda>fd. read_ans env fd = RdOk (bytes_of env fd) \<and> writable env fd) (served env cs)"

definition echoes :: "sel_env \<Rightarrow> int list \<Rightarrow> (int \<times> char list) list" where
  "echoes env cs = map (\<lambda>fd. (fd, bytes_of env fd)) (filter (\<lambda>fd. bytes_of env fd \<noteq> []) (served env cs))"

definition closes :: "sel_env \<Rightarrow> int list \<Rightarrow> int list" where
  "closes env cs = filter (\<lambda>fd. bytes_of env fd = []) (served env cs)"

definition after_closes :: "sel_env \<Rightarrow> int list \<Rightarrow> int list" where
  "after_closes env cs = map (\<lambda>fd. if fd \<in> set (closes env [fd]) then -1 else fd) cs"

abbreviation is_ready :: "sel_env \<Rightarrow> int \<Rightarrow> bool" where
  "is_ready env fd \<equiv> 0 \<le> fd \<and> fd \<in> rset env"

lemma served_simps [simp]:
  "served env [] = []"
  "served env (c # cs) = (if is_ready env c then c # served env cs else served env cs)"
  by (simp_all add: served_def)

lemma effect_simps [simp]:
  "echoes env [] = []" "closes env [] = []" "after_closes env [] = []" "no_failures env []"
  "echoes env (c # cs) = (if is_ready env c \<and> bytes_of env c \<noteq> [] then (c, bytes_of env c) # echoes env cs else echoes env cs)"
  "closes env (c # cs) = (if is_ready env c \<and> bytes_of env c = [] then c # closes env cs else closes env cs)"
  "after_closes env (c # cs) = (if is_ready env c \<and> bytes_of env c = [] then -1 else c) # after_closes env cs"
  "no_failures env (c # cs) \<longleftrightarrow>
     (is_ready env c \<longrightarrow> read_ans env c = RdOk (bytes_of env c) \<and> writable env c) \<and> no_failures env cs"
  by (auto simp: echoes_def closes_def after_closes_def no_failures_def)

lemma idle_tail:
  "served env cs = [] \<Longrightarrow> echoes env cs = [] \<and> closes env cs = [] \<and> after_closes env cs = cs"
  by (induction cs) (auto split: if_splits)

lemma negative_tail: "\<forall>fd\<in>set cs. fd < 0 \<Longrightarrow> served env cs = []"
  by (auto simp: served_def filter_empty_conv)

text \<open>The state after the entries from \<open>i\<close> on have been looked at.\<close>

definition serve_from :: "sel_env \<Rightarrow> nat \<Rightarrow> sel_srv \<Rightarrow> sel_srv" where
  "serve_from env i s = s\<lparr>client := take i (client s) @ after_closes env (drop i (client s)),
     allset := allset s - set (closes env (drop i (client s))),
     echo_log := echo_log s @ echoes env (drop i (client s)),
     close_log := close_log s @ closes env (drop i (client s))\<rparr>"

lemma serve_from_idle: "served env (drop i (client s)) = [] \<Longrightarrow> serve_from env i s = s"
  by (drule idle_tail) (simp add: serve_from_def)

lemma serve_from_skip:
  assumes "i < length (client s)" and "\<not> is_ready env (client s ! i)"
  shows "serve_from env i s = serve_from env (Suc i) s"
  using assms by (auto simp: serve_from_def Cons_nth_drop_Suc [symmetric] take_Suc_conv_app_nth)

lemma serve_from_step:
  assumes "i < length (client s)" and "is_ready env (client s ! i)" and "no_failures env (drop i (client s))"
  shows "\<exists>s'. sel_serve strict env i (client s ! i) s = Ret s' \<and> serve_from env i s = serve_from env (Suc i) s' \<and>
    drop (Suc i) (client s') = drop (Suc i) (client s)"
proof (cases "bytes_of env (client s ! i) = []")
  case True
  have "allset s - insert (client s ! i) (set cs) = allset s - {client s ! i} - set cs" for cs by blast
  with True assms show ?thesis
    by (auto simp: sel_serve_def serve_from_def Cons_nth_drop_Suc [symmetric] take_Suc_conv_app_nth)
next
  case False
  with assms show ?thesis
    by (auto simp: sel_serve_def serve_from_def Cons_nth_drop_Suc [symmetric] take_Suc_conv_app_nth)
qed

text \<open>\<open>maxi\<close> covers all entries in use.\<close>

definition covered :: "sel_srv \<Rightarrow> bool" where
  "covered s \<longleftrightarrow> length (client s) = FD_SETSIZE \<and> maxi s < int FD_SETSIZE \<and>
     (\<forall>j < FD_SETSIZE. 0 \<le> client s ! j \<longrightarrow> int j \<le> maxi s)"

lemma covered_serve:
  assumes "covered s" and "sel_serve strict env i fd s = Ret s'"
  shows "covered s'"
  using assms by (auto simp: covered_def sel_serve_def nth_update_cases split: rd.splits if_splits)

lemma covered_tail: "covered s \<Longrightarrow> maxi s < int i \<Longrightarrow> served env (drop i (client s)) = []"
proof (rule negative_tail, rule ballI)
  fix fd assume s: "covered s" "maxi s < int i" and "fd \<in> set (drop i (client s))"
  then obtain k where "k < length (drop i (client s))" "drop i (client s) ! k = fd"
    by (auto simp: in_set_conv_nth)
  with s have "i + k < FD_SETSIZE" "client s ! (i + k) = fd" by (auto simp: covered_def)
  with s show "fd < 0" by (force simp: covered_def)
qed

text \<open>The early exit on \<^verbatim>\<open>nready\<close> changes nothing as long as \<^verbatim>\<open>nready\<close> is at least the number of ready entries left.\<close>

lemma sel_clients_effect:
  assumes "covered s" and "i \<le> FD_SETSIZE" and "int (length (served env (drop i (client s)))) \<le> nready"
    and "no_failures env (drop i (client s))"
  shows "sel_clients strict env i nready s = Val (Ret (serve_from env i s))"
  using assms
proof (induction "FD_SETSIZE - i" arbitrary: i nready s)
  case 0
  then have "maxi s < int i" by (auto simp: covered_def)
  with covered_tail [OF 0(2) this] show ?case
    by (subst sel_clients.simps) (simp add: serve_from_idle)
next
  case (Suc n)
  then have i: "i < FD_SETSIZE" "length (client s) = FD_SETSIZE" by (auto simp: covered_def)
  have cons: "drop i (client s) = client s ! i # drop (Suc i) (client s)"
    using i by (simp add: Cons_nth_drop_Suc)
  show ?case
  proof (cases "int i \<le> maxi s \<and> is_ready env (client s ! i)")
    case True
    from serve_from_step [of i s env] True i Suc.prems(4) obtain s' where
      s': "sel_serve strict env i (client s ! i) s = Ret s'" "serve_from env i s = serve_from env (Suc i) s'"
        "drop (Suc i) (client s') = drop (Suc i) (client s)" by auto
    have cov: "covered s'" using Suc.prems(1) s'(1) by (rule covered_serve)
    have "served env (drop (Suc i) (client s)) = []" if "nready \<le> 1"
      using that Suc.prems(3) True by (cases "served env (drop (Suc i) (client s))") (auto simp: cons)
    then have idle: "nready \<le> 1 \<Longrightarrow> serve_from env (Suc i) s' = s'"
      using s'(3) by (intro serve_from_idle) simp
    have "sel_clients strict env (Suc i) (nready - 1) s' = Val (Ret (serve_from env (Suc i) s'))"
      using Suc.hyps(2) Suc.prems cov True s'(3) i by (intro Suc.hyps(1)) (auto simp: cons)
    with True s' i idle show ?thesis by (subst sel_clients.simps) (auto simp: Let_def)
  next
    case False
    show ?thesis
    proof (cases "int i \<le> maxi s")
      case True
      with False have nr: "\<not> is_ready env (client s ! i)" by blast
      have "sel_clients strict env (Suc i) nready s = Val (Ret (serve_from env (Suc i) s))"
        using Suc.hyps(2) Suc.prems nr i by (intro Suc.hyps(1)) (auto simp: cons)
      with True nr i serve_from_skip [of i s env] show ?thesis by (subst sel_clients.simps) (auto simp: Let_def)
    next
      case False
      with covered_tail [OF Suc.prems(1), of i env] show ?thesis
        by (subst sel_clients.simps) (simp add: serve_from_idle)
    qed
  qed
qed

section \<open>Invariant of the servers\<close>

text \<open>
  The set given to \<^verbatim>\<open>select\<close> is the listening descriptor and the connected ones, no descriptor has two
  entries, and \<^verbatim>\<open>maxi\<close> and \<^verbatim>\<open>maxfd\<close> are large enough.
\<close>

definition connected :: "sel_srv \<Rightarrow> int list" where
  "connected s = filter (\<lambda>fd. 0 \<le> fd) (client s)"

definition srv_ok :: "int \<Rightarrow> sel_srv \<Rightarrow> bool" where
  "srv_ok listenfd s \<longleftrightarrow> covered s \<and> 0 \<le> listenfd \<and> listenfd \<notin> set (client s) \<and>
     allset s = insert listenfd (set (connected s)) \<and> distinct (connected s) \<and> (\<forall>fd\<in>allset s. fd \<le> maxfd s)"

lemma first_free_props:
  "first_free cs < length cs \<Longrightarrow> cs ! first_free cs < 0 \<and> (\<forall>j < first_free cs. 0 \<le> cs ! j)"
proof (induction cs)
  case (Cons c cs)
  then show ?case by (auto simp: nth_Cons split: nat.splits)
qed simp

lemma effects_update:
  assumes "\<not> is_ready env (cs ! i)" and "\<not> is_ready env x"
  shows "served env (cs[i := x]) = served env cs" "echoes env (cs[i := x]) = echoes env cs"
    "closes env (cs[i := x]) = closes env cs"
proof -
  show *: "served env (cs[i := x]) = served env cs"
    using assms by (induction cs arbitrary: i) (auto split: nat.splits)
  show "echoes env (cs[i := x]) = echoes env cs" "closes env (cs[i := x]) = closes env cs"
    by (simp_all add: echoes_def closes_def *)
qed

lemma filter_update_new:
  "i < length cs \<Longrightarrow> \<not> P (cs ! i) \<Longrightarrow> P x \<Longrightarrow>
     \<exists>us vs. filter P cs = us @ vs \<and> filter P (cs[i := x]) = us @ x # vs"
proof (induction cs arbitrary: i)
  case (Cons c cs)
  show ?case
  proof (cases i)
    case 0
    with Cons.prems show ?thesis by (auto intro: exI [of _ "[]"])
  next
    case (Suc j)
    with Cons.IH [of j] Cons.prems obtain us vs where
      "filter P cs = us @ vs" "filter P (cs[j := x]) = us @ x # vs" by auto
    with Suc show ?thesis
      by (intro exI [of _ "if P c then c # us else us"] exI [of _ vs]) simp
  qed
qed simp

text \<open>A new connection.\<close>

lemma srv_ok_accept:
  assumes "srv_ok listenfd s" and "connfd \<notin> allset s" and "0 \<le> connfd" and "connfd < int FD_SETSIZE"
    and "first_free (client s) < FD_SETSIZE"
  shows "\<exists>s'. sel_accept_unp connfd s = Val (Ret s') \<and> sel_accept_own connfd s = Val (Ret s') \<and> srv_ok listenfd s' \<and>
    client s' = (client s)[first_free (client s) := connfd] \<and> set (connected s') = insert connfd (set (connected s)) \<and>
    echo_log s' = echo_log s \<and> close_log s' = close_log s"
proof -
  define i where "i = first_free (client s)"
  define s' where "s' = note_client connfd i (s\<lparr>client := (client s)[i := connfd], allset := insert connfd (allset s)\<rparr>)"
  have sel: "client s' = (client s)[i := connfd]" "allset s' = insert connfd (allset s)"
    "maxi s' = max (maxi s) (int i)" "maxfd s' = max (maxfd s) connfd"
    "echo_log s' = echo_log s" "close_log s' = close_log s"
    by (simp_all add: s'_def note_client_def max_def)
  have ok: "covered s" "allset s = insert listenfd (set (connected s))" "distinct (connected s)" "0 \<le> listenfd"
    "listenfd \<notin> set (client s)" "\<forall>fd\<in>allset s. fd \<le> maxfd s" using assms(1) by (simp_all add: srv_ok_def)
  have len: "length (client s) = FD_SETSIZE" "i < FD_SETSIZE" using ok(1) assms(5) by (simp_all add: covered_def i_def)
  have neg: "\<not> 0 \<le> client s ! i" using first_free_props [of "client s"] assms(5) len by (simp add: i_def)
  have "\<exists>us vs. connected s = us @ vs \<and> connected s' = us @ connfd # vs"
    unfolding connected_def sel using len neg assms(3) by (intro filter_update_new) simp_all
  then obtain us vs where uv: "connected s = us @ vs" "connected s' = us @ connfd # vs" by blast
  have acc: "sel_accept_unp connfd s = Val (Ret s')" "sel_accept_own connfd s = Val (Ret s')"
    using assms(3,4,5) by (simp_all add: sel_accept_unp_def sel_accept_own_def FD_SET_def Let_def s'_def i_def)
  have cov: "covered s'"
  proof -
    have "int j \<le> max (maxi s) (int i)" if "j < FD_SETSIZE" "0 \<le> (client s)[i := connfd] ! j" for j
      using that ok(1) len by (cases "j = i") (auto simp: covered_def)
    with ok(1) len show ?thesis unfolding covered_def sel by simp
  qed
  have new: "listenfd \<noteq> connfd" "connfd \<notin> set (connected s)" using assms(2) ok(2) by auto
  have "listenfd \<notin> set (client s')"
    using new(1) ok(5) set_update_subset_insert [of "client s" i connfd] unfolding sel by blast
  moreover have "distinct (connected s')" using ok(3) new(2) unfolding uv by auto
  moreover have con: "set (connected s') = insert connfd (set (connected s))" unfolding uv by simp
  ultimately have "srv_ok listenfd s'"
    using cov ok(2,4,6) unfolding srv_ok_def sel by auto
  with acc con sel show ?thesis by (intro exI [of _ s']) (simp add: i_def)
qed

text \<open>Serving the clients.\<close>

lemma connected_after: "filter (\<lambda>fd. 0 \<le> fd) (after_closes env cs) = filter (\<lambda>fd. 0 \<le> fd \<and> fd \<notin> set (closes env [fd])) cs"
  by (induction cs) auto

lemma closes_set: "set (closes env cs) = {fd \<in> set cs. is_ready env fd \<and> bytes_of env fd = []}"
  by (auto simp: closes_def served_def)

lemma srv_ok_serve:
  assumes "srv_ok listenfd s"
  shows "srv_ok listenfd (serve_from env 0 s) \<and>
    set (connected (serve_from env 0 s)) = set (connected s) - set (closes env (client s))"
proof -
  let ?s = "serve_from env 0 s"
  have c: "client ?s = after_closes env (client s)" "maxi ?s = maxi s" "maxfd ?s = maxfd s"
    "allset ?s = allset s - set (closes env (client s))" by (simp_all add: serve_from_def)
  have con: "connected ?s = filter (\<lambda>fd. fd \<notin> set (closes env [fd])) (connected s)"
    unfolding connected_def c connected_after by (simp add: conj_commute)
  then have set: "set (connected ?s) = set (connected s) - set (closes env (client s))"
    by (auto simp: closes_set connected_def)
  have "covered ?s"
    using assms unfolding srv_ok_def covered_def c by (auto simp: after_closes_def)
  moreover have "listenfd \<notin> set (client ?s)"
    using assms unfolding srv_ok_def c by (auto simp: after_closes_def)
  moreover have "listenfd \<notin> set (closes env (client s))" using assms by (auto simp: srv_ok_def closes_set)
  ultimately show ?thesis
    using assms set con unfolding srv_ok_def c by auto
qed

text \<open>
  What the kernel promises in an iteration: \<^verbatim>\<open>select\<close> returns a nonempty part of the set it was given, and
  \<^verbatim>\<open>accept\<close> a descriptor that is not in use.
\<close>

definition env_ok :: "int \<Rightarrow> sel_env \<Rightarrow> sel_srv \<Rightarrow> bool" where
  "env_ok listenfd env s \<longleftrightarrow> select_ok env \<and> rset env \<noteq> {} \<and> rset env \<subseteq> allset s \<and>
     (listenfd \<in> rset env \<longrightarrow> accepted env \<notin> allset s \<and> 0 \<le> accepted env \<and> accepted env < int FD_SETSIZE \<and>
        first_free (client s) < FD_SETSIZE)"

lemma length_served:
  assumes "srv_ok listenfd s" and "rset env \<subseteq> allset s"
  shows "length (served env (client s)) = card (rset env - {listenfd})"
proof -
  have "served env (client s) = filter (\<lambda>fd. fd \<in> rset env) (connected s)"
    by (simp add: served_def connected_def conj_commute)
  moreover have "distinct (filter (\<lambda>fd. fd \<in> rset env) (connected s))" using assms(1) by (simp add: srv_ok_def)
  moreover have "set (filter (\<lambda>fd. fd \<in> rset env) (connected s)) = rset env - {listenfd}"
    using assms by (auto simp: srv_ok_def connected_def)
  ultimately show ?thesis by (metis distinct_card)
qed

lemma sel_iter_effect:
  assumes "srv_ok listenfd s" and "env_ok listenfd env s" and "no_failures env (client s)"
    and "acc = sel_accept_unp \<or> acc = sel_accept_own"
  shows "\<exists>s'. sel_iter strict acc listenfd env s = Val (Ret s') \<and> srv_ok listenfd s' \<and>
    echo_log s' = echo_log s @ echoes env (client s) \<and> close_log s' = close_log s @ closes env (client s) \<and>
    set (connected s') = (set (connected s) - set (closes env (client s))) \<union>
      (if listenfd \<in> rset env then {accepted env} else {})"
proof (cases "listenfd \<in> rset env")
  case False
  have ok: "select_ok env" using assms(2) by (simp add: env_ok_def)
  have fin: "finite (rset env)" using assms(1,2) by (auto simp: srv_ok_def env_ok_def intro: finite_subset)
  have "length (served env (client s)) = card (rset env)"
    using length_served [OF assms(1), of env] assms(2) False by (simp add: env_ok_def)
  then have "sel_clients strict env 0 (int (card (rset env))) s = Val (Ret (serve_from env 0 s))"
    using assms(1,3) by (intro sel_clients_effect) (simp_all add: srv_ok_def)
  with False srv_ok_serve [OF assms(1), of env] show ?thesis
    by (auto simp: sel_iter_def serve_from_def select_count_def select_set_def Let_def ok)
next
  case True
  let ?c = "accepted env" and ?i = "first_free (client s)"
  from assms(2) True have env: "?c \<notin> allset s" "0 \<le> ?c" "?c < int FD_SETSIZE" "?i < FD_SETSIZE" "rset env \<subseteq> allset s"
    by (auto simp: env_ok_def)
  from srv_ok_accept [OF assms(1) env(1-4)] assms(4) obtain s1 where
    s1: "acc ?c s = Val (Ret s1)" "srv_ok listenfd s1" "client s1 = (client s)[?i := ?c]"
      "set (connected s1) = insert ?c (set (connected s))" "echo_log s1 = echo_log s" "close_log s1 = close_log s"
    by blast
  have len: "length (client s) = FD_SETSIZE" using assms(1) by (simp add: srv_ok_def covered_def)
  have "\<not> is_ready env (client s ! ?i)" "\<not> is_ready env ?c"
    using first_free_props [of "client s"] env len by auto
  note upd = effects_update [OF this, folded s1(3)]
  have fin: "finite (rset env)" using assms(1) env(5) by (auto simp: srv_ok_def intro: finite_subset)
  have card: "length (served env (client s1)) = card (rset env) - 1"
    using length_served [OF assms(1) env(5)] upd(1) True fin by simp
  have nf: "no_failures env (client s1)" using assms(3) upd(1) by (simp add: no_failures_def)
  have pos: "0 < card (rset env)" using fin True by (auto simp: card_gt_0_iff)
  have "sel_clients strict env 0 (int (card (rset env)) - 1) s1 = Val (Ret (serve_from env 0 s1))"
    using s1(2) nf card pos by (intro sel_clients_effect) (auto simp: srv_ok_def)
  moreover have "serve_from env 0 s1 = s1" if "int (card (rset env)) - 1 \<le> 0"
    using card that by (intro serve_from_idle) simp
  ultimately have it: "sel_iter strict acc listenfd env s = Val (Ret (serve_from env 0 s1))"
    using True s1(1) assms(2) by (auto simp: sel_iter_def select_count_def select_set_def env_ok_def Let_def)
  have "?c \<notin> set (closes env (client s))" using env by (auto simp: closes_set)
  with it srv_ok_serve [OF s1(2), of env] True s1(4,5,6) upd show ?thesis
    by (intro exI [of _ "serve_from env 0 s1"]) (auto simp: serve_from_def)
qed

text \<open>The states the server gets into while no call fails.\<close>

inductive sel_reach :: "bool \<Rightarrow> int \<Rightarrow> sel_srv \<Rightarrow> bool" for own :: bool and listenfd :: int where
  sel_start: "0 \<le> listenfd \<Longrightarrow> sel_reach own listenfd (if own then sel_init_own listenfd else sel_init_unp listenfd)"
| sel_step: "sel_reach own listenfd s \<Longrightarrow> env_ok listenfd env s \<Longrightarrow> no_failures env (client s) \<Longrightarrow>
    (if own then select_server_iter else tcpservselect01_iter) listenfd env s = Val (Ret s') \<Longrightarrow>
    sel_reach own listenfd s'"

lemma srv_ok_init: "0 \<le> listenfd \<Longrightarrow> -1 \<le> m \<Longrightarrow> m < int FD_SETSIZE \<Longrightarrow> srv_ok listenfd (sel_init m listenfd)"
  by (simp add: srv_ok_def sel_init_def covered_def connected_def)

lemma server_iter_effect:
  assumes "srv_ok listenfd s" and "env_ok listenfd env s" and "no_failures env (client s)"
  shows "\<exists>s'. (if own then select_server_iter else tcpservselect01_iter) listenfd env s = Val (Ret s') \<and>
    srv_ok listenfd s' \<and>
    echo_log s' = echo_log s @ echoes env (client s) \<and> close_log s' = close_log s @ closes env (client s) \<and>
    set (connected s') = (set (connected s) - set (closes env (client s))) \<union>
      (if listenfd \<in> rset env then {accepted env} else {})"
  using sel_iter_effect [OF assms, of sel_accept_unp True] sel_iter_effect [OF assms, of sel_accept_own False]
  by (auto simp: tcpservselect01_iter_def select_server_iter_def)

lemma sel_reach_ok: "sel_reach own listenfd s \<Longrightarrow> srv_ok listenfd s"
proof (induction rule: sel_reach.induct)
  case sel_start
  then show ?case by (simp add: sel_init_own_def sel_init_unp_def srv_ok_init)
next
  case (sel_step s env s')
  from server_iter_effect [OF sel_step.IH sel_step.hyps(2,3), of own] sel_step.hyps(4) show ?case
    by (metis c_value.inject run.inject(1))
qed

section \<open>Properties\<close>

text \<open>
  C14. One iteration of either \<^verbatim>\<open>select\<close> server, in any state the server gets into, when no call fails: every
  descriptor that \<^verbatim>\<open>select\<close> found ready is served exactly once, in the order of the array (the count \<^verbatim>\<open>nready\<close>
  never ends the loop too early); what a client sent is echoed to that client and nobody else; a client
  that has closed is closed and forgotten; a new connection is added; and afterwards the set given to
  \<^verbatim>\<open>select\<close> is again the listening descriptor and the distinct descriptors of the array, all within \<^verbatim>\<open>maxfd\<close>.
\<close>

theorem select_iteration_serves_all:
  assumes "sel_reach own listenfd s" and "env_ok listenfd env s" and "no_failures env (client s)"
  shows "\<exists>s'. (if own then select_server_iter else tcpservselect01_iter) listenfd env s = Val (Ret s') \<and>
    echo_log s' = echo_log s @ echoes env (client s) \<and> close_log s' = close_log s @ closes env (client s) \<and>
    set (connected s') = (set (connected s) - set (closes env (client s))) \<union>
      (if listenfd \<in> rset env then {accepted env} else {}) \<and>
    allset s' = insert listenfd (set (connected s')) \<and> distinct (connected s') \<and> (\<forall>fd\<in>allset s'. fd \<le> maxfd s')"
  using server_iter_effect [OF sel_reach_ok [OF assms(1)] assms(2,3), of own] unfolding srv_ok_def by metis

definition client_env :: "int set \<Rightarrow> int \<Rightarrow> sel_env" where
  "client_env st new = \<lparr>select_ok = True, rset = st, accepted = new,
     read_ans = (\<lambda>fd. if fd = 4 then RdOk ''hi'' else RdOk []), writable = (\<lambda>_. True)\<rparr>"

theorem select_iteration_serves_all_witness:
  "\<exists>s s'. sel_reach True 3 s \<and> select_server_iter 3 (client_env {3, 4} 5) s = Val (Ret s') \<and>
     echo_log s' = [(4, ''hi'')] \<and> close_log s' = [] \<and> set (connected s') = {4, 5}"
proof -
  let ?s0 = "sel_init_own 3" and ?e0 = "client_env {3} 4" and ?e1 = "client_env {3, 4} 5"
  have cl: "client ?s0 = (-1) # replicate 1023 (-1)"
    by (simp add: sel_init_own_def sel_init_def numeral_eq_Suc)
  have idle: "served e (client ?s0) = []" for e
    by (rule negative_tail) (simp add: sel_init_own_def sel_init_def)
  have "env_ok 3 ?e0 ?s0" "no_failures ?e0 (client ?s0)"
    by (simp add: env_ok_def client_env_def sel_init_own_def sel_init_def numeral_eq_Suc)
      (simp add: no_failures_def idle)
  define s1 where "s1 = note_client 4 0 (?s0\<lparr>client := (client ?s0)[0 := 4], allset := {4, 3}\<rparr>)"
  have it: "select_server_iter 3 ?e0 ?s0 = Val (Ret s1)"
    by (simp add: s1_def select_server_iter_def sel_iter_def sel_accept_own_def client_env_def select_count_def
        select_set_def FD_SET_def cl) (simp add: sel_init_own_def sel_init_def)
  have r0: "sel_reach True 3 ?s0" using sel_start [of 3 True] by simp
  have r1: "sel_reach True 3 s1"
    by (rule sel_step [OF r0 \<open>env_ok 3 ?e0 ?s0\<close> \<open>no_failures ?e0 (client ?s0)\<close>]) (simp add: it)
  have c1: "client s1 = 4 # replicate 1023 (-1)" by (simp add: s1_def note_client_def cl)
  have tail: "served ?e1 (replicate 1023 (-1)) = []" by (rule negative_tail) simp
  have "first_free (client s1) = 1" by (simp add: c1 numeral_eq_Suc)
  then have "env_ok 3 ?e1 s1"
    by (simp add: env_ok_def client_env_def s1_def note_client_def sel_init_own_def sel_init_def)
  moreover have "no_failures ?e1 (client s1)" "echoes ?e1 (client s1) = [(4, ''hi'')]" "closes ?e1 (client s1) = []"
    using idle_tail [OF tail] by (simp_all add: c1 no_failures_def tail) (simp_all add: client_env_def bytes_of_def)
  moreover have "connected s1 = [4]" "echo_log s1 = []" "close_log s1 = []" "3 \<in> rset ?e1" "accepted ?e1 = 5"
    by (simp_all add: connected_def c1) (simp_all add: s1_def note_client_def sel_init_own_def sel_init_def client_env_def)
  ultimately obtain s' where "select_server_iter 3 ?e1 s1 = Val (Ret s')" "echo_log s' = [(4, ''hi'')]"
    "close_log s' = []" "set (connected s') = {4, 5}"
    using select_iteration_serves_all [OF r1, of ?e1] by (auto simp: insert_commute)
  with r1 show ?thesis by blast
qed

text \<open>
  \<^verbatim>\<open>socket/select_server.c\<close> does not look at what \<^verbatim>\<open>accept\<close> returns: when it fails, the server puts the
  descriptor -1 into the set, which is undefined. The same happens in both servers with a descriptor of
  \<^verbatim>\<open>FD_SETSIZE\<close> or more, which a process allowed to open more descriptors can get before the array is full.
\<close>

theorem select_server_accept_undefined:
  assumes "listenfd \<in> rset env" and "select_ok env" and "accepted env < 0 \<or> int FD_SETSIZE \<le> accepted env"
  shows "select_server_iter listenfd env s = UB"
  using assms
  by (auto simp: select_server_iter_def sel_iter_def sel_accept_own_def FD_SET_def select_set_def Let_def)

theorem select_server_accept_undefined_witness:
  "select_server_iter 3 (client_env {3} (-1)) (sel_init_own 3) = UB"
proof -
  have "3 \<in> rset (client_env {3} (-1))" "select_ok (client_env {3} (-1))"
    "accepted (client_env {3} (-1)) < 0 \<or> int FD_SETSIZE \<le> accepted (client_env {3} (-1))"
    by (simp_all add: client_env_def)
  then show ?thesis by (rule select_server_accept_undefined)
qed

end
