(* ===== verification/Inet_Addr.thy ===== *)
theory Inet_Addr
  imports CPrelude
begin

text \<open>
  Internet addresses in text form: \<^verbatim>\<open>unpv13e/libfree/inet_pton.c\<close> and \<^verbatim>\<open>inet_ntop.c\<close> (the BIND routines, both
  families), \<^verbatim>\<open>inet_aton.c\<close>, the IPv4-only \<^verbatim>\<open>inet_pton_ipv4.c\<close> and \<^verbatim>\<open>inet_ntop_ipv4.c\<close>, and the Internet
  checksum \<^verbatim>\<open>in_cksum.c\<close>.

  A C string is the list of its characters before the terminating zero. Octets are natural numbers below
  256. The parsers return \<open>None\<close> where the code returns 0. The arrays \<^verbatim>\<open>tmp\<close> are lists updated by index;
  the index never leaves them because of the tests the code makes, which the lemmas use.
\<close>

unbundle bit_operations_syntax

section \<open>Digits\<close>

text \<open>\<^verbatim>\<open>strchr(digits, ch) - digits\<close>, and the same for the two strings of hexadecimal digits.\<close>

definition digit_of :: "char \<Rightarrow> nat option" where
  "digit_of ch = (let n = of_char ch in if 48 \<le> n \<and> n \<le> 57 then Some (n - 48) else None)"

definition xdigit_of :: "char \<Rightarrow> nat option" where
  "xdigit_of ch =
     (let n = of_char ch in
      if 48 \<le> n \<and> n \<le> 57 then Some (n - 48)
      else if 97 \<le> n \<and> n \<le> 102 then Some (n - 87)
      else if 65 \<le> n \<and> n \<le> 70 then Some (n - 55)
      else None)"

text \<open>\<^verbatim>\<open>sprintf\<close> with \<^verbatim>\<open>%u\<close> (base 10) and \<^verbatim>\<open>%x\<close> (base 16).\<close>

definition digit_char :: "nat \<Rightarrow> char" where
  "digit_char d = (if d < 10 then char_of (48 + d) else char_of (87 + d))"

function show_base :: "nat \<Rightarrow> nat \<Rightarrow> char list" where
  "show_base b n = (if b < 2 \<or> n < b then [digit_char n] else show_base b (n div b) @ [digit_char (n mod b)])"
  by pat_completeness auto
termination by (relation "measure snd") auto

declare show_base.simps [simp del]

lemma of_char_inj: "(of_char c :: nat) = of_char d \<longleftrightarrow> c = d"
  by (rule of_char_eq_iff)

lemma digit_of_digit_char [simp]: "d < 10 \<Longrightarrow> digit_of (digit_char d) = Some d"
  by (simp add: digit_of_def digit_char_def)

lemma xdigit_of_digit_char [simp]: "d < 16 \<Longrightarrow> xdigit_of (digit_char d) = Some d"
  by (simp add: xdigit_of_def digit_char_def)

lemma digit_of_char_digit: "digit_of c = Some d \<Longrightarrow> c = digit_char d \<and> d < 10"
  by (auto simp: digit_of_def digit_char_def Let_def split: if_splits)

lemma digit_imp_xdigit: "digit_of c = Some d \<Longrightarrow> xdigit_of c = Some d"
  by (auto simp: digit_of_def xdigit_of_def Let_def split: if_splits)

lemma separators [simp]:
  "digit_of (CHR ''.'') = None" "xdigit_of (CHR ''.'') = None" "xdigit_of (CHR '':'') = None"
  by (simp_all add: digit_of_def xdigit_of_def)

section \<open>IPv4\<close>

fun inet_pton4_loop :: "char list \<Rightarrow> bool \<Rightarrow> nat \<Rightarrow> nat \<Rightarrow> nat list \<Rightarrow> nat list option" where
  "inet_pton4_loop [] saw_digit octets tp tmp = (if octets < 4 then None else Some tmp)"
| "inet_pton4_loop (ch # src) saw_digit octets tp tmp =
     (case digit_of ch of
        Some d \<Rightarrow>
          let new = tmp ! tp * 10 + d in
          if new > 255 then None
          else let tmp' = tmp[tp := new] in
            if \<not> saw_digit then
              (if octets + 1 > 4 then None else inet_pton4_loop src True (octets + 1) tp tmp')
            else inet_pton4_loop src saw_digit octets tp tmp'
      | None \<Rightarrow>
          if ch = CHR ''.'' \<and> saw_digit then
            (if octets = 4 then None else inet_pton4_loop src False octets (tp + 1) (tmp[tp + 1 := 0]))
          else None)"

text \<open>\<open>junk\<close> is the uninitialised array \<^verbatim>\<open>tmp\<close>, of which the first element is set to 0 before the loop.\<close>

definition inet_pton4 :: "nat list \<Rightarrow> char list \<Rightarrow> nat list option" where
  "inet_pton4 junk src = inet_pton4_loop src False 0 0 (junk[0 := 0])"

definition show_quad :: "nat list \<Rightarrow> char list" where
  "show_quad src = show_base 10 (src ! 0) @ CHR ''.'' # show_base 10 (src ! 1) @ CHR ''.'' #
     show_base 10 (src ! 2) @ CHR ''.'' # show_base 10 (src ! 3)"

definition inet_ntop4 :: "nat list \<Rightarrow> nat \<Rightarrow> errno + char list" where
  "inet_ntop4 src sz = (let tmp = show_quad src in if length tmp > sz then Inl ENOSPC else Inr tmp)"

text \<open>
  What a dotted quad is: four runs of decimal digits, none empty, none above 255, separated by dots.
\<close>

definition is_digit :: "char \<Rightarrow> bool" where
  "is_digit c \<longleftrightarrow> digit_of c \<noteq> None"

definition dec_value :: "char list \<Rightarrow> nat" where
  "dec_value ds = foldl (\<lambda>v c. v * 10 + the (digit_of c)) 0 ds"

definition octet_text :: "char list \<Rightarrow> bool" where
  "octet_text ds \<longleftrightarrow> ds \<noteq> [] \<and> list_all is_digit ds \<and> dec_value ds \<le> 255"

definition dotted :: "char list list \<Rightarrow> char list" where
  "dotted os = (case os of [] \<Rightarrow> [] | o1 # rest \<Rightarrow> o1 @ concat (map (\<lambda>x. CHR ''.'' # x) rest))"

lemma foldl_dec_mono: "v \<le> foldl (\<lambda>v c. v * 10 + the (digit_of c)) v ds"
proof (induction ds arbitrary: v)
  case (Cons c ds)
  have "v \<le> v * 10 + the (digit_of c)" by simp
  with Cons.IH [of "v * 10 + the (digit_of c)"] show ?case by (simp only: foldl_Cons)
qed simp

text \<open>A run of digits, once the first has been counted, accumulates into the current octet.\<close>

lemma pton4_digits:
  assumes "list_all is_digit ds" and "tp < length tmp"
  shows "inet_pton4_loop (ds @ src) True octets tp tmp =
    (let v = foldl (\<lambda>v c. v * 10 + the (digit_of c)) (tmp ! tp) ds in
     if v \<le> 255 \<or> ds = [] then inet_pton4_loop src True octets tp (tmp[tp := v]) else None)"
  using assms
proof (induction ds arbitrary: tmp)
  case (Cons c ds)
  from Cons.prems(1) obtain d where d: "digit_of c = Some d" by (auto simp: is_digit_def)
  let ?v = "tmp ! tp * 10 + d"
  note mono = foldl_dec_mono [of ?v ds]
  from Cons.IH [of "tmp[tp := ?v]"] Cons.prems d mono show ?case
    by (auto simp: Let_def)
qed simp

lemma pton4_octet:
  assumes "list_all is_digit ds" and "ds \<noteq> []" and "k < 4" and "length tmp = 4" and "tmp ! k = 0"
  shows "inet_pton4_loop (ds @ src) False k k tmp =
    (if dec_value ds \<le> 255 then inet_pton4_loop src True (Suc k) k (tmp[k := dec_value ds]) else None)"
proof -
  from assms(1,2) obtain c ds' d where ds: "ds = c # ds'" and d: "digit_of c = Some d"
    by (cases ds) (auto simp: is_digit_def)
  from digit_of_char_digit [OF d] have "d \<le> 255" by simp
  moreover have "dec_value ds = foldl (\<lambda>v c. v * 10 + the (digit_of c)) d ds'"
    using ds d by (simp add: dec_value_def)
  moreover have "list_all is_digit ds'" using assms(1) ds by simp
  ultimately show ?thesis
    using ds d assms pton4_digits [of ds' k "tmp[k := d]" src "Suc k"] by (auto simp: Let_def)
qed

text \<open>The reference parser: \<open>n\<close> more octets.\<close>

fun quad :: "nat \<Rightarrow> char list \<Rightarrow> nat list option" where
  "quad 0 src = None"
| "quad (Suc n) src =
     (let ds = takeWhile is_digit src; rest = dropWhile is_digit src in
      if ds = [] \<or> dec_value ds > 255 then None
      else if n = 0 then (if rest = [] then Some [dec_value ds] else None)
      else case rest of
        [] \<Rightarrow> None
      | c # src' \<Rightarrow> if c = CHR ''.'' then map_option (Cons (dec_value ds)) (quad n src') else None)"

lemma list_all_takeWhile: "list_all P (takeWhile P xs)"
  by (induction xs) auto

lemma pton4_loop_quad:
  assumes "k < 4" and "length tmp = 4" and "tmp ! k = 0"
  shows "inet_pton4_loop src False k k tmp = map_option (\<lambda>vs. take k tmp @ vs) (quad (4 - k) src)"
  using assms
proof (induction "4 - k" arbitrary: k src tmp)
  case (Suc n)
  define ds where "ds = takeWhile is_digit src"
  define rest where "rest = dropWhile is_digit src"
  have src: "src = ds @ rest" by (simp add: ds_def rest_def)
  have "list_all is_digit ds" unfolding ds_def by (rule list_all_takeWhile)
  with pton4_octet [of ds k tmp rest] Suc.prems have octet: "ds \<noteq> [] \<Longrightarrow>
      inet_pton4_loop src False k k tmp =
      (if dec_value ds \<le> 255 then inet_pton4_loop rest True (Suc k) k (tmp[k := dec_value ds]) else None)"
    unfolding src [symmetric] by blast
  have quad: "quad (4 - k) src = (if ds = [] \<or> dec_value ds > 255 then None
      else if n = 0 then (if rest = [] then Some [dec_value ds] else None)
      else case rest of [] \<Rightarrow> None
        | c # src' \<Rightarrow> if c = CHR ''.'' then map_option (Cons (dec_value ds)) (quad n src') else None)"
    unfolding Suc.hyps(2) [symmetric] by (simp only: quad.simps Let_def ds_def rest_def)
  have rest: "rest = [] \<or> (\<exists>c r. rest = c # r \<and> digit_of c = None)"
  proof (cases rest)
    case (Cons c r)
    then have "\<not> is_digit c" by (simp add: rest_def dropWhile_eq_Cons_conv)
    with Cons show ?thesis by (simp add: is_digit_def)
  qed simp
  show ?case
  proof (cases "ds = [] \<or> dec_value ds > 255")
    case True
    with quad have none: "quad (4 - k) src = None" by simp
    show ?thesis
    proof (cases "ds = []")
      case True
      with src rest Suc.prems(1) show ?thesis unfolding none by auto
    next
      case False
      with True octet show ?thesis unfolding none by simp
    qed
  next
    case False
    define tmp' where "tmp' = tmp[k := dec_value ds]"
    from False octet have loop: "inet_pton4_loop src False k k tmp = inet_pton4_loop rest True (Suc k) k tmp'"
      by (simp add: tmp'_def)
    have tk: "take (Suc k) tmp' = take k tmp @ [dec_value ds]"
      using Suc.prems by (simp add: tmp'_def take_Suc_conv_app_nth)
    show ?thesis
    proof (cases rest)
      case Nil
      with loop quad False Suc.prems Suc.hyps(2) tk show ?thesis
        by (auto simp: tmp'_def)
    next
      case (Cons c r)
      with rest have nd: "digit_of c = None" by auto
      show ?thesis
      proof (cases "n = 0 \<or> c \<noteq> CHR ''.''")
        case True
        with loop quad False Cons nd Suc.hyps(2) show ?thesis by auto
      next
        case dot: False
        with Suc.hyps(2) have k: "n = 4 - Suc k" "Suc k < 4" by auto
        with Suc.hyps(1) [OF k(1) k(2), of "tmp'[Suc k := 0]" r] loop quad False Cons nd dot Suc.prems tk
        show ?thesis by (cases "quad (3 - k) r") (auto simp: tmp'_def)
      qed
    qed
  qed
qed simp

lemma dotted_Cons: "os \<noteq> [] \<Longrightarrow> dotted (x # os) = x @ CHR ''.'' # dotted os"
  by (cases os) (simp_all add: dotted_def)

lemma quad_dotted:
  "quad n src = Some vs \<longleftrightarrow>
     (\<exists>os. length os = n \<and> n \<noteq> 0 \<and> list_all octet_text os \<and> src = dotted os \<and> vs = map dec_value os)"
proof (induction n arbitrary: src vs)
  case (Suc n)
  let ?ds = "takeWhile is_digit src" and ?rest = "dropWhile is_digit src"
  show ?case
  proof
    assume q: "quad (Suc n) src = Some vs"
    then have ds: "octet_text ?ds"
      by (auto simp: octet_text_def list_all_takeWhile Let_def simp del: takeWhile_eq_Nil_iff split: if_splits)
    show "\<exists>os. length os = Suc n \<and> Suc n \<noteq> 0 \<and> list_all octet_text os \<and> src = dotted os \<and> vs = map dec_value os"
    proof (cases "n = 0")
      case True
      with q have "?rest = []" "vs = [dec_value ?ds]" by (auto simp: Let_def split: if_splits)
      moreover have "src = ?ds" using calculation(1) takeWhile_dropWhile_id [of is_digit src] by (metis append_Nil2)
      ultimately show ?thesis using ds True
        by (intro exI [of _ "[?ds]"]) (simp add: dotted_def)
    next
      case False
      with q obtain r ws where r: "?rest = CHR ''.'' # r" "quad n r = Some ws" "vs = dec_value ?ds # ws"
        by (auto simp: Let_def split: if_splits list.splits)
      with Suc.IH obtain os where os: "length os = n" "list_all octet_text os" "r = dotted os"
        "ws = map dec_value os" by blast
      have "src = ?ds @ CHR ''.'' # dotted os"
        using r(1) os(3) takeWhile_dropWhile_id [of is_digit src] by simp
      with os r(3) ds False show ?thesis
        by (intro exI [of _ "?ds # os"]) (auto simp: dotted_Cons)
    qed
  next
    assume "\<exists>os. length os = Suc n \<and> Suc n \<noteq> 0 \<and> list_all octet_text os \<and> src = dotted os \<and> vs = map dec_value os"
    then obtain x os where os: "length os = n" "octet_text x" "list_all octet_text os" "src = dotted (x # os)"
      "vs = map dec_value (x # os)" by (auto simp: length_Suc_conv)
    from os(2) have x: "\<forall>c\<in>set x. is_digit c" "x \<noteq> []" "dec_value x \<le> 255"
      by (auto simp: octet_text_def list_all_iff)
    have dot: "\<not> is_digit (CHR ''.'')" by (simp add: is_digit_def)
    show "quad (Suc n) src = Some vs"
    proof (cases "n = 0")
      case True
      have tw: "takeWhile is_digit x = x" using x(1) by (simp add: takeWhile_eq_all_conv)
      from os x True show ?thesis by (simp add: dotted_def Let_def tw)
    next
      case False
      with os(1) have "os \<noteq> []" by auto
      with os x dot have "takeWhile is_digit src = x" "dropWhile is_digit src = CHR ''.'' # dotted os"
        by (simp_all add: dotted_Cons)
      moreover from Suc.IH [of "dotted os" "map dec_value os"] os False
      have "quad n (dotted os) = Some (map dec_value os)" by blast
      ultimately show ?thesis using x False os(5) by (simp add: Let_def del: takeWhile_eq_Nil_iff)
    qed
  qed
qed simp

lemma inet_pton4_quad: "length junk = 4 \<Longrightarrow> inet_pton4 junk src = quad 4 src"
  using pton4_loop_quad [of 0 "junk[0 := 0]" src] by (cases "quad 4 src") (auto simp: inet_pton4_def)

lemma dec_value_show:
  "list_all is_digit (show_base 10 n) \<and> dec_value (show_base 10 n) = n \<and> show_base 10 n \<noteq> []"
proof (induction "10 :: nat" n rule: show_base.induct)
  case (1 n)
  then show ?case
    by (subst (1 2 3) show_base.simps) (auto simp: is_digit_def dec_value_def list_all_iff)
qed

lemma length_show_base: "2 \<le> b \<Longrightarrow> n < b ^ Suc k \<Longrightarrow> length (show_base b n) \<le> Suc k"
proof (induction k arbitrary: n)
  case 0
  then show ?case by (simp add: show_base.simps)
next
  case (Suc k)
  have "n div b < b ^ Suc k" using Suc.prems by (simp add: less_mult_imp_div_less mult.commute)
  from Suc.IH [OF Suc.prems(1) this] show ?case by (subst show_base.simps) simp
qed

lemma octet_text_show:
  assumes "v < 256"
  shows "octet_text (show_base 10 v) \<and> dec_value (show_base 10 v) = v"
  using dec_value_show [of v] assms by (simp add: octet_text_def)

lemma show_quad_dotted:
  "length bs = 4 \<Longrightarrow> show_quad bs = dotted (map (show_base 10) bs)"
  by (cases bs; cases "tl bs"; cases "tl (tl bs)"; cases "tl (tl (tl bs))")
    (auto simp: show_quad_def dotted_def)

lemma inet_pton4_show_quad:
  assumes "length bs = 4" and "\<forall>b\<in>set bs. b < 256" and "length junk = 4"
  shows "inet_pton4 junk (show_quad bs) = Some bs"
proof -
  have "list_all octet_text (map (show_base 10) bs)" "map dec_value (map (show_base 10) bs) = bs"
    using assms(2) octet_text_show by (auto simp: list_all_iff map_idI)
  then have "quad 4 (show_quad bs) = Some bs"
    unfolding quad_dotted show_quad_dotted [OF assms(1)] using assms(1) by (metis length_map zero_neq_numeral)
  with assms(3) show ?thesis by (simp add: inet_pton4_quad)
qed

section \<open>inet_aton.c and the IPv4-only routines\<close>

text \<open>
  \<^verbatim>\<open>acc\<close> and \<^verbatim>\<open>addr\<close> are \<^verbatim>\<open>u_long\<close> (64 bits, wrapping around), and only the low 32 bits of \<^verbatim>\<open>addr\<close> reach
  \<^verbatim>\<open>htonl\<close>. The loop body is run on the terminating zero too.
\<close>

fun inet_aton_loop :: "char list \<Rightarrow> nat \<Rightarrow> u64 \<Rightarrow> u64 \<Rightarrow> (nat \<times> u64) option" where
  "inet_aton_loop [] dots acc addr =
     (if acc > 255 then None else Some (dots, push_bit 8 addr OR acc))"
| "inet_aton_loop (cc # cp) dots acc addr =
     (case digit_of cc of
        Some d \<Rightarrow> inet_aton_loop cp dots (acc * 10 + of_nat d) addr
      | None \<Rightarrow>
          if cc = CHR ''.'' then
            (if dots + 1 > 3 \<or> acc > 255 then None
             else inet_aton_loop cp (dots + 1) 0 (push_bit 8 addr OR acc))
          else None)"

definition inet_aton :: "char list \<Rightarrow> u32 option" where
  "inet_aton cp =
     map_option (\<lambda>(dots, addr). ucast (if dots < 3 then push_bit (8 * (3 - dots)) addr else addr))
       (inet_aton_loop cp 0 0 0)"

text \<open>The octets \<^verbatim>\<open>htonl\<close> puts into memory, most significant first.\<close>

definition octets_of :: "u32 \<Rightarrow> nat list" where
  "octets_of a = [unat (drop_bit 24 a), unat (drop_bit 16 a AND 255), unat (drop_bit 8 a AND 255), unat (a AND 255)]"

definition AF_INET :: int where
  "AF_INET = 2"

definition AF_INET6 :: int where
  "AF_INET6 = 10"

text \<open>The result \<^verbatim>\<open>-1\<close> with its \<open>errno\<close>, or 0, or 1 with the bytes stored through the pointer.\<close>

definition inet_pton_ipv4 :: "int \<Rightarrow> char list \<Rightarrow> errno + nat list option" where
  "inet_pton_ipv4 family strptr =
     (if family = AF_INET then Inr (map_option octets_of (inet_aton strptr)) else Inl EAFNOSUPPORT)"

definition inet_ntop_ipv4 :: "int \<Rightarrow> nat list \<Rightarrow> nat \<Rightarrow> errno + char list" where
  "inet_ntop_ipv4 family p len =
     (if family = AF_INET then
        (let temp = show_quad p in if length temp \<ge> len then Inl ENOSPC else Inr temp)
      else Inl EAFNOSUPPORT)"

section \<open>in_cksum.c\<close>

text \<open>
  The data is a list of 16-bit words in the host's order and possibly one odd byte at the end, which the
  code stores into the first byte of a zeroed \<^verbatim>\<open>uint16_t\<close> (the low one on a little-endian host).
\<close>

definition fold_carries :: "u32 \<Rightarrow> u32" where
  "fold_carries sm = (let s1 = drop_bit 16 sm + (sm AND 65535) in s1 + drop_bit 16 s1)"

definition in_cksum :: "u16 list \<Rightarrow> u8 option \<Rightarrow> u16" where
  "in_cksum addr last_byte =
     (let sm = foldl (\<lambda>s w. s + ucast w) 0 addr;
          sm' = (case last_byte of None \<Rightarrow> sm | Some b \<Rightarrow> sm + ucast b)
      in NOT (ucast (fold_carries sm')))"

text \<open>The same on natural numbers.\<close>

definition fold_nat :: "nat \<Rightarrow> nat" where
  "fold_nat sm = (let s1 = sm div 65536 + sm mod 65536 in (s1 + s1 div 65536) mod 65536)"

lemma fold_nat_bounds: "fold_nat sm < 65536"
  by (simp add: fold_nat_def Let_def)

lemma fold_nat_mod:
  assumes "sm < 2 ^ 32"
  shows "fold_nat sm mod 65535 = sm mod 65535" and "fold_nat sm = 0 \<longleftrightarrow> sm = 0"
proof -
  define q r where "q = sm div 65536" and "r = sm mod 65536"
  have sm: "sm = q * 65535 + (q + r)" by (simp add: q_def r_def)
  have q: "q \<le> 65535" "r \<le> 65535" using assms by (simp_all add: q_def r_def)
  have f: "fold_nat sm = (if q + r < 65536 then q + r else q + r - 65535)"
  proof (cases "q + r < 65536")
    case True
    then show ?thesis by (simp add: fold_nat_def Let_def q_def [symmetric] r_def [symmetric])
  next
    case False
    with q have "(q + r) div 65536 = 1" by simp
    moreover have "(q + r + 1) mod 65536 = q + r - 65535"
      using False q by (simp add: mod_if)
    ultimately show ?thesis using False by (simp add: fold_nat_def Let_def q_def [symmetric] r_def [symmetric])
  qed
  have "(q + r) mod 65535 = fold_nat sm mod 65535"
    using f by (simp add: le_mod_geq)
  moreover have "sm mod 65535 = (q + r) mod 65535" using sm by (metis mod_mult_self3)
  ultimately show "fold_nat sm mod 65535 = sm mod 65535" by simp
  show "fold_nat sm = 0 \<longleftrightarrow> sm = 0" using f q sm by auto
qed

lemma fold_nat_complement:
  assumes "sm < 2 ^ 32" and "sm + c < 2 ^ 32" and "c = 65535 - fold_nat sm"
  shows "fold_nat (sm + c) = 65535"
proof -
  have le: "fold_nat sm \<le> 65535" using fold_nat_bounds [of sm] by simp
  have "(sm + c) mod 65535 = (fold_nat sm + c) mod 65535"
    using fold_nat_mod(1) [OF assms(1)] by (metis mod_add_left_eq)
  also have "\<dots> = 0" using le assms(3) by simp
  finally have "fold_nat (sm + c) mod 65535 = 0" using fold_nat_mod(1) [OF assms(2)] by simp
  moreover have "fold_nat (sm + c) \<noteq> 0"
    using assms(3) fold_nat_mod(2) [OF assms(1)] fold_nat_mod(2) [OF assms(2)] by auto
  ultimately show ?thesis
    using fold_nat_bounds [of "sm + c"] mod_less [of "fold_nat (sm + c)" 65535]
    by (cases "fold_nat (sm + c) < 65535") auto
qed

lemma unat_fold_carries: "unat (ucast (fold_carries sm) :: u16) = fold_nat (unat sm)"
proof -
  have m: "sm AND 65535 = take_bit 16 sm" by (simp add: take_bit_eq_mask mask_eq_exp_minus_1)
  let ?s1 = "drop_bit 16 sm + take_bit 16 sm"
  have "unat sm < 2 ^ LENGTH(32)" by (rule unsigned_less)
  then have "unat sm div 65536 < 65536" by simp
  then have s1: "unat ?s1 = unat sm div 65536 + unat sm mod 65536"
    by (simp add: unat_word_ariths unat_drop_bit_eq unsigned_take_bit_eq drop_bit_eq_div take_bit_eq_mod)
  have "unat u \<le> 131070 \<Longrightarrow> unat (u + drop_bit 16 u) = unat u + unat u div 65536" for u :: u32
    by (simp add: unat_word_ariths unat_drop_bit_eq drop_bit_eq_div)
  from this [of ?s1] s1 \<open>unat sm div 65536 < 65536\<close>
  have "unat (?s1 + drop_bit 16 ?s1) = unat ?s1 + unat ?s1 div 65536" by simp
  with s1 show ?thesis
    by (simp add: fold_carries_def m fold_nat_def Let_def unsigned_ucast_eq take_bit_eq_mod)
qed

text \<open>The sum of the words, which 65537 words cannot make overflow.\<close>

definition word_sum :: "u16 list \<Rightarrow> nat" where
  "word_sum ws = sum_list (map unat ws)"

lemma word_sum_bound: "word_sum ws \<le> 65535 * length ws"
proof (induction ws)
  case (Cons w ws)
  have "unat w < 2 ^ LENGTH(16)" by (rule unsigned_less)
  with Cons show ?case by (simp add: word_sum_def)
qed (simp add: word_sum_def)

lemma foldl_word_sum:
  "unat a + word_sum ws < 2 ^ 32 \<Longrightarrow> unat (foldl (\<lambda>s w. s + ucast w) a ws :: u32) = unat a + word_sum ws"
proof (induction ws arbitrary: a)
  case (Cons w ws)
  then have "unat (a + ucast w :: u32) = unat a + unat w"
    by (simp add: word_sum_def unat_word_ariths unsigned_ucast_eq take_bit_eq_mod)
  with Cons show ?case by (simp add: word_sum_def)
qed (simp add: word_sum_def)

definition byte_value :: "u8 option \<Rightarrow> nat" where
  "byte_value last_byte = (case last_byte of None \<Rightarrow> 0 | Some b \<Rightarrow> unat b)"

lemma byte_value_bound: "byte_value last_byte < 256"
proof (cases last_byte)
  case (Some x)
  have "unat x < 2 ^ LENGTH(8)" by (rule unsigned_less)
  with Some show ?thesis by (simp add: byte_value_def)
qed (simp add: byte_value_def)

lemma unat_in_cksum:
  assumes "length addr \<le> 65536"
  shows "unat (in_cksum addr last_byte) = 65535 - fold_nat (word_sum addr + byte_value last_byte)"
proof -
  note b = byte_value_bound [of last_byte]
  have small: "word_sum addr + 256 < 2 ^ 32" using word_sum_bound [of addr] assms by simp
  let ?s = "foldl (\<lambda>s w. s + ucast w) 0 addr :: u32"
  have s: "unat ?s = word_sum addr" using foldl_word_sum [of 0 addr] small by simp
  define sm where "sm = (case last_byte of None \<Rightarrow> ?s | Some b \<Rightarrow> ?s + ucast b)"
  have "unat sm = word_sum addr + byte_value last_byte"
    using s b small
    by (auto simp: sm_def byte_value_def unat_word_ariths unsigned_ucast_eq take_bit_eq_mod split: option.splits)
  moreover have "in_cksum addr last_byte = NOT (ucast (fold_carries sm))"
    by (simp add: in_cksum_def sm_def Let_def)
  moreover have "unat (NOT x) = 65535 - unat x" for x :: u16
  proof -
    have "NOT x = - 1 - x" by (simp add: not_eq_complement)
    moreover have "x \<le> - 1" by simp
    moreover have "unat (- 1 :: u16) = 65535" by (simp add: unsigned_minus_1_eq_mask mask_eq_exp_minus_1)
    ultimately show ?thesis by (simp only: unat_sub)
  qed
  ultimately show ?thesis by (simp add: unat_fold_carries)
qed

section \<open>Properties\<close>

text \<open>
  The Internet checksum verifies: put the checksum of a packet, computed while its checksum field is
  zero, into that field, and \<^verbatim>\<open>in_cksum\<close> of the whole packet is 0. This holds for every packet of at most
  65536 words, wherever the field is, with or without an odd byte at the end; the 32-bit accumulator does
  not overflow and two additions are enough to fold all carries back.
\<close>

theorem in_cksum_verifies:
  assumes "length (pre @ 0 # post) \<le> 65536"
  shows "in_cksum (pre @ in_cksum (pre @ 0 # post) last_byte # post) last_byte = 0"
proof -
  let ?s = "word_sum (pre @ 0 # post) + byte_value last_byte"
  let ?c = "in_cksum (pre @ 0 # post) last_byte"
  have len: "length (pre @ ?c # post) \<le> 65536" using assms by simp
  have b: "byte_value last_byte < 256" by (rule byte_value_bound)
  have "word_sum (pre @ 0 # post) \<le> 65535 * 65536"
    using word_sum_bound [of "pre @ 0 # post"] assms by linarith
  with b have small: "?s < 2 ^ 32" by simp
  have c: "unat ?c = 65535 - fold_nat ?s" by (rule unat_in_cksum [OF assms])
  have s': "word_sum (pre @ ?c # post) + byte_value last_byte = ?s + unat ?c"
    by (simp add: word_sum_def)
  have "word_sum (pre @ ?c # post) \<le> 65535 * 65536"
    using word_sum_bound [of "pre @ ?c # post"] len by linarith
  with b s' have small': "?s + unat ?c < 2 ^ 32" by simp
  have "fold_nat (?s + unat ?c) = 65535"
    using small small' c by (rule fold_nat_complement)
  with unat_in_cksum [OF len] s' show ?thesis by (metis diff_self_eq_0 unat_eq_zero)
qed

theorem in_cksum_verifies_witness:
  "in_cksum ([0x4500, 0x0054, 0xffff] @ in_cksum ([0x4500, 0x0054, 0xffff] @ 0 # [0xc0a8]) (Some 7) # [0xc0a8]) (Some 7) = 0"
proof -
  have "length ([0x4500, 0x0054, 0xffff] @ (0 :: u16) # [0xc0a8]) \<le> 65536" by simp
  then show ?thesis by (rule in_cksum_verifies)
qed

text \<open>
  \<^verbatim>\<open>inet_aton\<close> lets its accumulator wrap around before it compares it with 255, and it does not ask for
  digits at all: a number above \<open>2 ^ 64\<close> is read as a small octet, and the empty string is the address
  0.0.0.0. \<^verbatim>\<open>inet_pton4\<close> rejects both.
\<close>

theorem inet_aton_accepts_garbage:
  "inet_aton ''18446744073709551617.2.3.4'' = Some 0x01020304 \<and> inet_aton [] = Some 0 \<and>
   inet_pton4 [0, 0, 0, 0] ''18446744073709551617.2.3.4'' = None \<and> inet_pton4 [0, 0, 0, 0] [] = None"
  by (simp add: inet_aton_def inet_pton4_def digit_of_def)

end
