(* ===== verification/Inet6_Addr.thy ===== *)
theory Inet6_Addr
  imports Inet_Addr
begin

text \<open>
  The IPv6 half of \<^verbatim>\<open>unpv13e/libfree/inet_pton.c\<close> and \<^verbatim>\<open>inet_ntop.c\<close>, and the two entry points that choose
  the family. An address is the list of its 16 octets.
\<close>

section \<open>inet_pton6\<close>

text \<open>
  \<open>tp\<close> and \<open>colonp\<close> are offsets into \<^verbatim>\<open>tmp\<close>; \<open>curtok\<close> is the text from the last colon on, which \<^verbatim>\<open>inet_pton4\<close>
  reads again when a dot turns up. \<open>val\<close> stays below \<open>2 ^ 16\<close>, so the shift does not overflow.
\<close>

fun inet_pton6_loop ::
    "nat list \<Rightarrow> char list \<Rightarrow> char list \<Rightarrow> nat \<Rightarrow> nat list \<Rightarrow> nat option \<Rightarrow> nat \<Rightarrow> bool
      \<Rightarrow> (nat \<times> nat list \<times> nat option \<times> nat \<times> bool) option" where
  "inet_pton6_loop junk [] curtok tp tmp colonp val saw_xdigit = Some (tp, tmp, colonp, val, saw_xdigit)"
| "inet_pton6_loop junk (ch # src) curtok tp tmp colonp val saw_xdigit =
     (case xdigit_of ch of
        Some d \<Rightarrow>
          let val' = val * 16 + d in
          if val' > 65535 then None else inet_pton6_loop junk src curtok tp tmp colonp val' True
      | None \<Rightarrow>
          if ch = CHR '':'' then
            (if \<not> saw_xdigit then
               (if colonp \<noteq> None then None
                else inet_pton6_loop junk src src tp tmp (Some tp) val saw_xdigit)
             else if tp + 2 > 16 then None
             else inet_pton6_loop junk src src (tp + 2)
               (tmp[tp := val div 256 mod 256, tp + 1 := val mod 256]) colonp 0 False)
          else if ch = CHR ''.'' \<and> tp + 4 \<le> 16 then
            (case inet_pton4 junk curtok of
               None \<Rightarrow> None
             | Some bs \<Rightarrow> Some (tp + 4, take tp tmp @ bs @ drop (tp + 4) tmp, colonp, val, False))
          else None)"

text \<open>The shift of the bytes after a double colon to the end of the array, one byte at a time.\<close>

function colon_shift :: "nat \<Rightarrow> nat \<Rightarrow> nat \<Rightarrow> nat list \<Rightarrow> nat list" where
  "colon_shift i n colonp tmp =
     (if i \<le> n then
        (let tmp' = tmp[16 - i := tmp ! (colonp + n - i)] in
         colon_shift (i + 1) n colonp (tmp'[colonp + n - i := 0]))
      else tmp)"
  by pat_completeness auto
termination by (relation "measure (\<lambda>(i, n, c, t). n + 1 - i)") auto

declare colon_shift.simps [simp del]

definition inet_pton6_finish :: "nat \<times> nat list \<times> nat option \<times> nat \<times> bool \<Rightarrow> nat list option" where
  "inet_pton6_finish st =
     (case st of (tp, tmp, colonp, val, saw_xdigit) \<Rightarrow>
        if saw_xdigit \<and> tp + 2 > 16 then None
        else
          let (tp1, tmp1) = (if saw_xdigit then (tp + 2, tmp[tp := val div 256 mod 256, tp + 1 := val mod 256])
                             else (tp, tmp));
              (tp2, tmp2) = (case colonp of
                               None \<Rightarrow> (tp1, tmp1)
                             | Some c \<Rightarrow> (16, colon_shift 1 (tp1 - c) c tmp1))
          in if tp2 \<noteq> 16 then None else Some tmp2)"

definition inet_pton6 :: "nat list \<Rightarrow> char list \<Rightarrow> nat list option" where
  "inet_pton6 junk src =
     (let start = (case src of
                     c # src' \<Rightarrow> if c = CHR '':'' then (if src' \<noteq> [] \<and> hd src' = CHR '':'' then Some src' else None)
                                else Some src
                   | [] \<Rightarrow> Some [])
      in case start of
           None \<Rightarrow> None
         | Some s \<Rightarrow>
             (case inet_pton6_loop junk s s 0 (replicate 16 0) None 0 False of
                None \<Rightarrow> None
              | Some st \<Rightarrow> inet_pton6_finish st))"

section \<open>inet_ntop6\<close>

definition words_of :: "nat list \<Rightarrow> nat list" where
  "words_of src = map (\<lambda>j. src ! (2 * j) * 256 + src ! (2 * j + 1)) [0..<8]"

text \<open>A run of zero words is its base (-1 for none) and its length.\<close>

fun best_loop :: "nat list \<Rightarrow> int \<Rightarrow> int \<times> int \<Rightarrow> int \<times> int \<Rightarrow> (int \<times> int) \<times> (int \<times> int)" where
  "best_loop [] i best cur = (best, cur)"
| "best_loop (w # ws) i best cur =
     (if w = 0 then
        (if fst cur = -1 then best_loop ws (i + 1) best (i, 1)
         else best_loop ws (i + 1) best (fst cur, snd cur + 1))
      else if fst cur \<noteq> -1 then
        best_loop ws (i + 1) (if fst best = -1 \<or> snd cur > snd best then cur else best) (-1, snd cur)
      else best_loop ws (i + 1) best cur)"

definition best_run :: "nat list \<Rightarrow> int \<times> int" where
  "best_run ws =
     (let (best, cur) = best_loop ws 0 (-1, 0) (-1, 0);
          best' = (if fst cur \<noteq> -1 \<and> (fst best = -1 \<or> snd cur > snd best) then cur else best)
      in if fst best' \<noteq> -1 \<and> snd best' < 2 then (-1, snd best') else best')"

text \<open>
  \<open>tp\<close> is the text written so far. The buffer \<^verbatim>\<open>tmp\<close> has 46 bytes.
\<close>

function fmt6_loop :: "nat list \<Rightarrow> nat list \<Rightarrow> int \<times> int \<Rightarrow> nat \<Rightarrow> char list \<Rightarrow> (errno + char list)" where
  "fmt6_loop src ws best i tp =
     (if i < 8 then
        (if fst best \<noteq> -1 \<and> int i \<ge> fst best \<and> int i < fst best + snd best then
           fmt6_loop src ws best (i + 1) (if int i = fst best then tp @ '':'' else tp)
         else
           let tp1 = (if i \<noteq> 0 then tp @ '':'' else tp) in
           if i = 6 \<and> fst best = 0 \<and> (snd best = 6 \<or> (snd best = 5 \<and> ws ! 5 = 65535)) then
             (case inet_ntop4 (drop 12 src) (46 - length tp1) of
                Inl e \<Rightarrow> Inl e
              | Inr q \<Rightarrow> Inr (tp1 @ q))
           else fmt6_loop src ws best (i + 1) (tp1 @ show_base 16 (ws ! i)))
      else Inr tp)"
  by pat_completeness auto
termination by (relation "measure (\<lambda>(src, ws, best, i, tp). 8 - i)") auto

declare fmt6_loop.simps [simp del]

definition inet_ntop6_text :: "nat list \<Rightarrow> errno + char list" where
  "inet_ntop6_text src =
     (let ws = words_of src; best = best_run ws in
      case fmt6_loop src ws best 0 [] of
        Inl e \<Rightarrow> Inl e
      | Inr tp \<Rightarrow> Inr (if fst best \<noteq> -1 \<and> fst best + snd best = 8 then tp @ '':'' else tp))"

definition inet_ntop6 :: "nat list \<Rightarrow> nat \<Rightarrow> errno + char list" where
  "inet_ntop6 src sz =
     (case inet_ntop6_text src of
        Inl e \<Rightarrow> Inl e
      | Inr text \<Rightarrow> if length text + 1 > sz then Inl ENOSPC else Inr text)"

section \<open>The entry points\<close>

definition inet_pton :: "nat list \<Rightarrow> int \<Rightarrow> char list \<Rightarrow> errno + nat list option" where
  "inet_pton junk af src =
     (if af = AF_INET then Inr (inet_pton4 junk src)
      else if af = AF_INET6 then Inr (inet_pton6 junk src)
      else Inl EAFNOSUPPORT)"

definition inet_ntop :: "int \<Rightarrow> nat list \<Rightarrow> nat \<Rightarrow> errno + char list" where
  "inet_ntop af src sz =
     (if af = AF_INET then inet_ntop4 src sz
      else if af = AF_INET6 then inet_ntop6 src sz
      else Inl EAFNOSUPPORT)"

section \<open>The run of zeros\<close>

text \<open>The choice of the run depends only on which words are zero.\<close>

definition zero_mask :: "nat list \<Rightarrow> nat list" where
  "zero_mask ws = map (\<lambda>w. if w = 0 then 0 else 1) ws"

lemma best_loop_mask: "best_loop (zero_mask ws) i best cur = best_loop ws i best cur"
  by (induction ws i best cur rule: best_loop.induct) (simp_all add: zero_mask_def)

lemma best_run_mask: "best_run (zero_mask ws) = best_run ws"
  by (simp add: best_run_def best_loop_mask)

text \<open>A run inside the eight words, of length at least two, all zero.\<close>

definition zero_run :: "nat list \<Rightarrow> int \<times> int \<Rightarrow> bool" where
  "zero_run ws r \<longleftrightarrow> 0 \<le> fst r \<and> 2 \<le> snd r \<and> fst r + snd r \<le> 8 \<and>
     list_all (\<lambda>j. ws ! j = 0) [nat (fst r)..<nat (fst r + snd r)]"

definition leftmost_longest :: "nat list \<Rightarrow> int \<times> int \<Rightarrow> bool" where
  "leftmost_longest ws r \<longleftrightarrow> zero_run ws r \<and>
     list_all (\<lambda>b. list_all (\<lambda>l. zero_run ws (b, l) \<longrightarrow> l < snd r \<or> l = snd r \<and> fst r \<le> b) [2..8]) [0..7]"

lemma best_run_all_masks:
  "list_all (\<lambda>ws. if fst (best_run ws) = -1 then list_all (\<lambda>b. \<not> zero_run ws (b, 2)) [0..7]
     else leftmost_longest ws (best_run ws)) (List.n_lists 8 [0, 1])"
  by code_simp

lemma zero_run_mask:
  assumes "length ws = 8"
  shows "zero_run (zero_mask ws) r = zero_run ws r"
proof -
  have "zero_mask ws ! j = 0 \<longleftrightarrow> ws ! j = 0" if "j < 8" for j
    using that assms by (simp add: zero_mask_def)
  then have "(\<forall>j\<in>set [nat (fst r)..<nat (fst r + snd r)]. zero_mask ws ! j = 0) \<longleftrightarrow>
      (\<forall>j\<in>set [nat (fst r)..<nat (fst r + snd r)]. ws ! j = 0)" if "fst r + snd r \<le> 8"
    using that by (intro ball_cong) auto
  then show ?thesis unfolding zero_run_def list_all_iff by blast
qed

lemma best_run_cases:
  assumes "length ws = 8"
  shows "if fst (best_run ws) = -1 then list_all (\<lambda>b. \<not> zero_run ws (b, 2)) [0..7]
    else leftmost_longest ws (best_run ws)"
proof -
  have "set (zero_mask ws) \<subseteq> {0, 1}" "length (zero_mask ws) = 8"
    using assms by (auto simp: zero_mask_def)
  then have "zero_mask ws \<in> set (List.n_lists 8 [0, 1])" by (simp add: set_n_lists)
  with best_run_all_masks have *: "if fst (best_run (zero_mask ws)) = -1
      then list_all (\<lambda>b. \<not> zero_run (zero_mask ws) (b, 2)) [0..7]
      else leftmost_longest (zero_mask ws) (best_run (zero_mask ws))"
    unfolding list_all_iff by blast
  then show ?thesis
    unfolding best_run_mask leftmost_longest_def zero_run_mask [OF assms] .
qed

section \<open>Parsing what was printed\<close>

definition pad :: "nat list \<Rightarrow> nat list" where
  "pad bs = bs @ replicate (16 - length bs) 0"

definition word_bytes :: "nat list \<Rightarrow> nat list" where
  "word_bytes ws = concat (map (\<lambda>w. [w div 256, w mod 256]) ws)"

text \<open>Words each followed by a colon, and words separated by colons.\<close>

definition colon_after :: "nat list \<Rightarrow> char list" where
  "colon_after ws = concat (map (\<lambda>w. show_base 16 w @ '':'') ws)"

definition colon_between :: "nat list \<Rightarrow> char list" where
  "colon_between ws = (if ws = [] then [] else colon_after (butlast ws) @ show_base 16 (last ws))"

lemma length_word_bytes [simp]: "length (word_bytes ws) = 2 * length ws"
  by (induction ws) (simp_all add: word_bytes_def)

lemma pad_store:
  assumes "length bs + 2 \<le> 16"
  shows "(pad bs)[length bs := x, Suc (length bs) := y] = pad (bs @ [x, y])"
proof -
  have "16 - length bs = Suc (Suc (14 - length bs))" using assms by arith
  then show ?thesis by (simp add: pad_def list_update_append)
qed

lemma pton6_hex:
  "n < 65536 \<Longrightarrow> inet_pton6_loop junk (show_base 16 n @ src) ct tp tmp cp 0 saw =
     inet_pton6_loop junk src ct tp tmp cp n True"
proof (induction "16 :: nat" n arbitrary: src saw rule: show_base.induct)
  case (1 n)
  show ?case
  proof (cases "n < 16")
    case True
    then show ?thesis by (simp add: show_base.simps [of _ n] Let_def)
  next
    case False
    with 1 have "inet_pton6_loop junk (show_base 16 n @ src) ct tp tmp cp 0 saw =
        inet_pton6_loop junk (digit_char (n mod 16) # src) ct tp tmp cp (n div 16) True"
      by (subst show_base.simps) simp
    also have "\<dots> = inet_pton6_loop junk src ct tp tmp cp n True"
      using 1(2) by (simp add: Let_def)
    finally show ?thesis .
  qed
qed

lemma pton6_colon_after:
  assumes "\<forall>w\<in>set ws. w < 65536" and "length bs + 2 * length ws \<le> 16"
  shows "inet_pton6_loop junk (colon_after ws @ src) ct (length bs) (pad bs) cp 0 False =
    inet_pton6_loop junk src (if ws = [] then ct else src)
      (length bs + 2 * length ws) (pad (bs @ word_bytes ws)) cp 0 False"
  using assms
proof (induction ws arbitrary: bs ct)
  case (Cons w ws)
  then have w: "w < 65536" "length bs + 2 \<le> 16" by auto
  let ?bs = "bs @ [w div 256, w mod 256]"
  have "inet_pton6_loop junk (colon_after (w # ws) @ src) ct (length bs) (pad bs) cp 0 False =
      inet_pton6_loop junk (colon_after ws @ src) (colon_after ws @ src) (length ?bs) (pad ?bs) cp 0 False"
    using w by (simp add: colon_after_def pton6_hex pad_store)
  also have "\<dots> = inet_pton6_loop junk src (if ws = [] then colon_after ws @ src else src)
      (length ?bs + 2 * length ws) (pad (?bs @ word_bytes ws)) cp 0 False"
    using Cons.prems by (intro Cons.IH) auto
  finally show ?case by (simp add: word_bytes_def colon_after_def)
qed (simp add: colon_after_def word_bytes_def)

text \<open>The array after \<open>k\<close> steps of the shift.\<close>

definition shifted :: "nat list \<Rightarrow> nat \<Rightarrow> nat \<Rightarrow> nat \<Rightarrow> nat list" where
  "shifted t c n k = map (\<lambda>j. if 16 - k \<le> j then t ! (j - (16 - (c + n)))
     else if c + n - k \<le> j \<and> j < c + n then 0 else t ! j) [0..<16]"

lemma length_shifted [simp]: "length (shifted t c n k) = 16"
  by (simp add: shifted_def)

lemma shifted_nth: "j < 16 \<Longrightarrow> shifted t c n k ! j =
    (if 16 - k \<le> j then t ! (j - (16 - (c + n)))
     else if c + n - k \<le> j \<and> j < c + n then 0 else t ! j)"
  unfolding shifted_def by (subst nth_map) (simp_all only: length_upt nth_upt minus_nat.diff_0 add_0)

lemma shifted_step:
  assumes "c + n < 16" and "i \<le> n" and "1 \<le> i"
  shows "(shifted t c n (i - 1))[16 - i := shifted t c n (i - 1) ! (c + n - i), c + n - i := 0] = shifted t c n i"
proof (rule nth_equalityI)
  fix j assume "j < length ((shifted t c n (i - 1))[16 - i := shifted t c n (i - 1) ! (c + n - i), c + n - i := 0])"
  then have j: "j < 16" by simp
  from assms have "c + n - i < 16" "16 - i < 16" by auto
  consider "j = c + n - i" | "j = 16 - i" "j \<noteq> c + n - i" | "j \<noteq> 16 - i" "j \<noteq> c + n - i" by blast
  then show "(shifted t c n (i - 1))[16 - i := shifted t c n (i - 1) ! (c + n - i), c + n - i := 0] ! j =
      shifted t c n i ! j"
  proof cases
    case 1
    with assms have "\<not> 16 - i \<le> j" by arith
    with 1 assms j show ?thesis by (simp add: shifted_nth)
  next
    case 2
    with assms j have "16 - i - (16 - (c + n)) = c + n - i" by arith
    moreover from assms have "\<not> 16 - (i - 1) \<le> c + n - i" "\<not> c + n - (i - 1) \<le> c + n - i" by arith+
    ultimately show ?thesis using 2 assms j by (simp add: shifted_nth)
  next
    case 3
    with assms j have "16 - (i - 1) \<le> j \<longleftrightarrow> 16 - i \<le> j"
      "c + n - (i - 1) \<le> j \<longleftrightarrow> c + n - i \<le> j" by arith+
    with 3 j show ?thesis by (simp add: shifted_nth)
  qed
qed simp

lemma colon_shift_shifted:
  assumes "c + n < 16" and "1 \<le> i" and "i \<le> n + 1"
  shows "colon_shift i n c (shifted t c n (i - 1)) = shifted t c n n"
  using assms(2,3)
proof (induction "n + 1 - i" arbitrary: i)
  case 0
  then have "i = n + 1" by simp
  then show ?case by (simp add: colon_shift.simps)
next
  case (Suc k)
  then have "i \<le> n" by simp
  with Suc.prems shifted_step [OF assms(1), of i t]
  have "colon_shift i n c (shifted t c n (i - 1)) = colon_shift (i + 1) n c (shifted t c n (i + 1 - 1))"
    by (subst colon_shift.simps) (simp add: Let_def)
  also from Suc \<open>i \<le> n\<close> have "\<dots> = shifted t c n n" by (intro Suc.hyps(1)) auto
  finally show ?case .
qed

lemma colon_shift_pad:
  assumes "length (pre @ post) < 16"
  shows "colon_shift 1 (length post) (length pre) (pad (pre @ post)) =
    pre @ replicate (16 - length (pre @ post)) 0 @ post"
proof -
  let ?t = "pad (pre @ post)" and ?c = "length pre" and ?n = "length post"
  have "shifted ?t ?c ?n 0 = map (\<lambda>j. ?t ! j) [0..<16]"
    by (auto simp: shifted_def)
  also have "\<dots> = ?t"
    using assms by (intro nth_equalityI) (simp_all add: pad_def)
  finally have "colon_shift 1 ?n ?c ?t = shifted ?t ?c ?n ?n"
    using colon_shift_shifted [of ?c ?n 1 ?t] assms by simp
  also have "\<dots> = pre @ replicate (16 - length (pre @ post)) 0 @ post"
  proof (rule nth_equalityI)
    fix j assume "j < length (shifted ?t ?c ?n ?n)"
    then have "j < 16" by simp
    with assms show "shifted ?t ?c ?n ?n ! j = (pre @ replicate (16 - length (pre @ post)) 0 @ post) ! j"
      by (auto simp: shifted_nth pad_def nth_append)
  qed (use assms in simp)
  finally show ?thesis .
qed

lemma show_base_hd: "n < 65536 \<Longrightarrow> \<exists>c cs. show_base 16 n = c # cs \<and> c \<noteq> CHR '':''"
proof (induction "16 :: nat" n rule: show_base.induct)
  case (1 n)
  have sep: "d < 16 \<Longrightarrow> digit_char d \<noteq> CHR '':''" for d
    using xdigit_of_digit_char [of d] by (metis option.distinct(1) separators(3))
  show ?case
  proof (cases "n < 16")
    case True
    with sep show ?thesis by (subst show_base.simps) simp
  next
    case False
    moreover have "n div 16 < 65536" using 1(2) div_le_dividend [of n 16] by linarith
    ultimately obtain c cs where "show_base 16 (n div 16) = c # cs" "c \<noteq> CHR '':''"
      using 1(1) by auto
    with False show ?thesis by (subst show_base.simps) simp
  qed
qed

lemma word_bytes_append [simp]: "word_bytes (us @ vs) = word_bytes us @ word_bytes vs"
  by (simp add: word_bytes_def)

lemma word_bytes_single [simp]: "word_bytes [w] = [w div 256, w mod 256]"
  by (simp add: word_bytes_def)

lemma pad_full: "length bs = 16 \<Longrightarrow> pad bs = bs"
  by (simp add: pad_def)

text \<open>The words after a double colon, or all the words: the state the loop ends in is finished the same way.\<close>

lemma pton6_between:
  assumes "\<forall>w\<in>set vs. w < 65536" and "length bs + 2 * length vs \<le> 16"
  shows "\<exists>st. inet_pton6_loop junk (colon_between vs) ct (length bs) (pad bs) cp 0 False = Some st \<and>
    inet_pton6_finish st = inet_pton6_finish (length bs + 2 * length vs, pad (bs @ word_bytes vs), cp, 0, False)"
proof (cases vs rule: rev_cases)
  case Nil
  then show ?thesis by (simp add: colon_between_def word_bytes_def)
next
  case (snoc us v)
  let ?bs = "bs @ word_bytes us"
  have "colon_between vs = colon_after us @ show_base 16 v"
    using snoc by (simp add: colon_between_def)
  moreover have "inet_pton6_loop junk (show_base 16 v) c tp tmp cp 0 False = Some (tp, tmp, cp, v, True)" for c tp tmp
    using pton6_hex [of v junk "[]" c tp tmp cp False] snoc assms(1) by simp
  moreover have "(pad ?bs)[length ?bs := v div 256 mod 256, Suc (length ?bs) := v mod 256] =
      pad (?bs @ [v div 256, v mod 256])"
  proof -
    have "v div 256 mod 256 = v div 256" using snoc assms(1) by (auto intro!: mod_less less_mult_imp_div_less)
    with pad_store [of ?bs "v div 256" "v mod 256"] snoc assms(2) show ?thesis by simp
  qed
  ultimately show ?thesis
    using pton6_colon_after [of us bs junk "show_base 16 v" ct cp] assms snoc
    by (auto simp: inet_pton6_finish_def)
qed

lemma inet_pton6_start: "c \<noteq> CHR '':'' \<Longrightarrow> inet_pton6 junk (c # cs) =
    (case inet_pton6_loop junk (c # cs) (c # cs) 0 (pad []) None 0 False of
       None \<Rightarrow> None | Some st \<Rightarrow> inet_pton6_finish st)"
  by (simp only: inet_pton6_def pad_def list.case if_False Let_def option.case append_Nil list.size minus_nat.diff_0)

lemma inet_pton6_start_colon: "inet_pton6 junk (CHR '':'' # CHR '':'' # cs) =
    (case inet_pton6_loop junk (CHR '':'' # cs) (CHR '':'' # cs) 0 (pad []) None 0 False of
       None \<Rightarrow> None | Some st \<Rightarrow> inet_pton6_finish st)"
  by (simp only: inet_pton6_def pad_def list.case if_True Let_def option.case append_Nil list.size
      minus_nat.diff_0 list.sel refl simp_thms list.distinct)

lemma colon_after_hd:
  assumes "\<forall>w\<in>set us. w < 65536" and "us \<noteq> []"
  shows "\<exists>c cs. colon_after us @ t = c # cs \<and> c \<noteq> CHR '':''"
proof -
  from assms obtain u us' where "us = u # us'" "u < 65536" by (cases us) auto
  with show_base_hd [of u] show ?thesis by (auto simp: colon_after_def)
qed

lemma inet_pton6_full:
  assumes "\<forall>w\<in>set ws. w < 65536" and "length ws = 8"
  shows "inet_pton6 junk (colon_between ws) = Some (word_bytes ws)"
proof -
  from assms(2) have ne: "ws \<noteq> []" by auto
  have "\<exists>c cs. colon_between ws = c # cs \<and> c \<noteq> CHR '':''"
  proof (cases "butlast ws = []")
    case True
    with ne show_base_hd assms(1) show ?thesis by (auto simp: colon_between_def colon_after_def)
  next
    case False
    have "\<forall>w\<in>set (butlast ws). w < 65536" using assms(1) by (meson in_set_butlastD)
    from colon_after_hd [OF this False] ne show ?thesis by (simp add: colon_between_def)
  qed
  moreover from pton6_between [of ws "[]" junk "colon_between ws" None] assms obtain st where
    "inet_pton6_loop junk (colon_between ws) (colon_between ws) 0 (pad []) None 0 False = Some st"
    "inet_pton6_finish st = inet_pton6_finish (16, pad (word_bytes ws), None, 0, False)" by auto
  ultimately show ?thesis
    using assms(2) by (auto simp: inet_pton6_start inet_pton6_finish_def pad_full)
qed

lemma inet_pton6_run:
  assumes "\<forall>w\<in>set us. w < 65536" and "\<forall>w\<in>set vs. w < 65536" and "length us + length vs < 8"
  shows "inet_pton6 junk ((if us = [] then '':'' else []) @ colon_after us @ CHR '':'' # colon_between vs) =
    Some (word_bytes us @ replicate (16 - 2 * (length us + length vs)) 0 @ word_bytes vs)"
proof -
  let ?s = "colon_after us @ CHR '':'' # colon_between vs"
  have l1: "inet_pton6_loop junk ?s ?s 0 (pad []) None 0 False =
      inet_pton6_loop junk (colon_between vs) (colon_between vs) (length (word_bytes us))
        (pad (word_bytes us)) (Some (length (word_bytes us))) 0 False"
    using pton6_colon_after [of us "[]" junk "CHR '':'' # colon_between vs" ?s None] assms by simp
  from pton6_between [of vs "word_bytes us" junk "colon_between vs" "Some (length (word_bytes us))"] assms
  obtain st where st: "inet_pton6_loop junk ?s ?s 0 (pad []) None 0 False = Some st"
    "inet_pton6_finish st = inet_pton6_finish (length (word_bytes us) + 2 * length vs,
       pad (word_bytes us @ word_bytes vs), Some (length (word_bytes us)), 0, False)"
    unfolding l1 by auto
  have fin: "inet_pton6_finish st =
      Some (word_bytes us @ replicate (16 - 2 * (length us + length vs)) 0 @ word_bytes vs)"
    using colon_shift_pad [of "word_bytes us" "word_bytes vs"] assms(3)
    unfolding st(2) by (simp add: inet_pton6_finish_def distrib_left)
  show ?thesis
  proof (cases "us = []")
    case True
    with st fin show ?thesis by (simp add: colon_after_def inet_pton6_start_colon)
  next
    case False
    from colon_after_hd [OF assms(1) False] obtain c cs where "?s = c # cs" "c \<noteq> CHR '':''" by blast
    with st fin False show ?thesis by (simp add: inet_pton6_start)
  qed
qed

lemma show_base_10_cases:
  assumes "v < 256"
  obtains (one) "v < 10" "show_base 10 v = [digit_char v]"
  | (two) "10 \<le> v" "v < 100" "show_base 10 v = [digit_char (v div 10), digit_char (v mod 10)]"
  | (three) "100 \<le> v"
      "show_base 10 v = [digit_char (v div 10 div 10), digit_char (v div 10 mod 10), digit_char (v mod 10)]"
proof -
  consider "v < 10" | "10 \<le> v" "v < 100" | "100 \<le> v" by linarith
  then show thesis
  proof cases
    case 1
    with one show ?thesis by (simp add: show_base.simps)
  next
    case 2
    then have "v div 10 < 10" by simp
    with 2 two show ?thesis by (simp add: show_base.simps [of _ v] show_base.simps [of _ "v div 10"])
  next
    case 3
    then have "\<not> v div 10 < 10" "v div 10 div 10 < 10" using assms by linarith+
    with 3 three show ?thesis
      by (simp add: show_base.simps [of _ v] show_base.simps [of _ "v div 10"] show_base.simps [of _ "v div 10 div 10"])
  qed
qed

lemma length_show_octet: "v < 256 \<Longrightarrow> length (show_base 10 v) \<le> 3"
  by (erule show_base_10_cases) simp_all

lemma length_show_quad:
  assumes "length q = 4" and "\<forall>b\<in>set q. b < 256"
  shows "length (show_quad q) \<le> 15"
proof -
  have "length (show_base 10 (q ! i)) \<le> 3" if "i < 4" for i
    using assms that by (intro length_show_octet) simp
  from this [of 0] this [of 1] this [of 2] this [of 3] show ?thesis by (simp add: show_quad_def)
qed

text \<open>The first octet of a dotted quad is read as hexadecimal digits before the dot is seen.\<close>

lemma pton6_octet:
  assumes "v < 256"
  shows "\<exists>u. inet_pton6_loop junk (show_base 10 v @ src) ct tp tmp cp 0 saw = inet_pton6_loop junk src ct tp tmp cp u True"
  using assms
proof (cases rule: show_base_10_cases)
  case three
  with assms have "v div 10 div 10 < 10" by linarith
  with three show ?thesis by (auto simp: Let_def)
qed (auto simp: Let_def)

lemma pton6_quad:
  assumes "length q = 4" and "\<forall>b\<in>set q. b < 256" and "length junk = 4" and "length bs + 4 \<le> 16"
  shows "\<exists>u. inet_pton6_loop junk (show_quad q) (show_quad q) (length bs) (pad bs) cp 0 False =
    Some (length bs + 4, pad (bs @ q), cp, u, False)"
proof -
  from assms(1,2) have "q ! 0 < 256" by simp
  obtain rest where rest: "show_quad q = show_base 10 (q ! 0) @ CHR ''.'' # rest" by (simp add: show_quad_def)
  have "take (length bs) (pad bs) @ q @ drop (length bs + 4) (pad bs) = pad (bs @ q)"
    using assms(1) by (simp add: pad_def)
  moreover from pton6_octet [OF \<open>q ! 0 < 256\<close>] obtain u where
    "inet_pton6_loop junk (show_base 10 (q ! 0) @ CHR ''.'' # rest) (show_quad q) (length bs) (pad bs) cp 0 False =
     inet_pton6_loop junk (CHR ''.'' # rest) (show_quad q) (length bs) (pad bs) cp u True" by blast
  ultimately show ?thesis
    using assms inet_pton4_show_quad [OF assms(1,2,3)] unfolding rest [symmetric] by simp
qed

lemma inet_pton6_v4:
  assumes "length q = 4" and "\<forall>b\<in>set q. b < 256" and "length junk = 4"
    and "\<forall>w\<in>set vs. w < 65536" and "length vs < 6"
  shows "inet_pton6 junk (''::'' @ colon_after vs @ show_quad q) =
    Some (replicate (12 - 2 * length vs) 0 @ word_bytes vs @ q)"
proof -
  let ?r = "colon_after vs @ show_quad q"
  have "inet_pton6_loop junk (CHR '':'' # ?r) (CHR '':'' # ?r) 0 (pad []) None 0 False =
      inet_pton6_loop junk ?r ?r 0 (pad []) (Some 0) 0 False"
    by simp
  also have "\<dots> = inet_pton6_loop junk (show_quad q) (show_quad q) (length (word_bytes vs)) (pad (word_bytes vs)) (Some 0) 0 False"
    using pton6_colon_after [of vs "[]" junk "show_quad q" ?r "Some 0"] assms
    by (cases "vs = []") (simp_all add: colon_after_def)
  finally obtain u where "inet_pton6_loop junk (CHR '':'' # ?r) (CHR '':'' # ?r) 0 (pad []) None 0 False =
      Some (length (word_bytes vs) + 4, pad (word_bytes vs @ q), Some 0, u, False)"
    using pton6_quad [OF assms(1,2,3), of "word_bytes vs" "Some 0"] assms(5) by auto
  with colon_shift_pad [of "[]" "word_bytes vs @ q"] assms(1,5) show ?thesis
    by (simp add: inet_pton6_start_colon inet_pton6_finish_def)
qed

section \<open>What is printed\<close>

lemma eight_words:
  assumes "length ws = 8"
  obtains a b c d e f g h where "ws = [a, b, c, d, e, f, g, h]"
  using assms by (auto simp: numeral_eq_Suc length_Suc_conv)

lemmas printed = fmt6_loop.simps colon_after_def colon_between_def

lemma fmt6_none:
  assumes "length ws = 8"
  shows "fmt6_loop src ws (-1, l) 0 [] = Inr (colon_between ws)"
  using assms by (rule eight_words) (simp add: printed)

lemma fmt6_run:
  assumes "length ws = 8" and "2 \<le> l" and "b + l \<le> 8"
    and "\<not> (b = 0 \<and> (l = 6 \<or> l = 5 \<and> ws ! 5 = 65535))"
  shows "\<exists>tp. fmt6_loop src ws (int b, int l) 0 [] = Inr tp \<and>
    (if b + l = 8 then tp @ '':'' else tp) =
      (if take b ws = [] then '':'' else []) @ colon_after (take b ws) @ CHR '':'' # colon_between (drop (b + l) ws)"
proof -
  from assms(1) obtain c d e f g h i j where ws: "ws = [c, d, e, f, g, h, i, j]" by (rule eight_words)
  from assms(2,3) have "(b, l) \<in> set (concat (map (\<lambda>b. map (\<lambda>l. (b, l)) [2..<9 - b]) [0..<7]))"
    by (auto simp: image_iff)
  then show ?thesis
    using assms(4) unfolding ws
    by (simp add: upt_rec) (elim disjE; clarsimp simp: printed)
qed

definition octets_ok :: "nat list \<Rightarrow> bool" where
  "octets_ok src \<longleftrightarrow> length src = 16 \<and> list_all (\<lambda>b. b < 256) src"

lemma fmt6_v4:
  assumes "octets_ok src" and "length ws = 8" and "l = 6 \<or> l = 5 \<and> ws ! 5 = 65535"
  shows "fmt6_loop src ws (0, int l) 0 [] =
    Inr (''::'' @ colon_after (if l = 5 then [65535] else []) @ show_quad (drop 12 src))"
proof -
  from assms(1) have "length (drop 12 src) = 4" "\<forall>b\<in>set (drop 12 src). b < 256"
    by (auto simp: octets_ok_def list_all_iff dest: in_set_dropD)
  then have len: "length (show_quad (drop 12 src)) \<le> 15" by (rule length_show_quad)
  have "length (show_base 16 65535) = 4" by (simp add: show_base.simps)
  moreover from len have "15 \<le> n \<Longrightarrow> inet_ntop4 (drop 12 src) n = Inr (show_quad (drop 12 src))" for n
    by (simp add: inet_ntop4_def Let_def)
  moreover have "ws ! Suc (Suc (Suc (Suc (Suc 0)))) = ws ! 5" by (simp add: numeral_eq_Suc)
  ultimately show ?thesis using assms by (auto simp: printed)
qed

lemma words_of_props:
  assumes "octets_ok src"
  shows "length (words_of src) = 8" "\<forall>w\<in>set (words_of src). w < 65536" "word_bytes (words_of src) = src"
proof -
  show "length (words_of src) = 8" by (simp add: words_of_def)
  have lt: "i < 16 \<Longrightarrow> src ! i < 256" for i using assms by (simp add: octets_ok_def list_all_length)
  have "src ! (2 * j) * 256 + src ! (2 * j + 1) < 65536" if "j < 8" for j
    using lt [of "2 * j"] lt [of "2 * j + 1"] that by simp
  then show "\<forall>w\<in>set (words_of src). w < 65536" by (simp add: words_of_def)
  from assms obtain a b c d e f g h i j k l m n p q where
    src: "src = [a, b, c, d, e, f, g, h, i, j, k, l, m, n, p, q]"
    by (auto simp: octets_ok_def numeral_eq_Suc length_Suc_conv)
  from assms show "word_bytes (words_of src) = src"
    unfolding src by (simp add: octets_ok_def words_of_def word_bytes_def upt_rec)
qed

lemma word_bytes_zeros: "word_bytes (replicate l 0) = replicate (2 * l) 0"
  by (induction l) (simp_all add: word_bytes_def)

lemma split_zero_run:
  assumes "length ws = 8" and "zero_run ws (int b, int l)"
  shows "ws = take b ws @ replicate l 0 @ drop (b + l) ws"
proof -
  from assms have "take l (drop b ws) = replicate l 0"
    by (intro nth_equalityI) (auto simp: zero_run_def list_all_iff nat_add_distrib)
  then show ?thesis by (metis append_take_drop_id drop_drop add.commute)
qed


lemma length_show_base_16: "n < 16 ^ Suc k \<Longrightarrow> length (show_base 16 n) \<le> Suc k"
  by (rule length_show_base) simp_all

lemma length_colon_after: "\<forall>w\<in>set us. w < 65536 \<Longrightarrow> length (colon_after us) \<le> 5 * length us"
proof (induction us)
  case (Cons u us)
  then have "length (show_base 16 u) \<le> 4" using length_show_base_16 [of u 3] by simp
  with Cons show ?case by (simp add: colon_after_def)
qed (simp add: colon_after_def)

lemma length_colon_between:
  assumes "\<forall>w\<in>set us. w < 65536"
  shows "length (colon_between us) \<le> 5 * length us - 1"
proof (cases us rule: rev_cases)
  case (snoc vs v)
  with assms have "length (colon_after vs) \<le> 5 * length vs" "length (show_base 16 v) \<le> 4"
    using length_colon_after [of vs] length_show_base_16 [of v 3] by simp_all
  with snoc show ?thesis by (simp add: colon_between_def)
qed (simp add: colon_between_def)

text \<open>The three shapes of the text: all eight words, a run cut out, an embedded IPv4 address.\<close>

definition reads_back :: "nat list \<Rightarrow> nat list \<Rightarrow> bool" where
  "reads_back junk src \<longleftrightarrow>
     (\<exists>text. inet_ntop6_text src = Inr text \<and> inet_pton6 junk text = Some src \<and> length text \<le> 39)"

lemma inet6_text_none:
  assumes "octets_ok src" and "best_run (words_of src) = (-1, l)"
  shows "reads_back junk src"
proof -
  note ws = words_of_props [OF assms(1)]
  have "inet_ntop6_text src = Inr (colon_between (words_of src))"
    by (simp add: inet_ntop6_text_def Let_def assms(2) fmt6_none [OF ws(1)])
  with inet_pton6_full [OF ws(2,1)] length_colon_between [OF ws(2)] ws(1,3) show ?thesis
    by (simp add: reads_back_def)
qed

lemma inet6_text_run:
  assumes "octets_ok src" and "best_run (words_of src) = (int b, int l)" and "2 \<le> l" and "b + l \<le> 8"
    and "\<not> (b = 0 \<and> (l = 6 \<or> l = 5 \<and> words_of src ! 5 = 65535))"
    and "zero_run (words_of src) (int b, int l)"
  shows "reads_back junk src"
proof -
  note ws = words_of_props [OF assms(1)]
  let ?us = "take b (words_of src)" and ?vs = "drop (b + l) (words_of src)"
  let ?text = "(if ?us = [] then '':'' else []) @ colon_after ?us @ CHR '':'' # colon_between ?vs"
  have lt: "\<forall>w\<in>set ?us. w < 65536" "\<forall>w\<in>set ?vs. w < 65536"
    using ws(2) by (auto dest: in_set_takeD in_set_dropD)
  from fmt6_run [OF ws(1) assms(3,4,5), of src] obtain tp where
    tp: "fmt6_loop src (words_of src) (int b, int l) 0 [] = Inr tp" "(if b + l = 8 then tp @ '':'' else tp) = ?text"
    by blast
  have "int b + int l = 8 \<longleftrightarrow> b + l = 8" by arith
  with tp have 1: "inet_ntop6_text src = Inr ?text"
    by (simp add: inet_ntop6_text_def Let_def assms(2))
  have "src = word_bytes ?us @ replicate (2 * l) 0 @ word_bytes ?vs"
    using split_zero_run [OF ws(1) assms(6)] ws(3) word_bytes_append word_bytes_zeros by metis
  moreover have "inet_pton6 junk ?text = Some (word_bytes ?us @ replicate (16 - 2 * (length ?us + length ?vs)) 0 @ word_bytes ?vs)"
    using assms(3,4) ws(1) by (intro inet_pton6_run lt) auto
  moreover have "16 - 2 * (length ?us + length ?vs) = 2 * l"
    using assms(4) ws(1) by simp
  ultimately have 2: "inet_pton6 junk ?text = Some src" by simp
  have "length (colon_after ?us) \<le> 5 * b" "length (colon_between ?vs) \<le> 5 * (8 - (b + l))"
    using length_colon_after [OF lt(1)] length_colon_between [OF lt(2)] assms(4) ws(1) by simp_all
  moreover have "length ?text \<le> 2 + length (colon_after ?us) + length (colon_between ?vs)" by simp
  ultimately have "length ?text \<le> 39" using assms(3,4) by linarith
  with 1 2 show ?thesis unfolding reads_back_def by blast
qed


lemma drop_word_bytes: "drop (2 * n) (word_bytes ws) = word_bytes (drop n ws)"
proof (induction ws arbitrary: n)
  case (Cons w ws)
  then show ?case by (cases n) (simp_all add: word_bytes_def)
qed (simp add: word_bytes_def)

lemma inet6_text_v4:
  assumes "octets_ok src" and "length junk = 4" and "best_run (words_of src) = (0, int l)"
    and "l = 6 \<or> l = 5 \<and> words_of src ! 5 = 65535" and "zero_run (words_of src) (0, int l)"
  shows "reads_back junk src"
proof -
  note ws = words_of_props [OF assms(1)]
  let ?vs = "if l = 5 then [65535 :: nat] else []" and ?q = "drop 12 src"
  let ?text = "''::'' @ colon_after ?vs @ show_quad ?q"
  from assms(1) have q: "length ?q = 4" "\<forall>b\<in>set ?q. b < 256"
    by (auto simp: octets_ok_def list_all_iff dest: in_set_dropD)
  have 1: "inet_ntop6_text src = Inr ?text"
    using fmt6_v4 [OF assms(1) ws(1) assms(4)] assms(4) by (auto simp: inet_ntop6_text_def Let_def assms(3))
  have "words_of src = replicate l 0 @ drop l (words_of src)"
    using split_zero_run [OF ws(1), of 0 l] assms(5) by simp
  moreover have "drop l (words_of src) = ?vs @ drop 6 (words_of src)"
    by (rule eight_words [OF ws(1)]) (use assms(4) in auto)
  ultimately have "src = replicate (2 * l) 0 @ word_bytes ?vs @ word_bytes (drop 6 (words_of src))"
    using ws(3) word_bytes_append word_bytes_zeros by metis
  moreover have "word_bytes (drop 6 (words_of src)) = ?q"
    using drop_word_bytes [of 6 "words_of src"] ws(3) by simp
  ultimately have src: "src = replicate (2 * l) 0 @ word_bytes ?vs @ ?q" by simp
  have "inet_pton6 junk ?text = Some (replicate (12 - 2 * length ?vs) 0 @ word_bytes ?vs @ ?q)"
    by (intro inet_pton6_v4 q assms(2)) auto
  moreover have "12 - 2 * length ?vs = 2 * l" using assms(4) by auto
  ultimately have 2: "inet_pton6 junk ?text = Some src" using src by simp
  have "length ?text \<le> 39"
    using length_show_quad [OF q] length_colon_after [of ?vs] by auto
  with 1 2 show ?thesis unfolding reads_back_def by blast
qed

lemma inet6_reads_back:
  assumes "octets_ok src" and "length junk = 4"
  shows "reads_back junk src"
proof -
  let ?ws = "words_of src"
  obtain b l where bl: "best_run ?ws = (b, l)" by fastforce
  note cases = best_run_cases [OF words_of_props(1) [OF assms(1)]]
  show ?thesis
  proof (cases "b = -1")
    case True
    with bl inet6_text_none [OF assms(1)] show ?thesis by simp
  next
    case False
    with cases bl have z: "zero_run ?ws (b, l)" by (simp add: leftmost_longest_def)
    then have "0 \<le> b" "2 \<le> l" "b + l \<le> 8" by (simp_all add: zero_run_def)
    then obtain m n where mn: "b = int m" "l = int n" "2 \<le> n" "m + n \<le> 8"
      by (intro that [of "nat b" "nat l"]) auto
    show ?thesis
    proof (cases "m = 0 \<and> (n = 6 \<or> n = 5 \<and> ?ws ! 5 = 65535)")
      case True
      with bl mn z show ?thesis by (intro inet6_text_v4 [OF assms, of n]) auto
    next
      case False
      with bl mn z show ?thesis by (intro inet6_text_run [OF assms(1), of m n]) auto
    qed
  qed
qed

section \<open>Properties\<close>

text \<open>
  C10. Printing and parsing of addresses are inverse to each other, for both families: \<^verbatim>\<open>inet_ntop\<close> with a
  buffer of \<^verbatim>\<open>INET6_ADDRSTRLEN\<close> (46) bytes prints every address of 4 or 16 octets, and \<^verbatim>\<open>inet_pton\<close> reads
  the text back to the same octets, whatever the run of zeros that is cut out, an embedded IPv4 address
  included. The text and its final zero fit the buffer, and the local array \<^verbatim>\<open>tmp\<close> as well.
\<close>

theorem inet_pton_inet_ntop:
  assumes "af = AF_INET \<and> length src = 4 \<or> af = AF_INET6 \<and> length src = 16"
    and "list_all (\<lambda>b. b < 256) src" and "length junk = 4"
  shows "\<exists>text. inet_ntop af src 46 = Inr text \<and> inet_pton junk af text = Inr (Some src) \<and>
    length text + 1 \<le> 46"
proof (cases "af = AF_INET")
  case True
  with assms have q: "length src = 4" "\<forall>b\<in>set src. b < 256"
    by (auto simp: AF_INET_def AF_INET6_def list_all_iff)
  with True inet_pton4_show_quad [OF q assms(3)] length_show_quad [OF q] show ?thesis
    by (simp add: inet_ntop_def inet_pton_def inet_ntop4_def Let_def)
next
  case False
  with assms have "af = AF_INET6" "octets_ok src" by (auto simp: octets_ok_def)
  with inet6_reads_back [OF this(2) assms(3)] False show ?thesis
    by (auto simp: reads_back_def inet_ntop_def inet_pton_def inet_ntop6_def)
qed

theorem inet_pton_inet_ntop_witness:
  "\<exists>text. inet_ntop AF_INET6 [0, 0, 0, 0, 0, 0, 0, 0, 0, 0, 255, 255, 10, 0, 0, 1] 46 = Inr text \<and>
     inet_pton [9, 9, 9, 9] AF_INET6 text = Inr (Some [0, 0, 0, 0, 0, 0, 0, 0, 0, 0, 255, 255, 10, 0, 0, 1])"
proof -
  let ?a = "[0, 0, 0, 0, 0, 0, 0, 0, 0, 0, 255, 255, 10, 0, 0, 1 :: nat]"
  have "AF_INET6 = AF_INET \<and> length ?a = 4 \<or> AF_INET6 = AF_INET6 \<and> length ?a = 16"
    "list_all (\<lambda>b. b < 256) ?a" "length [9, 9, 9, 9 :: nat] = 4" by simp_all
  from inet_pton_inet_ntop [OF this] show ?thesis by blast
qed

text \<open>
  The parser of dotted quads accepts exactly the dotted quads: \<^verbatim>\<open>inet_pton4\<close> returns 1 if and only if the
  text is four nonempty runs of decimal digits, none above 255, separated by single dots, and it then
  stores their values. (Leading zeros are accepted and read as decimal.)
\<close>

theorem inet_pton4_exact:
  assumes "length junk = 4"
  shows "inet_pton4 junk src = Some bs \<longleftrightarrow>
    (\<exists>os. length os = 4 \<and> list_all octet_text os \<and> src = dotted os \<and> bs = map dec_value os)"
  using quad_dotted [of 4 src bs] assms by (simp add: inet_pton4_quad)

theorem inet_pton4_exact_witness:
  "inet_pton4 [9, 9, 9, 9] ''10.0.0.1'' = Some [10, 0, 0, 1] \<and> inet_pton4 [9, 9, 9, 9] ''10.0.0.256'' = None \<and>
   (\<exists>os. length os = 4 \<and> list_all octet_text os \<and> ''10.0.0.1'' = dotted os)"
proof -
  have 1: "inet_pton4 [9, 9, 9, 9] ''10.0.0.1'' = Some [10, 0, 0, 1]"
    by (simp add: inet_pton4_def digit_of_def)
  have 2: "inet_pton4 [9, 9, 9, 9] ''10.0.0.256'' = None"
    by (simp add: inet_pton4_def digit_of_def)
  from 1 inet_pton4_exact [of "[9, 9, 9, 9]" "''10.0.0.1''" "[10, 0, 0, 1]"] 2 show ?thesis by auto
qed

text \<open>
  Which zeros \<^verbatim>\<open>inet_ntop6\<close> cuts out: the longest run of zero words, the leftmost of several, and
  none at all when no two neighbouring words are zero.
\<close>

theorem best_run_leftmost_longest:
  assumes "length ws = 8"
  shows "if fst (best_run ws) = -1 then list_all (\<lambda>b. \<not> zero_run ws (b, 2)) [0..7]
    else leftmost_longest ws (best_run ws)"
  using assms by (rule best_run_cases)

theorem best_run_leftmost_longest_witness: "leftmost_longest [1, 0, 0, 2, 0, 0, 3, 4] (1, 2)"
proof -
  have "length [1, 0, 0, 2, 0, 0, 3, 4 :: nat] = 8" by simp
  moreover have "best_run [1, 0, 0, 2, 0, 0, 3, 4] = (1, 2)" by code_simp
  ultimately show ?thesis using best_run_leftmost_longest [of "[1, 0, 0, 2, 0, 0, 3, 4]"] by simp
qed

text \<open>
  The comment of \<^verbatim>\<open>inet_pton6\<close> says that a double colon in a full address is silently ignored. It is
  not: the shift moves every later byte onto itself and then clears it, and the address is accepted with
  its second half zero.
\<close>

theorem inet_pton6_full_with_colons:
  "inet_pton6 [0, 0, 0, 0] ''1:2:3:4::5:6:7:8'' = Some [0, 1, 0, 2, 0, 3, 0, 4, 0, 0, 0, 0, 0, 0, 0, 0]"
proof -
  have "replicate 16 (0 :: nat) = [0, 0, 0, 0, 0, 0, 0, 0, 0, 0, 0, 0, 0, 0, 0, 0]"
    by (simp add: eval_nat_numeral)
  then show ?thesis
    by (simp add: inet_pton6_def inet_pton6_finish_def xdigit_of_def colon_shift.simps)
qed

text \<open>
  \<^verbatim>\<open>inet_ntop4\<close> compares the length of the text with the size of the buffer but stores one byte more:
  called with a size equal to the length of the text it reports success and the final zero is stored
  behind the buffer. The IPv4-only version of the routine makes the comparison right.
\<close>

theorem inet_ntop4_no_room_for_zero:
  "inet_ntop4 src (length (show_quad src)) = Inr (show_quad src) \<and>
   inet_ntop_ipv4 AF_INET src (length (show_quad src)) = Inl ENOSPC"
  by (simp add: inet_ntop4_def inet_ntop_ipv4_def Let_def)

end
