(* ===== verification/Getaddrinfo.thy ===== *)
theory Getaddrinfo
  imports Inet6_Addr
begin

text \<open>
  \<^verbatim>\<open>getaddrinfo\<close> and \<^verbatim>\<open>getnameinfo\<close> of \<^verbatim>\<open>unpv13e/libgai\<close>: one definition per function, composed as in the sources,
  with IPv4, IPv6 and Unix domain support compiled in. The linked list of results is a list of \<open>addrinfo\<close>
  records (\<^verbatim>\<open>ai_next\<close> is the order of the list). The resolver and the service data base, which are not part of the
  sources, are the record \<open>resolver\<close>. Memory is the record \<open>gst\<close>: \<open>left\<close> allocations succeed before one fails,
  \<open>live\<close> blocks have been allocated and not freed; it also collects the paths given to \<^verbatim>\<open>unlink\<close>.

  An address is a list of bytes. A port is the number it stands for: \<^verbatim>\<open>htons\<close> and \<^verbatim>\<open>ntohs\<close>, which every use of a
  port pairs, do not appear. A string argument that may be a null pointer is an option.
\<close>

unbundle bit_operations_syntax

section \<open>Data\<close>

abbreviation (input) AF_UNSPEC :: int where "AF_UNSPEC \<equiv> 0"
abbreviation (input) AF_LOCAL :: int where "AF_LOCAL \<equiv> 1"
abbreviation (input) SOCK_STREAM :: int where "SOCK_STREAM \<equiv> 1"
abbreviation (input) SOCK_DGRAM :: int where "SOCK_DGRAM \<equiv> 2"
abbreviation (input) SOCK_RAW :: int where "SOCK_RAW \<equiv> 3"
abbreviation (input) AI_PASSIVE :: u32 where "AI_PASSIVE \<equiv> 1"
abbreviation (input) AI_CANONNAME :: u32 where "AI_CANONNAME \<equiv> 2"
abbreviation (input) AI_CLONE :: u32 where "AI_CLONE \<equiv> 4"

datatype eai =
    EAI_ADDRFAMILY | EAI_AGAIN | EAI_BADFLAGS | EAI_FAIL | EAI_FAMILY | EAI_MEMORY | EAI_NODATA
  | EAI_NONAME | EAI_SERVICE | EAI_SOCKTYPE | EAI_SYSTEM

datatype sockaddr = Sin u16 "nat list" | Sin6 u16 "nat list" | Sun "nat list"

record addrinfo =
  ai_flags :: u32
  ai_family :: int
  ai_socktype :: int
  ai_protocol :: int
  ai_addrlen :: nat
  ai_canonname :: "char list option"
  ai_addr :: "sockaddr option"

record search =
  host :: "char list"
  family :: int

text \<open>The resolver: \<^verbatim>\<open>gethostbyname\<close> has the option \<^verbatim>\<open>RES_USE_INET6\<close> as an argument.\<close>

datatype h_err = HOST_NOT_FOUND | TRY_AGAIN | NO_RECOVERY | NO_DATA | H_OTHER

record hostent =
  h_name :: "char list option"
  h_addrtype :: int
  h_addr_list :: "nat list list"

record resolver =
  gethostbyname :: "bool \<Rightarrow> char list \<Rightarrow> h_err + hostent"
  gethostbyname2 :: "char list \<Rightarrow> int \<Rightarrow> h_err + hostent"
  getservbyname :: "char list \<Rightarrow> char list \<Rightarrow> u16 option"
  uname :: "char list option"
  stack_junk :: "nat list"

record gst =
  left :: nat
  live :: nat
  unlinked :: "nat list list"

definition calloc :: "gst \<Rightarrow> gst option" where
  "calloc g = (if left g = 0 then None else Some (g\<lparr>left := left g - 1, live := live g + 1\<rparr>))"

definition has_flag :: "u32 \<Rightarrow> u32 \<Rightarrow> bool" where
  "has_flag fl msk \<longleftrightarrow> fl AND msk \<noteq> 0"

text \<open>A string argument that is missing: a null pointer or empty.\<close>

definition absent :: "char list option \<Rightarrow> bool" where
  "absent s \<longleftrightarrow> s = None \<or> s = Some []"

section \<open>Checking the arguments\<close>

definition inet_socktype :: "int \<Rightarrow> bool" where
  "inet_socktype t \<longleftrightarrow> t = 0 \<or> t = SOCK_STREAM \<or> t = SOCK_DGRAM \<or> t = SOCK_RAW"

definition ga_echeck :: "char list option \<Rightarrow> char list option \<Rightarrow> u32 \<Rightarrow> int \<Rightarrow> int \<Rightarrow> int \<Rightarrow> eai option" where
  "ga_echeck hostname servname fl fam socktype protocol =
     (if fl AND NOT (AI_PASSIVE OR AI_CANONNAME) \<noteq> 0 then Some EAI_BADFLAGS
      else if absent hostname \<and> absent servname then Some EAI_NONAME
      else if fam = AF_UNSPEC then None
      else if fam = AF_INET then if \<not> inet_socktype socktype then Some EAI_SOCKTYPE else None
      else if fam = AF_INET6 then if \<not> inet_socktype socktype then Some EAI_SOCKTYPE else None
      else if fam = AF_LOCAL then
        if socktype \<noteq> 0 \<and> socktype \<noteq> SOCK_STREAM \<and> socktype \<noteq> SOCK_DGRAM then Some EAI_SOCKTYPE else None
      else Some EAI_FAMILY)"

text \<open>
  The hosts to look up. The first part is the \<^verbatim>\<open>switch\<close> of each of the three cases of \<^verbatim>\<open>ga_nsearch\<close>: the string to
  use for IPv4 and the one for IPv6.
\<close>

definition by_family :: "int \<Rightarrow> char list \<Rightarrow> char list \<Rightarrow> search list" where
  "by_family fam v4 v6 =
     (if fam = AF_INET then [\<lparr>host = v4, family = AF_INET\<rparr>]
      else if fam = AF_INET6 then [\<lparr>host = v6, family = AF_INET6\<rparr>]
      else if fam = AF_UNSPEC then [\<lparr>host = v6, family = AF_INET6\<rparr>, \<lparr>host = v4, family = AF_INET\<rparr>]
      else [])"

definition ga_nsearch :: "char list option \<Rightarrow> addrinfo \<Rightarrow> search list run" where
  "ga_nsearch hostname hints =
     (let search =
        (if absent hostname then
           if has_flag (ai_flags hints) AI_PASSIVE then by_family (ai_family hints) ''0.0.0.0'' ''0::0''
           else by_family (ai_family hints) ''localhost'' ''0::1''
         else by_family (ai_family hints) (the hostname) (the hostname)) in
      if length search < 1 \<or> length search > 2 then Exit 1 else Ret search)"

section \<open>Building the list\<close>

text \<open>
  \<^verbatim>\<open>ga_aistruct\<close> links the new structure before the socket address is allocated: on failure the structure is in
  the list without an address.
\<close>

definition new_ai :: "addrinfo \<Rightarrow> int \<Rightarrow> addrinfo" where
  "new_ai hints fam = \<lparr>ai_flags = (if ai_socktype hints = 0 then AI_CLONE else 0), ai_family = fam,
     ai_socktype = ai_socktype hints, ai_protocol = ai_protocol hints, ai_addrlen = 0,
     ai_canonname = None, ai_addr = None\<rparr>"

definition ga_aistruct ::
    "addrinfo \<Rightarrow> nat list \<Rightarrow> int \<Rightarrow> addrinfo list \<Rightarrow> gst \<Rightarrow> eai option \<times> addrinfo list \<times> gst" where
  "ga_aistruct hints addr fam ais g =
     (case calloc g of
        None \<Rightarrow> (Some EAI_MEMORY, ais, g)
      | Some g1 \<Rightarrow>
          let ai = new_ai hints fam in
          if fam = AF_INET then
            (case calloc g1 of
               None \<Rightarrow> (Some EAI_MEMORY, ais @ [ai], g1)
             | Some g2 \<Rightarrow> (None, ais @ [ai\<lparr>ai_addr := Some (Sin 0 (take 4 addr)), ai_addrlen := 16\<rparr>], g2))
          else if fam = AF_INET6 then
            (case calloc g1 of
               None \<Rightarrow> (Some EAI_MEMORY, ais @ [ai], g1)
             | Some g2 \<Rightarrow> (None, ais @ [ai\<lparr>ai_addr := Some (Sin6 0 (take 16 addr)), ai_addrlen := 28\<rparr>], g2))
          else if fam = AF_LOCAL then
            if length addr \<ge> 108 then (Some EAI_SERVICE, ais @ [ai], g1)
            else (case calloc g1 of
               None \<Rightarrow> (Some EAI_MEMORY, ais @ [ai], g1)
             | Some g2 \<Rightarrow> (None, ais @ [ai\<lparr>ai_addr := Some (Sun addr), ai_addrlen := 110\<rparr>],
                 if has_flag (ai_flags hints) AI_PASSIVE then g2\<lparr>unlinked := unlinked g2 @ [addr]\<rparr> else g2))
          else (None, ais @ [ai], g1))"

fun ga_aistructs ::
    "addrinfo \<Rightarrow> nat list list \<Rightarrow> int \<Rightarrow> addrinfo list \<Rightarrow> gst \<Rightarrow> eai option \<times> addrinfo list \<times> gst" where
  "ga_aistructs hints [] fam ais g = (None, ais, g)"
| "ga_aistructs hints (a # as) fam ais g =
     (case ga_aistruct hints a fam ais g of
        (Some e, ais', g') \<Rightarrow> (Some e, ais', g')
      | (None, ais', g') \<Rightarrow> ga_aistructs hints as fam ais' g')"

fun freeaddrinfo :: "addrinfo list \<Rightarrow> gst \<Rightarrow> gst" where
  "freeaddrinfo [] g = g"
| "freeaddrinfo (ai # ais) g =
     (let g1 = (if ai_addr ai \<noteq> None then g\<lparr>live := live g - 1\<rparr> else g);
          g2 = (if ai_canonname ai \<noteq> None then g1\<lparr>live := live g1 - 1\<rparr> else g1) in
      freeaddrinfo ais (g2\<lparr>live := live g2 - 1\<rparr>))"

section \<open>The service\<close>

text \<open>
  \<^verbatim>\<open>ga_clone\<close> links the new structure behind the old one; the first component is what it has linked (at most
  one structure), the second whether it returns a non-null pointer to it.
\<close>

definition ga_clone :: "addrinfo \<Rightarrow> gst \<Rightarrow> addrinfo list \<times> bool \<times> gst" where
  "ga_clone ai g =
     (case calloc g of
        None \<Rightarrow> ([], False, g)
      | Some g1 \<Rightarrow>
          let new = ai\<lparr>ai_flags := 0, ai_canonname := None, ai_addr := None\<rparr> in
          (case calloc g1 of
             None \<Rightarrow> ([new], False, g1)
           | Some g2 \<Rightarrow> ([new\<lparr>ai_addr := ai_addr ai\<rparr>], True, g2)))"

fun put_port :: "u16 \<Rightarrow> sockaddr \<Rightarrow> sockaddr" where
  "put_port p (Sin _ a) = Sin p a"
| "put_port p (Sin6 _ a) = Sin6 p a"
| "put_port p (Sun path) = Sun path"

definition set_port :: "u16 \<Rightarrow> int \<Rightarrow> addrinfo \<Rightarrow> nat \<times> addrinfo" where
  "set_port port socktype ai =
     (let ai' = ai\<lparr>ai_socktype := socktype\<rparr> in
      if ai_family ai = AF_INET \<or> ai_family ai = AF_INET6
      then (1, ai'\<lparr>ai_addr := map_option (put_port port) (ai_addr ai')\<rparr>)
      else (0, ai'))"

text \<open>\<^verbatim>\<open>ga_port\<close> returns the number of structures it has filled in, or \<open>None\<close> for -1.\<close>

fun ga_port :: "addrinfo list \<Rightarrow> u16 \<Rightarrow> int \<Rightarrow> gst \<Rightarrow> nat option \<times> addrinfo list \<times> gst" where
  "ga_port [] port socktype g = (Some 0, [], g)"
| "ga_port (ai # rest) port socktype g =
     (if has_flag (ai_flags ai) AI_CLONE then
        if ai_socktype ai \<noteq> 0 then
          (case ga_clone ai g of
             (new, False, g1) \<Rightarrow> (None, ai # new @ rest, g1)
           | (new, True, g1) \<Rightarrow>
               let (k, ai') = set_port port socktype (hd new);
                   (n, rest', g2) = ga_port rest port socktype g1 in
               (map_option (\<lambda>n. k + n) n, ai # ai' # rest', g2))
        else
          let (k, ai') = set_port port socktype ai;
              (n, rest', g1) = ga_port rest port socktype g in
          (map_option (\<lambda>n. k + n) n, ai' # rest', g1)
      else if ai_socktype ai \<noteq> socktype then
        let (n, rest', g1) = ga_port rest port socktype g in (n, ai # rest', g1)
      else
        let (k, ai') = set_port port socktype ai;
            (n, rest', g1) = ga_port rest port socktype g in
        (map_option (\<lambda>n. k + n) n, ai' # rest', g1))"

text \<open>
  \<^verbatim>\<open>atoi\<close> of a string that begins with a digit, cut to a port: the digits are converted as \<^verbatim>\<open>strtol\<close> does, which stops
  at the first other character and at \<^verbatim>\<open>LONG_MAX\<close>.
\<close>

definition atoi_port :: "char list \<Rightarrow> u16" where
  "atoi_port s = of_nat (min (dec_value (takeWhile is_digit s)) (2 ^ 63 - 1))"

type_synonym serv_state = "nat option \<times> addrinfo list \<times> gst"

text \<open>One call of \<^verbatim>\<open>ga_port\<close> in \<^verbatim>\<open>ga_serv\<close>: its count is added to \<^verbatim>\<open>nfound\<close>, a negative one ends the function.\<close>

definition then_port :: "serv_state \<Rightarrow> u16 option \<Rightarrow> int \<Rightarrow> serv_state" where
  "then_port st port socktype =
     (case st of
        (None, ais, g) \<Rightarrow> (None, ais, g)
      | (Some nfound, ais, g) \<Rightarrow>
          (case port of
             None \<Rightarrow> (Some nfound, ais, g)
           | Some p \<Rightarrow>
               let (n, ais', g') = ga_port ais p socktype g in (map_option (\<lambda>n. nfound + n) n, ais', g')))"

definition ga_serv ::
    "resolver \<Rightarrow> addrinfo list \<Rightarrow> addrinfo \<Rightarrow> char list \<Rightarrow> gst \<Rightarrow> eai option \<times> addrinfo list \<times> gst" where
  "ga_serv res ais hints serv g =
     (let t = ai_socktype hints;
          st =
            (if is_digit (hd serv) then
               let port = Some (atoi_port serv) in
               if t \<noteq> 0 then then_port (Some 0, ais, g) port t
               else then_port (then_port (Some 0, ais, g) port SOCK_STREAM) port SOCK_DGRAM
             else
               let st1 =
                     (if t = 0 \<or> t = SOCK_STREAM
                      then then_port (Some 0, ais, g) (getservbyname res serv ''tcp'') SOCK_STREAM
                      else (Some 0, ais, g)) in
               if t = 0 \<or> t = SOCK_DGRAM then then_port st1 (getservbyname res serv ''udp'') SOCK_DGRAM else st1) in
      case st of
        (None, ais', g') \<Rightarrow> (Some EAI_MEMORY, ais', g')
      | (Some nfound, ais', g') \<Rightarrow>
          (if nfound = 0 then if t = 0 then Some EAI_NONAME else Some EAI_SERVICE else None, ais', g'))"

section \<open>Unix domain sockets\<close>

definition ga_unix :: "resolver \<Rightarrow> char list \<Rightarrow> addrinfo \<Rightarrow> gst \<Rightarrow> (eai + addrinfo list) \<times> gst" where
  "ga_unix res path hints g =
     (let addr = map of_char path in
      if ai_family hints \<noteq> AF_UNSPEC \<and> ai_family hints \<noteq> AF_LOCAL then (Inl EAI_ADDRFAMILY, g)
      else
        let (rc, ais, g1) =
              (if ai_socktype hints = 0 then
                 (case ga_aistruct (hints\<lparr>ai_socktype := SOCK_STREAM\<rparr>) addr AF_LOCAL [] g of
                    (Some e, ais, g1) \<Rightarrow> (Some e, ais, g1)
                  | (None, ais, g1) \<Rightarrow> ga_aistruct (hints\<lparr>ai_socktype := SOCK_DGRAM\<rparr>) addr AF_LOCAL ais g1)
               else ga_aistruct hints addr AF_LOCAL [] g) in
        case rc of
          Some e \<Rightarrow> (Inl e, g1)
        | None \<Rightarrow>
            if has_flag (ai_flags hints) AI_CANONNAME then
              (case uname res of
                 None \<Rightarrow> (Inl EAI_SYSTEM, g1)
               | Some nodename \<Rightarrow>
                   (case calloc g1 of
                      None \<Rightarrow> (Inl EAI_MEMORY, g1)
                    | Some g2 \<Rightarrow> (Inr (hd ais\<lparr>ai_canonname := Some nodename\<rparr> # tl ais), g2)))
            else (Inr ais, g1))"

section \<open>getaddrinfo\<close>

fun eai_of_h_err :: "h_err \<Rightarrow> eai" where
  "eai_of_h_err HOST_NOT_FOUND = EAI_NONAME"
| "eai_of_h_err TRY_AGAIN = EAI_AGAIN"
| "eai_of_h_err NO_RECOVERY = EAI_FAIL"
| "eai_of_h_err NO_DATA = EAI_NODATA"
| "eai_of_h_err H_OTHER = EAI_NONAME"

text \<open>
  What one turn of the loop over the hosts to search does: \<open>Next\<close> goes on with the list and the canonical name
  saved so far, \<open>Bad\<close> is a jump to \<^verbatim>\<open>bad\<close>; \<^verbatim>\<open>strdup\<close> of a null \<^verbatim>\<open>h_name\<close> is undefined.
\<close>

datatype gai_step = Next "addrinfo list" "char list option" gst | Bad eai "addrinfo list" gst | Undef

definition after_aistruct :: "char list option \<Rightarrow> eai option \<times> addrinfo list \<times> gst \<Rightarrow> gai_step" where
  "after_aistruct canon r =
     (case r of (None, ais, g) \<Rightarrow> Next ais canon g | (Some e, ais, g) \<Rightarrow> Bad e ais g)"

definition gai_numeric ::
    "addrinfo \<Rightarrow> search \<Rightarrow> int \<Rightarrow> nat list \<Rightarrow> addrinfo list \<Rightarrow> char list option \<Rightarrow> gst \<Rightarrow> gai_step" where
  "gai_numeric hints s fam addr ais canon g =
     (if ai_family hints \<noteq> AF_UNSPEC \<and> ai_family hints \<noteq> fam then Bad EAI_ADDRFAMILY ais g
      else if family s \<noteq> fam then Next ais canon g
      else after_aistruct canon (ga_aistruct hints addr fam ais g))"

definition gai_lookup ::
    "resolver \<Rightarrow> char list option \<Rightarrow> addrinfo \<Rightarrow> nat \<Rightarrow> search \<Rightarrow> addrinfo list \<Rightarrow> char list option \<Rightarrow> gst \<Rightarrow> gai_step" where
  "gai_lookup res hostname hints nsearch s ais canon g =
     (case (if nsearch = 2 then gethostbyname2 res (host s) (family s)
            else gethostbyname res (family s = AF_INET6) (host s)) of
        Inl e \<Rightarrow> if nsearch = 2 then Next ais canon g else Bad (eai_of_h_err e) ais g
      | Inr h \<Rightarrow>
          if ai_family hints \<noteq> AF_UNSPEC \<and> ai_family hints \<noteq> h_addrtype h then Bad EAI_ADDRFAMILY ais g
          else if \<not> absent hostname \<and> has_flag (ai_flags hints) AI_CANONNAME \<and> canon = None then
            (case h_name h of
               None \<Rightarrow> Undef
             | Some name \<Rightarrow>
                 (case calloc g of
                    None \<Rightarrow> Bad EAI_MEMORY ais g
                  | Some g1 \<Rightarrow> after_aistruct (Some name) (ga_aistructs hints (h_addr_list h) (h_addrtype h) ais g1)))
          else after_aistruct canon (ga_aistructs hints (h_addr_list h) (h_addrtype h) ais g))"

definition gai_search ::
    "resolver \<Rightarrow> char list option \<Rightarrow> addrinfo \<Rightarrow> nat \<Rightarrow> search \<Rightarrow> addrinfo list \<Rightarrow> char list option \<Rightarrow> gst \<Rightarrow> gai_step" where
  "gai_search res hostname hints nsearch s ais canon g =
     (let v4 = (if is_digit (hd (host s)) then inet_pton4 (stack_junk res) (host s) else None);
          v6 = (if (xdigit_of (hd (host s)) \<noteq> None \<or> hd (host s) = CHR '':'') \<and> CHR '':'' \<in> set (host s)
                then inet_pton6 (stack_junk res) (host s) else None) in
      case v4 of
        Some addr \<Rightarrow> gai_numeric hints s AF_INET addr ais canon g
      | None \<Rightarrow>
          (case v6 of
             Some addr \<Rightarrow> gai_numeric hints s AF_INET6 addr ais canon g
           | None \<Rightarrow> gai_lookup res hostname hints nsearch s ais canon g))"

fun gai_searches ::
    "resolver \<Rightarrow> char list option \<Rightarrow> addrinfo \<Rightarrow> nat \<Rightarrow> search list \<Rightarrow> addrinfo list \<Rightarrow> char list option \<Rightarrow> gst \<Rightarrow> gai_step" where
  "gai_searches res hostname hints nsearch [] ais canon g = Next ais canon g"
| "gai_searches res hostname hints nsearch (s # ss) ais canon g =
     (case gai_search res hostname hints nsearch s ais canon g of
        Next ais' canon' g' \<Rightarrow> gai_searches res hostname hints nsearch ss ais' canon' g'
      | Bad e ais' g' \<Rightarrow> Bad e ais' g'
      | Undef \<Rightarrow> Undef)"

text \<open>The canonical name of the result: the one saved, or the name searched for.\<close>

definition gai_canon ::
    "char list option \<Rightarrow> addrinfo \<Rightarrow> char list \<Rightarrow> char list option \<Rightarrow> addrinfo list \<Rightarrow> gst \<Rightarrow> eai option \<times> addrinfo list \<times> gst" where
  "gai_canon hostname hints name canon ais g =
     (if \<not> absent hostname \<and> has_flag (ai_flags hints) AI_CANONNAME then
        (case canon of
           Some c \<Rightarrow> (None, (hd ais)\<lparr>ai_canonname := Some c\<rparr> # tl ais, g)
         | None \<Rightarrow>
             (case calloc g of
                None \<Rightarrow> (Some EAI_MEMORY, ais, g)
              | Some g1 \<Rightarrow> (None, (hd ais)\<lparr>ai_canonname := Some name\<rparr> # tl ais, g1)))
      else (None, ais, g))"

datatype gai_result = Found "addrinfo list" gst | Failed eai gst | Quits | Undefined

definition no_hints :: addrinfo where
  "no_hints = \<lparr>ai_flags = 0, ai_family = AF_UNSPEC, ai_socktype = 0, ai_protocol = 0, ai_addrlen = 0,
     ai_canonname = None, ai_addr = None\<rparr>"

definition gai_finish ::
    "resolver \<Rightarrow> char list option \<Rightarrow> char list option \<Rightarrow> addrinfo \<Rightarrow> char list \<Rightarrow> gai_step \<Rightarrow> gai_result" where
  "gai_finish res hostname servname hints name st =
     (case st of
        Undef \<Rightarrow> Undefined
      | Bad e ais g \<Rightarrow> Failed e (freeaddrinfo ais g)
      | Next ais canon g \<Rightarrow>
          if ais = [] then Failed EAI_NONAME (freeaddrinfo ais g)
          else
            (case gai_canon hostname hints name canon ais g of
               (Some e, ais1, g1) \<Rightarrow> Failed e (freeaddrinfo ais1 g1)
             | (None, ais1, g1) \<Rightarrow>
                 if absent servname then Found ais1 g1
                 else
                   (case ga_serv res ais1 hints (the servname) g1 of
                      (Some e, ais2, g2) \<Rightarrow> Failed e (freeaddrinfo ais2 g2)
                    | (None, ais2, g2) \<Rightarrow> Found ais2 g2)))"

definition getaddrinfo ::
    "resolver \<Rightarrow> char list option \<Rightarrow> char list option \<Rightarrow> addrinfo option \<Rightarrow> gst \<Rightarrow> gai_result" where
  "getaddrinfo res hostname servname hintsp g =
     (let hints = (case hintsp of None \<Rightarrow> no_hints | Some h \<Rightarrow> h) in
      case ga_echeck hostname servname (ai_flags hints) (ai_family hints) (ai_socktype hints) (ai_protocol hints) of
        Some e \<Rightarrow> Failed e (freeaddrinfo [] g)
      | None \<Rightarrow>
          if (hostname = Some ''/local'' \<or> hostname = Some ''/unix'') \<and>
             (case servname of Some (CHR ''/'' # _) \<Rightarrow> True | _ \<Rightarrow> False) then
            (case ga_unix res (the servname) hints g of
               (Inl e, g') \<Rightarrow> Failed e g'
             | (Inr ais, g') \<Rightarrow> Found ais g')
          else
            (case ga_nsearch hostname hints of
               Exit _ \<Rightarrow> Quits
             | Ret search \<Rightarrow>
                 gai_finish res hostname servname hints (host (hd search))
                   (gai_searches res hostname hints (length search) search [] None g)))"

section \<open>getnameinfo\<close>

abbreviation (input) NI_NOFQDN :: u32 where "NI_NOFQDN \<equiv> 1"
abbreviation (input) NI_NUMERICHOST :: u32 where "NI_NUMERICHOST \<equiv> 2"
abbreviation (input) NI_NAMEREQD :: u32 where "NI_NAMEREQD \<equiv> 4"
abbreviation (input) NI_NUMERICSERV :: u32 where "NI_NUMERICSERV \<equiv> 8"
abbreviation (input) NI_DGRAM :: u32 where "NI_DGRAM \<equiv> 16"

record reverse =
  gethostbyaddr :: "nat list \<Rightarrow> int \<Rightarrow> char list option"
  getservbyport :: "u16 \<Rightarrow> char list option \<Rightarrow> char list option"

definition snprintf_s :: "nat \<Rightarrow> char list \<Rightarrow> char list" where
  "snprintf_s len s = take (len - 1) s"

definition gn_host :: "reverse \<Rightarrow> nat \<Rightarrow> nat list \<Rightarrow> int \<Rightarrow> u32 \<Rightarrow> char list option" where
  "gn_host rv hostlen addr fam fl =
     (let numeric = (case inet_ntop fam addr hostlen of Inl _ \<Rightarrow> None | Inr text \<Rightarrow> Some text) in
      if has_flag fl NI_NUMERICHOST then numeric
      else case gethostbyaddr rv addr fam of
        Some name \<Rightarrow>
          Some (snprintf_s hostlen (if has_flag fl NI_NOFQDN then takeWhile (\<lambda>c. c \<noteq> CHR ''.'') name else name))
      | None \<Rightarrow> if has_flag fl NI_NAMEREQD then None else numeric)"

definition gn_serv :: "reverse \<Rightarrow> nat \<Rightarrow> u16 \<Rightarrow> u32 \<Rightarrow> char list" where
  "gn_serv rv servlen port fl =
     (let numeric = snprintf_s servlen (show_base 10 (unat port)) in
      if has_flag fl NI_NUMERICSERV then numeric
      else case getservbyport rv port (if has_flag fl NI_DGRAM then Some ''udp'' else None) of
        Some name \<Rightarrow> snprintf_s servlen name
      | None \<Rightarrow> numeric)"

text \<open>
  \<open>None\<close> is the return value 1; otherwise the strings stored, \<open>None\<close> for an argument whose length is 0.
\<close>

definition gn_ipv46 ::
    "reverse \<Rightarrow> nat \<Rightarrow> nat \<Rightarrow> nat list \<Rightarrow> int \<Rightarrow> u16 \<Rightarrow> u32 \<Rightarrow> (char list option \<times> char list option) option" where
  "gn_ipv46 rv hostlen servlen addr fam port fl =
     (let sv = (if servlen > 0 then Some (gn_serv rv servlen port fl) else None) in
      if hostlen > 0 then map_option (\<lambda>h. (Some h, sv)) (gn_host rv hostlen addr fam fl)
      else Some (None, sv))"

fun getnameinfo ::
    "reverse \<Rightarrow> sockaddr \<Rightarrow> nat \<Rightarrow> nat \<Rightarrow> u32 \<Rightarrow> (char list option \<times> char list option) option" where
  "getnameinfo rv (Sin port a) hostlen servlen fl = gn_ipv46 rv hostlen servlen a AF_INET port fl"
| "getnameinfo rv (Sin6 port a) hostlen servlen fl = gn_ipv46 rv hostlen servlen a AF_INET6 port fl"
| "getnameinfo rv (Sun path) hostlen servlen fl =
     Some (if hostlen > 0 then Some (snprintf_s hostlen ''/local'') else None,
           if servlen > 0 then Some (snprintf_s servlen (map char_of path)) else None)"

section \<open>Memory\<close>

text \<open>The blocks a list of results owns.\<close>

definition ai_blocks :: "addrinfo \<Rightarrow> nat" where
  "ai_blocks ai = 1 + (if ai_addr ai \<noteq> None then 1 else 0) + (if ai_canonname ai \<noteq> None then 1 else 0)"

definition blocks :: "addrinfo list \<Rightarrow> nat" where
  "blocks ais = sum_list (map ai_blocks ais)"

lemma blocks_simps [simp]:
  "blocks [] = 0" "blocks (ai # ais) = ai_blocks ai + blocks ais" "blocks (xs @ ys) = blocks xs + blocks ys"
  by (simp_all add: blocks_def)

lemma freeaddrinfo_blocks: "freeaddrinfo ais g = g\<lparr>live := live g - blocks ais\<rparr>"
  by (induction ais arbitrary: g) (simp_all add: ai_blocks_def Let_def)

lemma calloc_SomeD: "calloc g = Some g' \<Longrightarrow> live g' = live g + 1"
  by (auto simp: calloc_def split: if_splits)

lemma ga_aistruct_balance:
  "ga_aistruct hints addr fam ais g = (r, ais', g') \<Longrightarrow> live g' + blocks ais = live g + blocks ais'"
  by (auto simp: ga_aistruct_def new_ai_def Let_def ai_blocks_def dest!: calloc_SomeD split: option.splits if_splits)

lemma ga_aistructs_balance:
  "ga_aistructs hints as fam ais g = (r, ais', g') \<Longrightarrow> live g' + blocks ais = live g + blocks ais'"
proof (induction as arbitrary: ais g)
  case (Cons a as)
  obtain r1 ais1 g1 where one: "ga_aistruct hints a fam ais g = (r1, ais1, g1)" by (metis prod_cases3)
  show ?case
  proof (cases r1)
    case None
    with Cons.prems one have "ga_aistructs hints as fam ais1 g1 = (r, ais', g')" by simp
    from Cons.IH [OF this] ga_aistruct_balance [OF one] show ?thesis by simp
  next
    case (Some e)
    with Cons.prems one ga_aistruct_balance [OF one] show ?thesis by simp
  qed
qed simp

text \<open>Every structure in the list has its address; none has a name but the first.\<close>

definition addressed :: "addrinfo list \<Rightarrow> bool" where
  "addressed ais \<longleftrightarrow> list_all (\<lambda>ai. ai_addr ai \<noteq> None) ais"

definition nameless :: "addrinfo list \<Rightarrow> bool" where
  "nameless ais \<longleftrightarrow> list_all (\<lambda>ai. ai_canonname ai = None) ais"

lemma addressed_simps [simp]:
  "addressed []" "addressed (ai # ais) \<longleftrightarrow> ai_addr ai \<noteq> None \<and> addressed ais"
  "addressed (xs @ ys) \<longleftrightarrow> addressed xs \<and> addressed ys"
  by (simp_all add: addressed_def)

lemma nameless_simps [simp]:
  "nameless []" "nameless (ai # ais) \<longleftrightarrow> ai_canonname ai = None \<and> nameless ais"
  "nameless (xs @ ys) \<longleftrightarrow> nameless xs \<and> nameless ys"
  by (simp_all add: nameless_def)

definition net_family :: "int \<Rightarrow> bool" where
  "net_family fam \<longleftrightarrow> fam = AF_INET \<or> fam = AF_INET6"

lemma ga_aistruct_lists:
  assumes "ga_aistruct hints addr fam ais g = (r, ais', g')"
  shows "nameless ais \<Longrightarrow> nameless ais'" and "r = None \<Longrightarrow> net_family fam \<Longrightarrow> addressed ais \<Longrightarrow> addressed ais'"
  using assms by (auto simp: ga_aistruct_def new_ai_def Let_def net_family_def split: option.splits if_splits)

lemma ga_aistructs_lists:
  assumes "ga_aistructs hints as fam ais g = (r, ais', g')"
  shows "nameless ais \<Longrightarrow> nameless ais'" and "r = None \<Longrightarrow> net_family fam \<Longrightarrow> addressed ais \<Longrightarrow> addressed ais'"
proof -
  have "(nameless ais \<longrightarrow> nameless ais') \<and> (r = None \<and> net_family fam \<and> addressed ais \<longrightarrow> addressed ais')"
    using assms
  proof (induction as arbitrary: ais g)
    case (Cons a as)
    obtain r1 ais1 g1 where one: "ga_aistruct hints a fam ais g = (r1, ais1, g1)" by (metis prod_cases3)
    with ga_aistruct_lists [OF one] Cons show ?case by (cases r1) auto
  qed simp
  then show "nameless ais \<Longrightarrow> nameless ais'" and "r = None \<Longrightarrow> net_family fam \<Longrightarrow> addressed ais \<Longrightarrow> addressed ais'" by auto
qed

lemma set_port_blocks: "ai_blocks (snd (set_port p t ai)) = ai_blocks ai"
  by (simp add: set_port_def ai_blocks_def Let_def)

lemma set_port_addressed [simp]: "ai_addr (snd (set_port p t ai)) = None \<longleftrightarrow> ai_addr ai = None"
  by (simp add: set_port_def Let_def)

lemma ga_port_balance:
  "addressed ais \<Longrightarrow> ga_port ais p t g = (n, ais', g') \<Longrightarrow>
     live g' + blocks ais = live g + blocks ais' \<and> (n \<noteq> None \<longrightarrow> addressed ais')"
proof (induction ais arbitrary: g n ais' g')
  case (Cons ai rest)
  note set_port_blocks [of p t, simp]
  from Cons.prems(1) have ai: "ai_addr ai \<noteq> None" "addressed rest" by auto
  show ?case
  proof (cases "has_flag (ai_flags ai) AI_CLONE \<and> ai_socktype ai \<noteq> 0")
    case True
    obtain new b g1 where cl: "ga_clone ai g = (new, b, g1)" by (metis prod_cases3)
    then have new: "live g1 = live g + blocks new" "b \<Longrightarrow> new = [hd new] \<and> ai_addr (hd new) \<noteq> None"
      using ai by (auto simp: ga_clone_def Let_def ai_blocks_def dest!: calloc_SomeD split: option.splits)
    show ?thesis
    proof (cases b)
      case False
      with True cl Cons.prems(2) new show ?thesis by auto
    next
      case b: True
      with True cl Cons.prems(2) obtain m rest' where
        rest: "ga_port rest p t g1 = (m, rest', g')" "ais' = ai # snd (set_port p t (hd new)) # rest'" "n \<noteq> None \<longleftrightarrow> m \<noteq> None"
        by (auto simp: Let_def split: prod.splits)
      have "blocks new = ai_blocks (hd new)" using new(2) [OF b] by (metis blocks_simps(1,2) add_0_right)
      with Cons.IH [OF ai(2) rest(1)] new b rest ai show ?thesis by auto
    qed
  next
    case False
    obtain m rest' g1 where rest: "ga_port rest p t g = (m, rest', g1)" by (metis prod_cases3)
    obtain k ai2 where sp: "set_port p t ai = (k, ai2)" by fastforce
    then have "ai_blocks ai2 = ai_blocks ai" "ai_addr ai2 \<noteq> None"
      using set_port_blocks [of p t ai] set_port_addressed [of p t ai] ai by auto
    with Cons.IH [OF ai(2) rest] False rest Cons.prems(2) ai sp show ?thesis
      by (auto simp: Let_def split: if_splits)
  qed
qed simp

lemma then_port_balance:
  assumes "addressed ais" and "then_port (Some k, ais, g) port t = (n, ais', g')"
  shows "live g' + blocks ais = live g + blocks ais' \<and> (n \<noteq> None \<longrightarrow> addressed ais')"
proof (cases port)
  case (Some p)
  obtain m ais1 g1 where gp: "ga_port ais p t g = (m, ais1, g1)" by (metis prod_cases3)
  with ga_port_balance [OF assms(1) this] Some assms(2) show ?thesis by (auto simp: then_port_def)
qed (use assms in \<open>auto simp: then_port_def\<close>)

lemma then_port_None [simp]: "then_port (None, ais, g) port t = (None, ais, g)"
  by (simp add: then_port_def)

lemma then_ports_balance:
  assumes "addressed ais" and "then_port (then_port (Some k, ais, g) port t) port' t' = (n, ais', g')"
  shows "live g' + blocks ais = live g + blocks ais'"
proof -
  obtain m ais1 g1 where one: "then_port (Some k, ais, g) port t = (m, ais1, g1)" by (metis prod_cases3)
  show ?thesis
  proof (cases m)
    case None
    with one assms(2) then_port_balance [OF assms(1) one] show ?thesis by simp
  next
    case (Some k')
    with one assms(2) have two: "then_port (Some k', ais1, g1) port' t' = (n, ais', g')" by simp
    from then_port_balance [OF assms(1) one] Some then_port_balance [OF _ two] show ?thesis by auto
  qed
qed

text \<open>A service name that is not looked up is a lookup that finds nothing, so that every case is two calls.\<close>

lemma then_port_skip: "then_port st None t = st"
  by (auto simp: then_port_def split: prod.splits option.splits)

definition first_port :: "resolver \<Rightarrow> int \<Rightarrow> char list \<Rightarrow> u16 option" where
  "first_port res t serv =
     (if is_digit (hd serv) then Some (atoi_port serv)
      else if t = 0 \<or> t = SOCK_STREAM then getservbyname res serv ''tcp'' else None)"

definition second_port :: "resolver \<Rightarrow> int \<Rightarrow> char list \<Rightarrow> u16 option" where
  "second_port res t serv =
     (if is_digit (hd serv) then if t \<noteq> 0 then None else Some (atoi_port serv)
      else if t = 0 \<or> t = SOCK_DGRAM then getservbyname res serv ''udp'' else None)"

lemma ga_serv_ports:
  "ga_serv res ais hints serv g =
     (let t = ai_socktype hints;
          t1 = (if is_digit (hd serv) \<and> t \<noteq> 0 then t else SOCK_STREAM) in
      case then_port (then_port (Some 0, ais, g) (first_port res t serv) t1) (second_port res t serv) SOCK_DGRAM of
        (None, ais', g') \<Rightarrow> (Some EAI_MEMORY, ais', g')
      | (Some nfound, ais', g') \<Rightarrow>
          (if nfound = 0 then if t = 0 then Some EAI_NONAME else Some EAI_SERVICE else None, ais', g'))"
  by (simp add: ga_serv_def first_port_def second_port_def then_port_skip Let_def)

lemma ga_serv_balance:
  assumes "addressed ais" and "ga_serv res ais hints serv g = (r, ais', g')"
  shows "live g' + blocks ais = live g + blocks ais'"
proof -
  define t1 where "t1 = (if is_digit (hd serv) \<and> ai_socktype hints \<noteq> 0 then ai_socktype hints else SOCK_STREAM)"
  obtain n ais1 g1 where
    tp: "then_port (then_port (Some 0, ais, g) (first_port res (ai_socktype hints) serv) t1)
       (second_port res (ai_socktype hints) serv) SOCK_DGRAM = (n, ais1, g1)" by (metis prod_cases3)
  then have "ais1 = ais' \<and> g1 = g'"
    using assms(2) by (auto simp: ga_serv_ports Let_def t1_def split: option.splits)
  with then_ports_balance [OF assms(1) tp] show ?thesis by simp
qed

text \<open>What the resolver promises: it returns Internet addresses.\<close>

definition resolver_ok :: "resolver \<Rightarrow> bool" where
  "resolver_ok res \<longleftrightarrow>
     (\<forall>v6 name h. gethostbyname res v6 name = Inr h \<longrightarrow> net_family (h_addrtype h)) \<and>
     (\<forall>name fam h. gethostbyname2 res name fam = Inr h \<longrightarrow> net_family (h_addrtype h))"

definition wants_canon :: "char list option \<Rightarrow> addrinfo \<Rightarrow> bool" where
  "wants_canon hostname hints \<longleftrightarrow> \<not> absent hostname \<and> has_flag (ai_flags hints) AI_CANONNAME"

definition canon_block :: "char list option \<Rightarrow> nat" where
  "canon_block canon = (if canon = None then 0 else 1)"

text \<open>
  The list and the name saved account for every block; on an error the name may be lost, if one was asked for.
\<close>

definition step_ok :: "bool \<Rightarrow> nat \<Rightarrow> gai_step \<Rightarrow> bool" where
  "step_ok wants base st =
     (case st of
        Next ais canon g \<Rightarrow> live g = base + blocks ais + canon_block canon \<and> addressed ais \<and> nameless ais \<and>
          (canon \<noteq> None \<longrightarrow> wants)
      | Bad e ais g \<Rightarrow> live g = base + blocks ais \<or> wants \<and> live g = base + blocks ais + 1
      | Undef \<Rightarrow> True)"

lemma after_aistruct_ok:
  assumes "step_ok wants base (Next ais canon g)" and "net_family fam"
  shows "step_ok wants base (after_aistruct canon (ga_aistructs hints as fam ais g))"
proof -
  obtain r ais' g' where r: "ga_aistructs hints as fam ais g = (r, ais', g')" by (metis prod_cases3)
  from ga_aistructs_balance [OF r] ga_aistructs_lists [OF r] assms show ?thesis
    by (auto simp: after_aistruct_def r step_ok_def canon_block_def split: option.splits)
qed

lemma ga_aistruct_single: "ga_aistruct hints a fam ais g = ga_aistructs hints [a] fam ais g"
  by (auto split: prod.splits option.splits)

lemma calloc_step_ok:
  assumes "step_ok wants base (Next ais None g)" and "calloc g = Some g1" and wants
  shows "step_ok wants base (Next ais (Some name) g1)"
  using assms by (auto simp: step_ok_def canon_block_def dest: calloc_SomeD)

lemma gai_lookup_ok:
  assumes "resolver_ok res" and ok: "step_ok (wants_canon hostname hints) base (Next ais canon g)"
  shows "step_ok (wants_canon hostname hints) base (gai_lookup res hostname hints n s ais canon g)"
proof -
  let ?w = "wants_canon hostname hints"
  have bad: "step_ok ?w base (Bad e ais g)" for e
    using ok by (auto simp: step_ok_def canon_block_def split: if_splits)
  define q where "q = (if n = 2 then gethostbyname2 res (host s) (family s)
    else gethostbyname res (family s = AF_INET6) (host s))"
  show ?thesis
  proof (cases q)
    case (Inl e)
    with ok bad show ?thesis by (simp add: gai_lookup_def q_def [symmetric])
  next
    case (Inr h)
    then have fam: "net_family (h_addrtype h)" using assms(1) by (auto simp: q_def resolver_ok_def split: if_splits)
    have named: "step_ok ?w base (after_aistruct (Some name) (ga_aistructs hints (h_addr_list h) (h_addrtype h) ais g1))"
      if "canon = None" "calloc g = Some g1" ?w for name g1
      using after_aistruct_ok [OF calloc_step_ok fam] ok that by simp
    show ?thesis
    proof (cases "?w \<and> canon = None")
      case True
      with Inr bad named show ?thesis
        by (simp add: gai_lookup_def q_def [symmetric] wants_canon_def step_ok_def [of _ _ Undef] split: option.split)
    next
      case False
      with Inr bad after_aistruct_ok [OF ok fam] show ?thesis
        by (auto simp: gai_lookup_def q_def [symmetric] wants_canon_def)
    qed
  qed
qed

lemma gai_search_ok:
  assumes "resolver_ok res" and ok: "step_ok (wants_canon hostname hints) base (Next ais canon g)"
  shows "step_ok (wants_canon hostname hints) base (gai_search res hostname hints n s ais canon g)"
proof -
  have "step_ok (wants_canon hostname hints) base (Bad e ais g)" for e
    using ok by (auto simp: step_ok_def canon_block_def split: if_splits)
  then have "step_ok (wants_canon hostname hints) base (gai_numeric hints s fam addr ais canon g)"
    if "net_family fam" for fam addr
    using ok after_aistruct_ok [OF ok that] by (simp add: gai_numeric_def ga_aistruct_single del: ga_aistructs.simps)
  from this [of AF_INET] this [of AF_INET6] gai_lookup_ok [OF assms, of n s] show ?thesis
    by (simp add: gai_search_def Let_def net_family_def split: option.split)
qed

lemma gai_searches_ok:
  assumes "resolver_ok res" and "step_ok (wants_canon hostname hints) base (Next ais canon g)"
  shows "step_ok (wants_canon hostname hints) base (gai_searches res hostname hints n ss ais canon g)"
  using assms(2)
proof (induction ss arbitrary: ais canon g)
  case (Cons s ss)
  show ?case
  proof (cases "gai_search res hostname hints n s ais canon g")
    case (Next ais' canon' g')
    with gai_search_ok [OF assms(1) Cons.prems, of n s] Cons.IH show ?thesis by simp
  next
    case (Bad e ais' g')
    with gai_search_ok [OF assms(1) Cons.prems, of n s] show ?thesis by simp
  qed (simp add: step_ok_def)
qed simp

text \<open>What a call may leave allocated when it fails.\<close>

definition result_ok :: "bool \<Rightarrow> nat \<Rightarrow> gai_result \<Rightarrow> bool" where
  "result_ok wants base r =
     (case r of
        Found ais g \<Rightarrow> live g = base + blocks ais
      | Failed e g \<Rightarrow> live g = base \<or> wants \<and> live g = base + 1
      | _ \<Rightarrow> True)"

lemma gai_canon_ok:
  assumes "step_ok wants base (Next ais canon g)" and "ais \<noteq> []"
    and "gai_canon hostname hints name canon ais g = (r, ais', g')" and "wants \<longleftrightarrow> wants_canon hostname hints"
  shows "live g' = base + blocks ais' \<and> addressed ais'"
proof -
  obtain ai rest where [simp]: "ais = ai # rest" using assms(2) by (cases ais) auto
  from assms show ?thesis
    by (auto simp: gai_canon_def step_ok_def canon_block_def wants_canon_def ai_blocks_def
        dest!: calloc_SomeD split: if_splits option.splits)
qed

lemma gai_finish_ok:
  assumes st: "step_ok (wants_canon hostname hints) base st"
  shows "result_ok (wants_canon hostname hints) base (gai_finish res hostname servname hints name st)"
proof (cases st)
  case (Bad e ais g)
  with st show ?thesis by (auto simp: gai_finish_def freeaddrinfo_blocks step_ok_def result_ok_def)
next
  case (Next ais canon g)
  show ?thesis
  proof (cases "ais = []")
    case True
    with Next st show ?thesis
      by (auto simp: gai_finish_def step_ok_def result_ok_def canon_block_def split: if_splits)
  next
    case False
    obtain r ais1 g1 where c: "gai_canon hostname hints name canon ais g = (r, ais1, g1)" by (metis prod_cases3)
    have live: "live g1 = base + blocks ais1" "addressed ais1"
      using gai_canon_ok [OF _ False c refl] st Next by auto
    obtain r2 ais2 g2 where s: "ga_serv res ais1 hints (the servname) g1 = (r2, ais2, g2)" by (metis prod_cases3)
    from ga_serv_balance [OF live(2) s] live(1) have "live g2 = base + blocks ais2" by simp
    with Next False c s live(1) show ?thesis
      by (auto simp: gai_finish_def freeaddrinfo_blocks result_ok_def split: option.splits)
  qed
qed (simp add: gai_finish_def result_ok_def)

definition unix_names :: "char list option \<Rightarrow> bool" where
  "unix_names hostname \<longleftrightarrow> hostname = Some ''/local'' \<or> hostname = Some ''/unix''"

lemma getaddrinfo_result_ok:
  assumes "resolver_ok res" and "\<not> unix_names hostname"
  shows "result_ok (wants_canon hostname (case hintsp of None \<Rightarrow> no_hints | Some h \<Rightarrow> h)) (live g)
    (getaddrinfo res hostname servname hintsp g)"
proof -
  have "step_ok w (live g) (Next [] None g)" for w by (simp add: step_ok_def canon_block_def)
  note gai_finish_ok [OF gai_searches_ok [OF assms(1) this]]
  with assms(2) show ?thesis
    by (auto simp: getaddrinfo_def Let_def result_ok_def [of _ _ Quits] result_ok_def [of _ _ "Failed _ _"]
        unix_names_def split: option.splits run.splits)
qed

section \<open>The endpoints found\<close>

text \<open>What a caller passes to \<^verbatim>\<open>socket\<close> and \<^verbatim>\<open>connect\<close>: family, socket type, protocol and socket address.\<close>

type_synonym endpoint = "int \<times> int \<times> int \<times> sockaddr option"

definition endpoint_of :: "addrinfo \<Rightarrow> endpoint" where
  "endpoint_of ai = (ai_family ai, ai_socktype ai, ai_protocol ai, ai_addr ai)"

definition net_addr :: "int \<Rightarrow> u16 \<Rightarrow> nat list \<Rightarrow> sockaddr" where
  "net_addr fam port a = (if fam = AF_INET then Sin port (take 4 a) else Sin6 port (take 16 a))"

definition filled :: "addrinfo \<Rightarrow> int \<Rightarrow> nat list \<Rightarrow> addrinfo" where
  "filled hints fam a = (new_ai hints fam)\<lparr>ai_addr := Some (net_addr fam 0 a),
     ai_addrlen := (if fam = AF_INET then 16 else 28)\<rparr>"

text \<open>The socket types and ports a service stands for, in the order they are tried.\<close>

definition service_ports :: "resolver \<Rightarrow> int \<Rightarrow> char list \<Rightarrow> (int \<times> u16) list" where
  "service_ports res t serv =
     (case first_port res t serv of
        None \<Rightarrow> []
      | Some p \<Rightarrow> [(if is_digit (hd serv) \<and> t \<noteq> 0 then t else SOCK_STREAM, p)]) @
     (case second_port res t serv of None \<Rightarrow> [] | Some p \<Rightarrow> [(SOCK_DGRAM, p)])"

fun with_port :: "endpoint \<Rightarrow> int \<times> u16 \<Rightarrow> endpoint" where
  "with_port (fam, _, proto, sa) (t, p) = (fam, t, proto, map_option (put_port p) sa)"

definition fresh_ai :: "addrinfo \<Rightarrow> addrinfo \<Rightarrow> bool" where
  "fresh_ai hints ai \<longleftrightarrow> ai_flags ai = (if ai_socktype hints = 0 then AI_CLONE else 0) \<and>
     ai_socktype ai = ai_socktype hints \<and> net_family (ai_family ai) \<and> ai_addr ai \<noteq> None"

lemma has_flag_clone [simp]: "has_flag AI_CLONE AI_CLONE" "\<not> has_flag 0 AI_CLONE"
  by (simp_all add: has_flag_def)

lemma set_port_net: "net_family (ai_family ai) \<Longrightarrow>
    set_port p t ai = (1, ai\<lparr>ai_socktype := t, ai_addr := map_option (put_port p) (ai_addr ai)\<rparr>)"
  by (auto simp: set_port_def net_family_def)

text \<open>The first call fills in every structure, the second one adds a clone of each.\<close>

lemma ga_port_first:
  assumes "list_all (fresh_ai hints) ais" and "ai_socktype hints = 0 \<or> ai_socktype hints = t"
  shows "ga_port ais p t g = (Some (length ais),
    map (\<lambda>ai. ai\<lparr>ai_socktype := t, ai_addr := map_option (put_port p) (ai_addr ai)\<rparr>) ais, g)"
  using assms by (induction ais) (auto simp: fresh_ai_def set_port_net)

definition cloned :: "addrinfo \<Rightarrow> addrinfo" where
  "cloned ai = ai\<lparr>ai_flags := 0, ai_canonname := None\<rparr>"

lemma ga_port_second:
  assumes "list_all (\<lambda>ai. ai_flags ai = AI_CLONE \<and> ai_socktype ai \<noteq> 0 \<and> net_family (ai_family ai)) ais"
    and "2 * length ais \<le> left g"
  shows "ga_port ais p t g = (Some (length ais),
    concat (map (\<lambda>ai. [ai, (cloned ai)\<lparr>ai_socktype := t, ai_addr := map_option (put_port p) (ai_addr ai)\<rparr>]) ais),
    g\<lparr>left := left g - 2 * length ais, live := live g + 2 * length ais\<rparr>)"
  using assms
proof (induction ais arbitrary: g)
  case (Cons ai ais)
  let ?g = "g\<lparr>left := left g - 2, live := live g + 2\<rparr>"
  have cl: "ga_clone ai g = ([(cloned ai)], True, ?g)"
    using Cons.prems(2) by (simp add: ga_clone_def calloc_def cloned_def)
  have "net_family (ai_family (cloned ai))" using Cons.prems(1) by (simp add: cloned_def)
  note sp = set_port_net [OF this]
  from Cons.prems have "2 * length ais \<le> left ?g" by simp
  with Cons show ?case by (simp add: cl sp) (simp add: cloned_def)
qed simp

lemma then_port_Some:
  "ga_port ais p t g = (Some n, ais', g') \<Longrightarrow> then_port (Some k, ais, g) (Some p) t = (Some (k + n), ais', g')"
  by (simp add: then_port_def)

lemma ga_serv_endpoints:
  assumes fresh: "list_all (fresh_ai hints) ais" and "ais \<noteq> []" and "service_ports res (ai_socktype hints) serv \<noteq> []"
    and mem: "2 * length ais \<le> left g"
  shows "\<exists>ais' g'. ga_serv res ais hints serv g = (None, ais', g') \<and>
    map endpoint_of ais' = concat (map (\<lambda>ai. map (with_port (endpoint_of ai)) (service_ports res (ai_socktype hints) serv)) ais)"
proof -
  let ?t = "ai_socktype hints"
  let ?t1 = "if is_digit (hd serv) \<and> ?t \<noteq> 0 then ?t else SOCK_STREAM"
  let ?fill = "\<lambda>p t. map (\<lambda>ai. ai\<lparr>ai_socktype := t, ai_addr := map_option (put_port p) (ai_addr ai)\<rparr>) ais"
  let ?clones = "\<lambda>q ais. concat (map (\<lambda>ai. [ai, (cloned ai)\<lparr>ai_socktype := SOCK_DGRAM, ai_addr := map_option (put_port q) (ai_addr ai)\<rparr>]) ais)"
  note first = then_port_Some [OF ga_port_first [OF fresh]]
  consider (one) p where "first_port res ?t serv = Some p" "second_port res ?t serv = None"
    | (two) q where "first_port res ?t serv = None" "second_port res ?t serv = Some q"
    | (both) p q where "first_port res ?t serv = Some p" "second_port res ?t serv = Some q" "?t = 0"
    using assms(3) by (force simp: service_ports_def first_port_def second_port_def split: option.splits if_splits)
  then show ?thesis
  proof cases
    case one
    then have "?t = 0 \<or> ?t = ?t1" by (auto simp: first_port_def split: if_splits)
    from first [OF this, of 0 g p] one assms(2) have "ga_serv res ais hints serv g = (None, ?fill p ?t1, g)"
      by (simp add: ga_serv_ports Let_def then_port_skip)
    moreover have "map endpoint_of (?fill p ?t1) = concat (map (\<lambda>ai. [with_port (endpoint_of ai) (?t1, p)]) ais)"
      by (induction ais) (simp_all add: endpoint_of_def)
    ultimately show ?thesis using one by (simp add: service_ports_def)
  next
    case two
    then have "?t = 0 \<or> ?t = SOCK_DGRAM" by (auto simp: second_port_def split: if_splits)
    from first [OF this, of 0 g q] two assms(2) have "ga_serv res ais hints serv g = (None, ?fill q SOCK_DGRAM, g)"
      by (simp add: ga_serv_ports Let_def then_port_skip)
    moreover have "map endpoint_of (?fill q SOCK_DGRAM) = concat (map (\<lambda>ai. [with_port (endpoint_of ai) (SOCK_DGRAM, q)]) ais)"
      by (induction ais) (simp_all add: endpoint_of_def)
    ultimately show ?thesis using two by (simp add: service_ports_def)
  next
    case both
    let ?g = "g\<lparr>left := left g - 2 * length ais, live := live g + 2 * length ais\<rparr>"
    have "list_all (\<lambda>ai. ai_flags ai = AI_CLONE \<and> ai_socktype ai \<noteq> 0 \<and> net_family (ai_family ai)) (?fill p SOCK_STREAM)"
      using fresh both(3) by (auto simp: list_all_iff fresh_ai_def)
    from ga_port_second [OF this, of g] mem
    have "ga_port (?fill p SOCK_STREAM) q SOCK_DGRAM g = (Some (length ais), ?clones q (?fill p SOCK_STREAM), ?g)" by simp
    from then_port_Some [OF this] first [of SOCK_STREAM 0 g p] both assms(2)
    have "ga_serv res ais hints serv g = (None, ?clones q (?fill p SOCK_STREAM), ?g)"
      by (simp add: ga_serv_ports Let_def)
    moreover have "put_port q (put_port p sa) = put_port q sa" for sa by (cases sa) simp_all
    then have "map endpoint_of (?clones q (?fill p SOCK_STREAM)) =
        concat (map (\<lambda>ai. map (with_port (endpoint_of ai)) [(SOCK_STREAM, p), (SOCK_DGRAM, q)]) ais)"
      by (induction ais) (simp_all add: endpoint_of_def cloned_def option.map_comp o_def)
    ultimately show ?thesis using both by (simp add: service_ports_def)
  qed
qed

text \<open>The endpoints of a list of addresses, for a service or for none.\<close>

definition endpoints :: "resolver \<Rightarrow> addrinfo \<Rightarrow> char list option \<Rightarrow> (int \<times> nat list) list \<Rightarrow> endpoint list" where
  "endpoints res hints servname addrs =
     concat (map (\<lambda>(fam, a).
       map (\<lambda>(t, p). (fam, t, ai_protocol hints, Some (net_addr fam p a)))
         (if absent servname then [(ai_socktype hints, 0)]
          else service_ports res (ai_socktype hints) (the servname))) addrs)"

definition fresh_list :: "addrinfo \<Rightarrow> (int \<times> nat list) list \<Rightarrow> addrinfo list \<Rightarrow> bool" where
  "fresh_list hints addrs ais \<longleftrightarrow> list_all (fresh_ai hints) ais \<and>
     map endpoint_of ais = map (\<lambda>(fam, a). (fam, ai_socktype hints, ai_protocol hints, Some (net_addr fam 0 a))) addrs"

lemma fresh_list_filled:
  "net_family fam \<Longrightarrow> fresh_list hints (map (Pair fam) as) (map (filled hints fam) as)"
  by (auto simp: fresh_list_def filled_def new_ai_def fresh_ai_def endpoint_of_def list_all_iff)

lemma fresh_list_append:
  "fresh_list hints as xs \<Longrightarrow> fresh_list hints bs ys \<Longrightarrow> fresh_list hints (as @ bs) (xs @ ys)"
  by (auto simp: fresh_list_def)

lemma canonname_irrelevant [simp]:
  "endpoint_of (ai\<lparr>ai_canonname := c\<rparr>) = endpoint_of ai"
  "fresh_ai hints (ai\<lparr>ai_canonname := c\<rparr>) = fresh_ai hints ai"
  by (simp_all add: endpoint_of_def fresh_ai_def)

lemma fresh_list_name:
  "fresh_list hints as (ai # ais) \<Longrightarrow> fresh_list hints as (ai\<lparr>ai_canonname := c\<rparr> # ais)"
  by (simp add: fresh_list_def)

lemma fresh_list_length: "fresh_list hints as xs \<Longrightarrow> length xs = length as"
  unfolding fresh_list_def by (elim conjE, drule arg_cong [of _ _ length]) simp

lemma put_port_net_addr [simp]: "put_port p (net_addr fam q a) = net_addr fam p a"
  by (simp add: net_addr_def)

lemma with_port_pair: "with_port (fam, t, proto, sa) = (\<lambda>x. (fam, fst x, proto, map_option (put_port (snd x)) sa))"
  by (rule ext) auto

lemma fresh_list_endpoints:
  assumes "fresh_list hints as ais" and "\<not> absent servname"
  shows "concat (map (\<lambda>ai. map (with_port (endpoint_of ai)) (service_ports res (ai_socktype hints) (the servname))) ais) =
    endpoints res hints servname as"
proof -
  let ?ps = "service_ports res (ai_socktype hints) (the servname)"
  have "map (\<lambda>ai. map (with_port (endpoint_of ai)) ?ps) ais = map (\<lambda>e. map (with_port e) ?ps) (map endpoint_of ais)"
    by simp
  also have "map endpoint_of ais = map (\<lambda>(fam, a). (fam, ai_socktype hints, ai_protocol hints, Some (net_addr fam 0 a))) as"
    using assms(1) by (simp add: fresh_list_def)
  finally show ?thesis using assms(2) by (simp add: endpoints_def o_def case_prod_unfold with_port_pair)
qed

lemma gai_finish_found:
  assumes fresh: "fresh_list hints as ais" and "as \<noteq> []" and mem: "2 * length as < left g"
    and serv: "absent servname \<or> service_ports res (ai_socktype hints) (the servname) \<noteq> []"
  shows "\<exists>ais' g'. gai_finish res hostname servname hints name (Next ais canon g) = Found ais' g' \<and>
    map endpoint_of ais' = endpoints res hints servname as"
proof -
  have ne: "ais \<noteq> []" using fresh_list_length [OF fresh] assms(2) by auto
  obtain ai rest where ais: "ais = ai # rest" using ne by (cases ais) auto
  have "\<exists>ais1 g1. gai_canon hostname hints name canon ais g = (None, ais1, g1) \<and> fresh_list hints as ais1 \<and>
      2 * length as \<le> left g1"
    using fresh mem by (auto simp: gai_canon_def calloc_def ais fresh_list_name split: option.splits)
  then obtain ais1 g1 where c: "gai_canon hostname hints name canon ais g = (None, ais1, g1)"
    and fresh1: "fresh_list hints as ais1" and mem1: "2 * length as \<le> left g1" by blast
  show ?thesis
  proof (cases "absent servname")
    case True
    have "map endpoint_of ais1 = endpoints res hints servname as"
      using fresh1 True by (simp add: endpoints_def fresh_list_def case_prod_unfold)
    with True c ne show ?thesis by (simp add: gai_finish_def)
  next
    case False
    have "list_all (fresh_ai hints) ais1" "ais1 \<noteq> []" "2 * length ais1 \<le> left g1"
      using fresh1 mem1 fresh_list_length [OF fresh1] assms(2) by (auto simp: fresh_list_def)
    from ga_serv_endpoints [OF this(1,2) _ this(3), of res "the servname"] serv False obtain ais2 g2 where
      "ga_serv res ais1 hints (the servname) g1 = (None, ais2, g2)" "map endpoint_of ais2 = endpoints res hints servname as"
      using fresh_list_endpoints [OF fresh1 False] by auto
    with False c ne show ?thesis by (simp add: gai_finish_def)
  qed
qed

text \<open>Enough memory: every address of a host becomes a structure.\<close>

lemma ga_aistruct_filled:
  "net_family fam \<Longrightarrow> 2 \<le> left g \<Longrightarrow>
     ga_aistruct hints a fam ais g = (None, ais @ [filled hints fam a], g\<lparr>left := left g - 2, live := live g + 2\<rparr>)"
  by (auto simp: ga_aistruct_def calloc_def filled_def net_family_def net_addr_def Let_def)

lemma ga_aistructs_filled:
  "net_family fam \<Longrightarrow> 2 * length as \<le> left g \<Longrightarrow>
     ga_aistructs hints as fam ais g =
       (None, ais @ map (filled hints fam) as, g\<lparr>left := left g - 2 * length as, live := live g + 2 * length as\<rparr>)"
  by (induction as arbitrary: ais g) (simp_all add: ga_aistruct_filled)

section \<open>Names and numeric addresses\<close>

text \<open>
  What the resolver documents: addresses of the family asked for, with a name.
\<close>

definition resolver_faithful :: "resolver \<Rightarrow> bool" where
  "resolver_faithful res \<longleftrightarrow>
     (\<forall>v6 name h. gethostbyname res v6 name = Inr h \<longrightarrow>
        h_addrtype h = (if v6 then AF_INET6 else AF_INET) \<and> h_name h \<noteq> None) \<and>
     (\<forall>name fam h. gethostbyname2 res name fam = Inr h \<longrightarrow> h_addrtype h = fam \<and> h_name h \<noteq> None)"

definition hints_ok :: "addrinfo \<Rightarrow> bool" where
  "hints_ok hints \<longleftrightarrow> ai_flags hints AND NOT (AI_PASSIVE OR AI_CANONNAME) = 0 \<and> inet_socktype (ai_socktype hints) \<and>
     (ai_family hints = AF_UNSPEC \<or> net_family (ai_family hints))"

definition addrs_of :: "h_err + hostent \<Rightarrow> (int \<times> nat list) list" where
  "addrs_of r = (case r of Inl _ \<Rightarrow> [] | Inr h \<Rightarrow> map (Pair (h_addrtype h)) (h_addr_list h))"

text \<open>The addresses of a host: those of the family wanted, or the IPv6 addresses and then the IPv4 addresses.\<close>

definition host_addrs :: "resolver \<Rightarrow> int \<Rightarrow> char list \<Rightarrow> (int \<times> nat list) list" where
  "host_addrs res fam name =
     (if fam = AF_UNSPEC then
        addrs_of (gethostbyname2 res name AF_INET6) @ addrs_of (gethostbyname2 res name AF_INET)
      else addrs_of (gethostbyname res (fam = AF_INET6) name))"

text \<open>A name that is neither a numeric address nor one of the two names for Unix domain sockets.\<close>

definition symbolic :: "resolver \<Rightarrow> char list \<Rightarrow> bool" where
  "symbolic res name \<longleftrightarrow> name \<noteq> [] \<and> \<not> unix_names (Some name) \<and>
     inet_pton4 (stack_junk res) name = None \<and> inet_pton6 (stack_junk res) name = None"

lemma families [simp]:
  "AF_INET \<noteq> 0" "AF_INET6 \<noteq> 0" "AF_INET \<noteq> 1" "AF_INET6 \<noteq> 1" "AF_INET \<noteq> AF_INET6" "AF_INET6 \<noteq> AF_INET"
  by (simp_all add: AF_INET_def AF_INET6_def)

lemma gai_search_symbolic:
  "symbolic res (host s) \<Longrightarrow> gai_search res hostname hints n s ais canon g = gai_lookup res hostname hints n s ais canon g"
  by (simp add: gai_search_def symbolic_def)

lemma gai_lookup_adds:
  assumes "resolver_faithful res" and "net_family (family s)" and "ai_family hints = AF_UNSPEC \<or> ai_family hints = family s"
    and q: "q = (if n = 2 then gethostbyname2 res (host s) (family s) else gethostbyname res (family s = AF_INET6) (host s))"
    and "n = 2 \<or> (\<exists>h. q = Inr h)" and "2 * length (addrs_of q) < left g" and "fresh_list hints as ais"
  shows "\<exists>ais' canon' g'. gai_lookup res hostname hints n s ais canon g = Next ais' canon' g' \<and>
    fresh_list hints (as @ addrs_of q) ais' \<and> left g \<le> left g' + 2 * length (addrs_of q) + 1"
proof (cases q)
  case (Inl e)
  with assms(5,7) show ?thesis unfolding gai_lookup_def q [symmetric] by (auto simp: addrs_of_def)
next
  case (Inr h)
  then have h: "h_addrtype h = family s" "h_name h \<noteq> None"
    using assms(1,2) q by (auto simp: resolver_faithful_def net_family_def split: if_splits)
  have len: "length (addrs_of q) = length (h_addr_list h)" by (simp add: Inr addrs_of_def)
  have add: "ga_aistructs hints (h_addr_list h) (h_addrtype h) ais g1 =
      (None, ais @ map (filled hints (family s)) (h_addr_list h),
       g1\<lparr>left := left g1 - 2 * length (h_addr_list h), live := live g1 + 2 * length (h_addr_list h)\<rparr>)"
    if "2 * length (h_addr_list h) \<le> left g1" for g1
    using ga_aistructs_filled [OF assms(2) that] h by simp
  have "fresh_list hints (as @ addrs_of q) (ais @ map (filled hints (family s)) (h_addr_list h))"
    using fresh_list_append [OF assms(7) fresh_list_filled [OF assms(2)]] h by (simp add: Inr addrs_of_def)
  with Inr h add assms(3,6) len show ?thesis
    unfolding gai_lookup_def q [symmetric] by (auto simp: calloc_def after_aistruct_def split: if_splits)
qed

lemma ga_nsearch_host:
  assumes "hints_ok hints" and "name \<noteq> []"
  shows "ga_nsearch (Some name) hints = Ret (by_family (ai_family hints) name name)"
  using assms by (auto simp: ga_nsearch_def by_family_def absent_def hints_ok_def net_family_def Let_def)

lemma getaddrinfo_host:
  assumes "hints_ok hints" and "name \<noteq> []" and "\<not> unix_names (Some name)"
  shows "getaddrinfo res (Some name) servname (Some hints) g =
    gai_finish res (Some name) servname hints name
      (gai_searches res (Some name) hints (length (by_family (ai_family hints) name name))
        (by_family (ai_family hints) name name) [] None g)"
proof -
  have "ga_echeck (Some name) servname (ai_flags hints) (ai_family hints) (ai_socktype hints) (ai_protocol hints) = None"
    using assms by (auto simp: ga_echeck_def hints_ok_def net_family_def absent_def)
  moreover have "host (hd (by_family (ai_family hints) name name)) = name"
    using assms(1) by (auto simp: by_family_def hints_ok_def net_family_def)
  ultimately show ?thesis
    using assms ga_nsearch_host [OF assms(1,2)] by (simp add: getaddrinfo_def unix_names_def)
qed

lemma gai_searches_named:
  assumes "resolver_faithful res" and "symbolic res name" and "hints_ok hints"
    and addrs: "host_addrs res (ai_family hints) name \<noteq> []"
    and mem: "4 * length (host_addrs res (ai_family hints) name) + 3 \<le> left g"
  shows "\<exists>ais canon g'. gai_searches res (Some name) hints (length (by_family (ai_family hints) name name))
      (by_family (ai_family hints) name name) [] None g = Next ais canon g' \<and>
    fresh_list hints (host_addrs res (ai_family hints) name) ais \<and>
    2 * length (host_addrs res (ai_family hints) name) < left g'"
proof (cases "ai_family hints = AF_UNSPEC")
  case True
  let ?s6 = "\<lparr>host = name, family = AF_INET6\<rparr>" and ?s4 = "\<lparr>host = name, family = AF_INET\<rparr>"
  let ?q6 = "gethostbyname2 res name AF_INET6" and ?q4 = "gethostbyname2 res name AF_INET"
  have nil: "fresh_list hints [] []" by (simp add: fresh_list_def)
  have mem6: "2 * length (addrs_of ?q6) < left g" using mem True by (simp add: host_addrs_def)
  from gai_lookup_adds [of res ?s6 hints ?q6 2 g "[]" "[]" "Some name" None, OF assms(1) _ _ _ _ mem6 nil] True
  obtain ais canon g1 where one: "gai_lookup res (Some name) hints 2 ?s6 [] None g = Next ais canon g1"
    "fresh_list hints (addrs_of ?q6) ais" "left g \<le> left g1 + 2 * length (addrs_of ?q6) + 1"
    by (auto simp: net_family_def)
  have mem4: "2 * length (addrs_of ?q4) < left g1" using one(3) mem True by (simp add: host_addrs_def)
  from gai_lookup_adds [of res ?s4 hints ?q4 2 g1 "addrs_of ?q6" ais "Some name" canon, OF assms(1) _ _ _ _ mem4 one(2)] True
  obtain ais' canon' g2 where two: "gai_lookup res (Some name) hints 2 ?s4 ais canon g1 = Next ais' canon' g2"
    "fresh_list hints (addrs_of ?q6 @ addrs_of ?q4) ais'" "left g1 \<le> left g2 + 2 * length (addrs_of ?q4) + 1"
    by (auto simp: net_family_def)
  from True one two mem assms(2) show ?thesis
    by (simp add: by_family_def gai_search_symbolic host_addrs_def flip: numeral_2_eq_2)
next
  case False
  let ?fam = "ai_family hints" let ?s = "\<lparr>host = name, family = ?fam\<rparr>"
  let ?q = "gethostbyname res (?fam = AF_INET6) name"
  have net: "net_family ?fam" using assms(3) False by (simp add: hints_ok_def)
  have q: "\<exists>h. ?q = Inr h" using addrs False by (cases ?q) (auto simp: host_addrs_def addrs_of_def)
  have nil: "fresh_list hints [] []" by (simp add: fresh_list_def)
  have mem1: "2 * length (addrs_of ?q) < left g" using mem False by (simp add: host_addrs_def)
  from gai_lookup_adds [of res ?s hints ?q 1 g "[]" "[]" "Some name" None, OF assms(1) _ _ _ _ mem1 nil] net q
  obtain ais canon g1 where "gai_lookup res (Some name) hints 1 ?s [] None g = Next ais canon g1"
    "fresh_list hints (addrs_of ?q) ais" "left g \<le> left g1 + 2 * length (addrs_of ?q) + 1"
    by auto
  moreover have "by_family ?fam name name = [?s]" using net by (auto simp: by_family_def net_family_def)
  ultimately show ?thesis using False mem assms(2) by (simp add: gai_search_symbolic host_addrs_def)
qed

text \<open>The text of an IPv6 address contains a colon and begins with one or with a digit; no IPv4 address does.\<close>

lemma fmt6_loop_prefix: "fmt6_loop src ws best i tp = Inr t \<Longrightarrow> \<exists>u. t = tp @ u"
proof (induction "8 - i" arbitrary: i tp)
  case 0
  then show ?case by (simp add: fmt6_loop.simps)
next
  case (Suc k)
  then have "k = 8 - Suc i" by simp
  note IH = Suc.hyps(1) [OF this]
  show ?case
  proof (cases "i = 0")
    case True
    from Suc.prems show ?thesis unfolding True
      by (subst (asm) fmt6_loop.simps) (auto simp: Let_def dest!: IH [unfolded True] split: if_splits sum.splits)
  next
    case False
    with Suc.prems show ?thesis
      by (subst (asm) fmt6_loop.simps) (auto simp: Let_def dest!: IH split: if_splits sum.splits)
  qed
qed

lemma show_base_16_digit: "show_base 16 n \<noteq> [] \<and> xdigit_of (hd (show_base 16 n)) \<noteq> None"
proof (induction "16 :: nat" n rule: show_base.induct)
  case (1 n)
  then show ?case
    using xdigit_of_digit_char [of n] by (subst (1 2) show_base.simps) (auto simp: hd_append)
qed

lemma fmt6_loop_colon:
  assumes "fmt6_loop src ws best 0 [] = Inr t" and "-1 \<le> fst best"
  shows "CHR '':'' \<in> set t \<and> (hd t = CHR '':'' \<or> xdigit_of (hd t) \<noteq> None)"
proof (cases "fst best = 0 \<and> 0 < snd best")
  case True
  then have "fmt6_loop src ws best 1 '':'' = Inr t"
    using assms by (subst (asm) fmt6_loop.simps) simp
  from fmt6_loop_prefix [OF this] show ?thesis by auto
next
  case False
  let ?d = "show_base 16 (ws ! 0)"
  from False have one: "fmt6_loop src ws best 1 ?d = Inr t"
    using assms(1) assms(2) by (subst (asm) fmt6_loop.simps) (auto simp: Let_def split: if_splits)
  then have "\<exists>u. t = ?d @ '':'' @ u"
    using False assms(2) by (subst (asm) fmt6_loop.simps) (auto simp: Let_def dest!: fmt6_loop_prefix split: if_splits sum.splits)
  with show_base_16_digit [of "ws ! 0"] show ?thesis by (auto simp: hd_append)
qed

lemma inet6_text_colon:
  assumes "inet_ntop6_text src = Inr t"
  shows "t \<noteq> [] \<and> CHR '':'' \<in> set t \<and> (hd t = CHR '':'' \<or> xdigit_of (hd t) \<noteq> None)"
proof -
  obtain tp where tp: "fmt6_loop src (words_of src) (best_run (words_of src)) 0 [] = Inr tp" "t = tp \<or> t = tp @ '':''"
    using assms by (auto simp: inet_ntop6_text_def Let_def split: sum.splits if_splits)
  have "length (words_of src) = 8" by (simp add: words_of_def)
  from best_run_cases [OF this] have "-1 \<le> fst (best_run (words_of src))"
    by (auto simp: leftmost_longest_def zero_run_def case_prod_unfold split: if_splits)
  note colon = fmt6_loop_colon [OF tp(1) this]
  then have "tp \<noteq> []" by auto
  with tp(2) colon show ?thesis by (auto simp: hd_append)
qed

lemma inet_pton4_colon:
  assumes "length junk = 4" and "CHR '':'' \<in> set t"
  shows "inet_pton4 junk t = None"
proof (rule ccontr)
  assume "inet_pton4 junk t \<noteq> None"
  then obtain os where os: "list_all octet_text os" "t = dotted os"
    using quad_dotted [of 4 t] inet_pton4_quad [OF assms(1), of t] by auto
  have "set (dotted xs) \<subseteq> \<Union> (set ` set xs) \<union> {CHR ''.''}" for xs
    by (auto simp: dotted_def split: list.splits)
  from this [of os] os assms(2) obtain x where "octet_text x" "CHR '':'' \<in> set x" by (auto simp: list_all_iff)
  then have "is_digit (CHR '':'')" by (auto simp: octet_text_def list_all_iff)
  then show False by (simp add: is_digit_def digit_of_def)
qed

text \<open>The text of an address, and the address it is read as.\<close>

definition numeric_host :: "resolver \<Rightarrow> int \<Rightarrow> nat list \<Rightarrow> char list \<Rightarrow> bool" where
  "numeric_host res fam a str \<longleftrightarrow> net_family fam \<and> str \<noteq> [] \<and> hd str \<noteq> CHR ''/'' \<and>
     (fam = AF_INET \<longrightarrow> is_digit (hd str) \<and> inet_pton4 (stack_junk res) str = Some a) \<and>
     (fam = AF_INET6 \<longrightarrow> inet_pton4 (stack_junk res) str = None \<and> CHR '':'' \<in> set str \<and>
        (hd str = CHR '':'' \<or> xdigit_of (hd str) \<noteq> None) \<and> inet_pton6 (stack_junk res) str = Some a)"

lemma gai_search_numeric:
  "numeric_host res fam a (host s) \<Longrightarrow>
     gai_search res hostname hints n s ais canon g = gai_numeric hints s fam a ais canon g"
  by (auto simp: gai_search_def numeric_host_def net_family_def Let_def)

lemma gai_searches_numeric:
  assumes "numeric_host res fam a str" and "ai_family hints = AF_UNSPEC \<or> ai_family hints = fam" and "2 \<le> left g"
  shows "gai_searches res hostname hints n (by_family (ai_family hints) str str) [] None g =
    Next [filled hints fam a] None (g\<lparr>left := left g - 2, live := live g + 2\<rparr>)"
proof -
  have net: "net_family fam" using assms(1) by (simp add: numeric_host_def)
  have step: "gai_search res hostname hints n \<lparr>host = str, family = f\<rparr> ais canon g' =
      gai_numeric hints \<lparr>host = str, family = f\<rparr> fam a ais canon g'" for f ais canon g'
    using gai_search_numeric [of res fam a "\<lparr>host = str, family = f\<rparr>"] assms(1) by simp
  from net assms(2,3) show ?thesis
    by (auto simp: net_family_def by_family_def step gai_numeric_def ga_aistruct_filled after_aistruct_def)
qed

lemma getaddrinfo_numeric:
  assumes num: "numeric_host res fam a str" and "hints_ok hints" and "ai_family hints = AF_UNSPEC \<or> ai_family hints = fam"
    and "5 \<le> left g" and "absent servname \<or> service_ports res (ai_socktype hints) (the servname) \<noteq> []"
  shows "\<exists>ais g'. getaddrinfo res (Some str) servname (Some hints) g = Found ais g' \<and>
    map endpoint_of ais = endpoints res hints servname [(fam, a)]"
proof -
  have str: "str \<noteq> []" "\<not> unix_names (Some str)" "net_family fam"
    using num by (auto simp: numeric_host_def unix_names_def)
  let ?g = "g\<lparr>left := left g - 2, live := live g + 2\<rparr>"
  have "fresh_list hints [(fam, a)] [filled hints fam a]" using fresh_list_filled [OF str(3), of hints "[a]"] by simp
  from gai_finish_found [OF this _ _ assms(5), of ?g "Some str" str None] assms(4)
  show ?thesis
    unfolding getaddrinfo_host [OF assms(2) str(1,2)] gai_searches_numeric [OF num assms(3) order_trans [OF _ assms(4)], simplified]
    by simp
qed

lemma atoi_port_show: "atoi_port (show_base 10 (unat p)) = p \<and> is_digit (hd (show_base 10 (unat p)))"
proof -
  have d: "list_all is_digit (show_base 10 (unat p))" "dec_value (show_base 10 (unat p)) = unat p" "show_base 10 (unat p) \<noteq> []"
    using dec_value_show by auto
  have tw: "takeWhile is_digit (show_base 10 (unat p)) = show_base 10 (unat p)"
    using d(1) unfolding takeWhile_eq_all_conv list_all_iff .
  have "unat p < 2 ^ LENGTH(16)" by (rule unsigned_less)
  then have "min (unat p) (2 ^ 63 - 1) = unat p" by simp
  with d(3) list_all_iff [of is_digit] d(1) show ?thesis
    unfolding atoi_port_def tw d(2) by (auto simp: hd_in_set)
qed

lemma snprintf_port: "snprintf_s 6 (show_base 10 (unat (p :: u16))) = show_base 10 (unat p)"
proof -
  have "unat p < 2 ^ LENGTH(16)" by (rule unsigned_less)
  then have "length (show_base 10 (unat p)) \<le> Suc 4" by (intro length_show_base) simp_all
  then show ?thesis by (simp add: snprintf_s_def)
qed

text \<open>A socket address of the Internet families with its bytes, its family and its address.\<close>

fun sockaddr_ok :: "sockaddr \<Rightarrow> bool" where
  "sockaddr_ok (Sin p a) \<longleftrightarrow> length a = 4 \<and> list_all (\<lambda>b. b < 256) a"
| "sockaddr_ok (Sin6 p a) \<longleftrightarrow> length a = 16 \<and> list_all (\<lambda>b. b < 256) a"
| "sockaddr_ok (Sun path) \<longleftrightarrow> False"

fun sockaddr_parts :: "sockaddr \<Rightarrow> int \<times> u16 \<times> nat list" where
  "sockaddr_parts (Sin p a) = (AF_INET, p, a)"
| "sockaddr_parts (Sin6 p a) = (AF_INET6, p, a)"
| "sockaddr_parts (Sun path) = (AF_LOCAL, 0, path)"

lemma numeric_text4:
  assumes "length a = 4" and "list_all (\<lambda>b. b < 256) a" and "length (stack_junk res) = 4"
  shows "inet_ntop AF_INET a 46 = Inr (show_quad a) \<and> numeric_host res AF_INET a (show_quad a)"
proof -
  have a: "\<forall>b\<in>set a. b < 256" using assms(2) by (simp add: list_all_iff)
  have hd: "show_quad a \<noteq> [] \<and> is_digit (hd (show_quad a))"
    using dec_value_show [of "a ! 0"] by (auto simp: show_quad_def list_all_iff)
  then have "hd (show_quad a) \<noteq> CHR ''/''" by (auto simp: is_digit_def digit_of_def)
  with hd length_show_quad [OF assms(1) a] inet_pton4_show_quad [OF assms(1) a assms(3)] show ?thesis
    by (simp add: numeric_host_def net_family_def inet_ntop_def inet_ntop4_def)
qed

lemma numeric_text6:
  assumes "length a = 16" and "list_all (\<lambda>b. b < 256) a" and "length (stack_junk res) = 4"
  shows "\<exists>t. inet_ntop AF_INET6 a 46 = Inr t \<and> numeric_host res AF_INET6 a t"
proof -
  from inet6_reads_back [of a "stack_junk res"] assms obtain t where
    t: "inet_ntop6_text a = Inr t" "inet_pton6 (stack_junk res) t = Some a" "length t \<le> 39"
    by (auto simp: octets_ok_def reads_back_def)
  note colon = inet6_text_colon [OF t(1)]
  have "hd t \<noteq> CHR ''/''" using colon by (auto simp: xdigit_of_def)
  with colon t inet_pton4_colon [OF assms(3), of t] show ?thesis
    by (intro exI [of _ t]) (simp add: numeric_host_def net_family_def inet_ntop_def inet_ntop6_def)
qed

section \<open>Properties\<close>

text \<open>
  C3. \<^verbatim>\<open>getaddrinfo\<close> inverts \<^verbatim>\<open>getnameinfo\<close>: every IPv4 or IPv6 socket address, printed with \<^verbatim>\<open>NI_NUMERICHOST\<close> and
  \<^verbatim>\<open>NI_NUMERICSERV\<close> into buffers of 46 and 6 bytes, is read back as exactly one structure with that address, that port
  and the socket type asked for, whatever the resolver would answer.
\<close>

theorem getaddrinfo_getnameinfo:
  assumes "sockaddr_ok sa" and "sockaddr_parts sa = (fam, p, a)" and "hints_ok hints"
    and "ai_family hints = AF_UNSPEC \<or> ai_family hints = fam" and "ai_socktype hints \<noteq> 0"
    and "5 \<le> left g" and "length (stack_junk res) = 4"
  shows "\<exists>h s ais g'. getnameinfo rv sa 46 6 (NI_NUMERICHOST OR NI_NUMERICSERV) = Some (Some h, Some s) \<and>
    getaddrinfo res (Some h) (Some s) (Some hints) g = Found ais g' \<and>
    map endpoint_of ais = [(fam, ai_socktype hints, ai_protocol hints, Some sa)]"
proof -
  let ?s = "show_base 10 (unat p)"
  have fl: "has_flag (NI_NUMERICHOST OR NI_NUMERICSERV) NI_NUMERICHOST" "has_flag (NI_NUMERICHOST OR NI_NUMERICSERV) NI_NUMERICSERV"
    by (simp_all add: has_flag_def)
  obtain h where h: "inet_ntop fam a 46 = Inr h" "numeric_host res fam a h"
    and sa: "net_addr fam p a = sa"
    using assms(1,2) numeric_text4 [OF _ _ assms(7), of a] numeric_text6 [OF _ _ assms(7), of a]
    by (cases sa) (auto simp: net_addr_def)
  have "getnameinfo rv sa 46 6 (NI_NUMERICHOST OR NI_NUMERICSERV) = Some (Some h, Some ?s)"
    using h(1) assms(1,2) fl by (cases sa) (auto simp: gn_ipv46_def gn_host_def gn_serv_def snprintf_port)
  moreover have serv: "\<not> absent (Some ?s)" "service_ports res (ai_socktype hints) ?s = [(ai_socktype hints, p)]"
    using atoi_port_show [of p] dec_value_show [of "unat p"] assms(5)
    by (auto simp: absent_def service_ports_def first_port_def second_port_def)
  then obtain ais g' where "getaddrinfo res (Some h) (Some ?s) (Some hints) g = Found ais g'"
    "map endpoint_of ais = endpoints res hints (Some ?s) [(fam, a)]"
    using getaddrinfo_numeric [OF h(2) assms(3,4,6), of "Some ?s"] by auto
  ultimately show ?thesis using serv sa by (auto simp: endpoints_def)
qed

definition no_resolver :: resolver where
  "no_resolver = \<lparr>gethostbyname = (\<lambda>_ _. Inl HOST_NOT_FOUND), gethostbyname2 = (\<lambda>_ _. Inl HOST_NOT_FOUND),
     getservbyname = (\<lambda>_ _. None), uname = None, stack_junk = [9, 9, 9, 9]\<rparr>"

theorem getaddrinfo_getnameinfo_witness:
  "\<exists>h s ais g'. getnameinfo \<lparr>gethostbyaddr = (\<lambda>_ _. None), getservbyport = (\<lambda>_ _. None)\<rparr> (Sin 80 [10, 0, 0, 1]) 46 6
       (NI_NUMERICHOST OR NI_NUMERICSERV) = Some (Some h, Some s) \<and>
     getaddrinfo no_resolver (Some h) (Some s) (Some (no_hints\<lparr>ai_socktype := SOCK_STREAM\<rparr>))
       \<lparr>left = 9, live = 0, unlinked = []\<rparr> = Found ais g' \<and>
     map endpoint_of ais = [(AF_INET, SOCK_STREAM, 0, Some (Sin 80 [10, 0, 0, 1]))]"
proof -
  let ?h = "no_hints\<lparr>ai_socktype := SOCK_STREAM\<rparr>"
  have "hints_ok ?h" by (simp add: hints_ok_def no_hints_def inet_socktype_def)
  moreover have "ai_family ?h = AF_UNSPEC \<or> ai_family ?h = AF_INET" "ai_socktype ?h = SOCK_STREAM" "ai_protocol ?h = 0"
    by (simp_all add: no_hints_def)
  ultimately show ?thesis
    using getaddrinfo_getnameinfo [of "Sin 80 [10, 0, 0, 1]" AF_INET 80 "[10, 0, 0, 1]" ?h "\<lparr>left = 9, live = 0, unlinked = []\<rparr>" no_resolver]
    by (simp add: no_resolver_def)
qed

lemma getaddrinfo_named:
  assumes "resolver_faithful res" and "symbolic res name" and "hints_ok hints"
    and "host_addrs res (ai_family hints) name \<noteq> []" and "4 * length (host_addrs res (ai_family hints) name) + 3 \<le> left g"
    and "absent servname \<or> service_ports res (ai_socktype hints) (the servname) \<noteq> []"
  shows "\<exists>ais g'. getaddrinfo res (Some name) servname (Some hints) g = Found ais g' \<and>
    map endpoint_of ais = endpoints res hints servname (host_addrs res (ai_family hints) name)"
proof -
  from gai_searches_named [OF assms(1-5)] obtain ais canon g1 where
    one: "gai_searches res (Some name) hints (length (by_family (ai_family hints) name name))
      (by_family (ai_family hints) name name) [] None g = Next ais canon g1"
    "fresh_list hints (host_addrs res (ai_family hints) name) ais"
    "2 * length (host_addrs res (ai_family hints) name) < left g1" by blast
  have "name \<noteq> []" "\<not> unix_names (Some name)" using assms(2) by (auto simp: symbolic_def)
  from getaddrinfo_host [OF assms(3) this] gai_finish_found [OF one(2) assms(4) one(3) assms(6), of "Some name" name canon]
  show ?thesis by (simp add: one(1))
qed

text \<open>
  C2. A host name is looked up once per family wanted, IPv6 first; the result has one structure for each address found
  and each socket type the service is known for, in that order: for every address the stream endpoint with the TCP
  port and then the datagram endpoint with the UDP port, although the second ones are made later as clones of the
  first. Memory must last for all of them.
\<close>

theorem getaddrinfo_endpoints:
  assumes "resolver_faithful res" and "symbolic res name" and "hints_ok hints"
    and "host_addrs res (ai_family hints) name \<noteq> []" and "4 * length (host_addrs res (ai_family hints) name) + 3 \<le> left g"
    and "absent servname \<or> service_ports res (ai_socktype hints) (the servname) \<noteq> []"
  shows "\<exists>ais g'. getaddrinfo res (Some name) servname (Some hints) g = Found ais g' \<and>
    map endpoint_of ais = endpoints res hints servname (host_addrs res (ai_family hints) name)"
  by (rule getaddrinfo_named [OF assms])

definition bsdi :: resolver where
  "bsdi = \<lparr>gethostbyname = (\<lambda>_ _. Inl HOST_NOT_FOUND),
     gethostbyname2 = (\<lambda>name fam. if name = ''bsdi'' \<and> fam = AF_INET
       then Inr \<lparr>h_name = Some ''bsdi'', h_addrtype = fam, h_addr_list = [[206, 62, 226, 35], [206, 62, 226, 66]]\<rparr>
       else Inl NO_DATA),
     getservbyname = (\<lambda>serv proto. if serv = ''daytime'' then Some 13 else None), uname = None,
     stack_junk = [9, 9, 9, 9]\<rparr>"

theorem getaddrinfo_endpoints_witness:
  "\<exists>ais g'. getaddrinfo bsdi (Some ''bsdi'') (Some ''daytime'') (Some no_hints) \<lparr>left = 20, live = 0, unlinked = []\<rparr> = Found ais g' \<and>
     map endpoint_of ais =
       [(AF_INET, SOCK_STREAM, 0, Some (Sin 13 [206, 62, 226, 35])), (AF_INET, SOCK_DGRAM, 0, Some (Sin 13 [206, 62, 226, 35])),
        (AF_INET, SOCK_STREAM, 0, Some (Sin 13 [206, 62, 226, 66])), (AF_INET, SOCK_DGRAM, 0, Some (Sin 13 [206, 62, 226, 66]))]"
proof -
  have "inet_pton4 [9, 9, 9, 9] ''bsdi'' = None" by (simp add: inet_pton4_def digit_of_def)
  moreover have "inet_pton6 [9, 9, 9, 9] ''bsdi'' = None" by (simp add: inet_pton6_def xdigit_of_def)
  ultimately
  have "symbolic bsdi ''bsdi''" by (simp add: symbolic_def unix_names_def bsdi_def)
  moreover have "resolver_faithful bsdi" by (auto simp: resolver_faithful_def bsdi_def)
  moreover have "hints_ok no_hints" by (simp add: hints_ok_def no_hints_def inet_socktype_def)
  moreover have addrs: "host_addrs bsdi (ai_family no_hints) ''bsdi'' = [(AF_INET, [206, 62, 226, 35]), (AF_INET, [206, 62, 226, 66])]"
    by (simp add: host_addrs_def no_hints_def bsdi_def addrs_of_def)
  moreover have ports: "service_ports bsdi (ai_socktype no_hints) ''daytime'' = [(SOCK_STREAM, 13), (SOCK_DGRAM, 13)]"
    by (simp add: service_ports_def first_port_def second_port_def bsdi_def no_hints_def is_digit_def digit_of_def)
  ultimately obtain ais g' where
    "getaddrinfo bsdi (Some ''bsdi'') (Some ''daytime'') (Some no_hints) \<lparr>left = 20, live = 0, unlinked = []\<rparr> = Found ais g'"
    "map endpoint_of ais = endpoints bsdi no_hints (Some ''daytime'') (host_addrs bsdi (ai_family no_hints) ''bsdi'')"
    using getaddrinfo_endpoints [of bsdi "''bsdi''" no_hints "\<lparr>left = 20, live = 0, unlinked = []\<rparr>" "Some ''daytime''"] by auto
  then show ?thesis
    using ports by (simp add: addrs endpoints_def absent_def net_addr_def) (simp add: no_hints_def)
qed



text \<open>
  \<^verbatim>\<open>AF_LOCAL\<close> passes the check of the arguments, but only the host names \<^verbatim>\<open>/local\<close> and \<^verbatim>\<open>/unix\<close> are handled for it: with
  any other host name \<^verbatim>\<open>ga_nsearch\<close> finds nothing to search for and ends the process instead of returning an error.
\<close>

theorem getaddrinfo_local_quits:
  assumes "ai_family hints = AF_LOCAL" and "ai_flags hints AND NOT (AI_PASSIVE OR AI_CANONNAME) = 0"
    and "ai_socktype hints = 0 \<or> ai_socktype hints = SOCK_STREAM \<or> ai_socktype hints = SOCK_DGRAM"
    and "\<not> unix_names hostname" and "\<not> (absent hostname \<and> absent servname)"
  shows "getaddrinfo res hostname servname (Some hints) g = Quits"
proof -
  have fam: "ai_family hints \<noteq> AF_INET" "ai_family hints \<noteq> AF_INET6" using assms(1) by (simp_all add: AF_INET_def AF_INET6_def)
  have "ga_echeck hostname servname (ai_flags hints) (ai_family hints) (ai_socktype hints) (ai_protocol hints) = None"
    using assms fam by (auto simp: ga_echeck_def)
  moreover have "ga_nsearch hostname hints = Exit 1"
    using assms(1) fam by (simp add: ga_nsearch_def by_family_def)
  ultimately show ?thesis using assms(4) by (auto simp: getaddrinfo_def unix_names_def)
qed

theorem getaddrinfo_local_quits_witness:
  "getaddrinfo no_resolver (Some ''localhost'') (Some ''/tmp/sock'') (Some (no_hints\<lparr>ai_family := AF_LOCAL, ai_socktype := SOCK_STREAM\<rparr>))
     \<lparr>left = 20, live = 0, unlinked = []\<rparr> = Quits"
proof -
  let ?h = "no_hints\<lparr>ai_family := AF_LOCAL, ai_socktype := SOCK_STREAM\<rparr>"
  have "ai_family ?h = AF_LOCAL" "ai_flags ?h AND NOT (AI_PASSIVE OR AI_CANONNAME) = 0"
    "ai_socktype ?h = 0 \<or> ai_socktype ?h = SOCK_STREAM \<or> ai_socktype ?h = SOCK_DGRAM"
    "\<not> unix_names (Some ''localhost'')" "\<not> (absent (Some ''localhost'') \<and> absent (Some ''/tmp/sock''))"
    by (simp_all add: no_hints_def unix_names_def absent_def)
  then show ?thesis by (rule getaddrinfo_local_quits)
qed

text \<open>
  \<^verbatim>\<open>ga_unix\<close> returns an error without freeing what it has allocated: here the structure for the stream socket, with its
  address, is lost when memory runs out for the datagram one.
\<close>

lemma ga_unix_leaks:
  "getaddrinfo no_resolver (Some ''/unix'') (Some ''/tmp/sock'') (Some no_hints) \<lparr>left = 2, live = 0, unlinked = []\<rparr> =
     Failed EAI_MEMORY \<lparr>left = 0, live = 2, unlinked = []\<rparr>"
  by (simp add: getaddrinfo_def ga_echeck_def ga_unix_def ga_aistruct_def calloc_def no_hints_def absent_def
      has_flag_def new_ai_def)

text \<open>A port number is cut to 16 bits and what follows its digits is ignored.\<close>

lemma atoi_port_wraps: "atoi_port ''65616'' = 80 \<and> atoi_port ''80x'' = 80"
  by (simp add: atoi_port_def dec_value_def is_digit_def digit_of_def)

end
