(* ===== verification/Getaddrinfo_Free.thy ===== *)
theory Getaddrinfo_Free
  imports Getaddrinfo
begin

text \<open>
  The other implementation of \<^verbatim>\<open>getaddrinfo\<close>, \<^verbatim>\<open>unpv13e/libfree/getaddrinfo.c\<close>, over the data of the first one. \<open>ipv6\<close>
  says whether it is compiled with IPv6 (the sources decide that from the system headers). The resolver option
  \<^verbatim>\<open>RES_USE_INET6\<close> is a variable that this code sets and never clears: it is passed in and out. The jump to \<^verbatim>\<open>bad\<close>
  frees \<^verbatim>\<open>aihead\<close>, which is indeterminate until the list is begun: an error before that point is \<open>FUndefined\<close>.
\<close>

unbundle bit_operations_syntax

section \<open>Checking the arguments\<close>

definition gaf_check :: "bool \<Rightarrow> addrinfo \<Rightarrow> eai option" where
  "gaf_check ipv6 hints =
     (let fam = ai_family hints; t = ai_socktype hints in
      if ai_flags hints AND NOT (AI_PASSIVE OR AI_CANONNAME) \<noteq> 0 then Some EAI_BADFLAGS
      else if fam = AF_UNSPEC then None
      else if fam = AF_INET then if \<not> inet_socktype t then Some EAI_SOCKTYPE else None
      else if ipv6 \<and> fam = AF_INET6 then if \<not> inet_socktype t then Some EAI_SOCKTYPE else None
      else if fam = AF_LOCAL then
        if t \<noteq> 0 \<and> t \<noteq> SOCK_STREAM \<and> t \<noteq> SOCK_DGRAM then Some EAI_SOCKTYPE else None
      else Some EAI_FAMILY)"

text \<open>The host string and the family the rest of the function works with.\<close>

definition gaf_defaults ::
    "bool \<Rightarrow> resolver \<Rightarrow> char list option \<Rightarrow> char list option \<Rightarrow> addrinfo \<Rightarrow> eai + (char list option \<times> int)" where
  "gaf_defaults ipv6 res hostname serv hints =
     (let fam = ai_family hints in
      if absent hostname then
        if absent serv then Inl EAI_NONAME
        else if has_flag (ai_flags hints) AI_PASSIVE then
          if fam = AF_INET then Inr (Some ''0.0.0.0'', fam)
          else if ipv6 \<and> fam = AF_INET6 then Inr (Some ''0::0'', fam)
          else if fam = AF_LOCAL then
            if hd (the serv) \<noteq> CHR ''/'' then Inl EAI_ADDRFAMILY else Inr (hostname, fam)
          else if fam = 0 then Inl EAI_ADDRFAMILY
          else Inr (hostname, fam)
        else Inr (Some ''localhost'', fam)
      else if fam = 0 then
        let fam4 = (if inet_pton4 (stack_junk res) (the hostname) \<noteq> None then AF_INET else fam);
            fam6 = (if ipv6 \<and> inet_pton6 (stack_junk res) (the hostname) \<noteq> None then AF_INET6 else fam4) in
        Inr (hostname, fam6)
      else Inr (hostname, fam))"

section \<open>Unix domain sockets\<close>

datatype free_result = FFound "addrinfo list" gst | FFailed eai gst | FUnset gst | FUndefined

text \<open>When the first allocation fails the code returns \<^verbatim>\<open>NULL\<close>, that is 0, without a result (\<open>FUnset\<close>).\<close>

definition addrinfo_local :: "char list \<Rightarrow> addrinfo \<Rightarrow> gst \<Rightarrow> free_result" where
  "addrinfo_local path hints g =
     (if ai_socktype hints = 0 then FFailed EAI_SOCKTYPE g
      else case calloc g of
        None \<Rightarrow> FUnset g
      | Some g1 \<Rightarrow>
          (case calloc g1 of
             None \<Rightarrow> FFailed EAI_MEMORY g1
           | Some g2 \<Rightarrow>
               let addr = map of_char path;
                   ai = \<lparr>ai_flags = 0, ai_family = AF_LOCAL, ai_socktype = ai_socktype hints, ai_protocol = 0,
                         ai_addrlen = 110, ai_canonname = None, ai_addr = Some (Sun (take 108 addr))\<rparr> in
               FFound [ai] (if has_flag (ai_flags hints) AI_PASSIVE then g2\<lparr>unlinked := unlinked g2 @ [addr]\<rparr> else g2)))"

section \<open>The host\<close>

definition HENTBUFSIZ :: nat where
  "HENTBUFSIZ = 8 * 1024"

definition getaddrinfo_host ::
    "bool \<Rightarrow> resolver \<Rightarrow> char list \<Rightarrow> int \<Rightarrow> bool \<Rightarrow> (eai + hostent) \<times> bool" where
  "getaddrinfo_host ipv6 res name fam opt =
     (let v4 = (if is_digit (hd name) then inet_pton4 (stack_junk res) name else None);
          v6 = (if ipv6 \<and> (xdigit_of (hd name) \<noteq> None \<or> hd name = CHR '':'') then inet_pton6 (stack_junk res) name else None);
          made = (\<lambda>fam a. \<lparr>h_name = Some (take (HENTBUFSIZ - 1) name), h_addrtype = fam, h_addr_list = [a]\<rparr>) in
      case v4 of
        Some a \<Rightarrow> (Inr (made AF_INET a), opt)
      | None \<Rightarrow>
          (case v6 of
             Some a \<Rightarrow> (Inr (made AF_INET6 a), opt)
           | None \<Rightarrow>
               let opt' = (if ipv6 \<and> fam = AF_INET6 then True else opt) in
               (case gethostbyname res opt' name of
                  Inl e \<Rightarrow> (Inl (eai_of_h_err e), opt')
                | Inr h \<Rightarrow> (Inr h, opt'))))"

text \<open>One turn of the loop over the addresses.\<close>

definition gaf_struct ::
    "bool \<Rightarrow> addrinfo \<Rightarrow> nat list \<Rightarrow> int \<Rightarrow> addrinfo list \<Rightarrow> gst \<Rightarrow> eai option \<times> addrinfo list \<times> gst" where
  "gaf_struct ipv6 hints addr fam ais g =
     (case calloc g of
        None \<Rightarrow> (Some EAI_MEMORY, ais, g)
      | Some g1 \<Rightarrow>
          let ai = new_ai hints fam in
          if fam = AF_INET then
            (case calloc g1 of
               None \<Rightarrow> (Some EAI_MEMORY, ais @ [ai], g1)
             | Some g2 \<Rightarrow> (None, ais @ [ai\<lparr>ai_addr := Some (Sin 0 (take 4 addr)), ai_addrlen := 16\<rparr>], g2))
          else if ipv6 \<and> fam = AF_INET6 then
            (case calloc g1 of
               None \<Rightarrow> (Some EAI_MEMORY, ais @ [ai], g1)
             | Some g2 \<Rightarrow> (None, ais @ [ai\<lparr>ai_addr := Some (Sin6 0 (take 16 addr)), ai_addrlen := 28\<rparr>], g2))
          else (None, ais @ [ai], g1))"

fun gaf_structs ::
    "bool \<Rightarrow> addrinfo \<Rightarrow> nat list list \<Rightarrow> int \<Rightarrow> addrinfo list \<Rightarrow> gst \<Rightarrow> eai option \<times> addrinfo list \<times> gst" where
  "gaf_structs ipv6 hints [] fam ais g = (None, ais, g)"
| "gaf_structs ipv6 hints (a # as) fam ais g =
     (case gaf_struct ipv6 hints a fam ais g of
        (Some e, ais', g') \<Rightarrow> (Some e, ais', g')
      | (None, ais', g') \<Rightarrow> gaf_structs ipv6 hints as fam ais' g')"

section \<open>The service\<close>

text \<open>
  \<^verbatim>\<open>getaddrinfo_port\<close> and \<^verbatim>\<open>getaddrinfo_clone\<close> have the statements of \<^verbatim>\<open>ga_port\<close> and \<^verbatim>\<open>ga_clone\<close>.
\<close>

definition getaddrinfo_port :: "addrinfo list \<Rightarrow> u16 \<Rightarrow> int \<Rightarrow> gst \<Rightarrow> nat option \<times> addrinfo list \<times> gst" where
  "getaddrinfo_port = ga_port"

definition getaddrinfo_clone :: "addrinfo \<Rightarrow> gst \<Rightarrow> addrinfo list \<times> bool \<times> gst" where
  "getaddrinfo_clone = ga_clone"

definition getaddrinfo_serv ::
    "resolver \<Rightarrow> addrinfo list \<Rightarrow> addrinfo \<Rightarrow> char list \<Rightarrow> gst \<Rightarrow> eai option \<times> addrinfo list \<times> gst" where
  "getaddrinfo_serv res ais hints serv g =
     (let t = ai_socktype hints in
      if is_digit (hd serv) \<and> t \<noteq> 0 then
        (case getaddrinfo_port ais (atoi_port serv) t g of
           (None, ais', g') \<Rightarrow> (Some EAI_MEMORY, ais', g')
         | (Some rc, ais', g') \<Rightarrow> (if rc = 0 then Some EAI_NONAME else None, ais', g'))
      else
        let st1 =
              (if t = 0 \<or> t = SOCK_STREAM
               then then_port (Some 0, ais, g) (getservbyname res serv ''tcp'') SOCK_STREAM
               else (Some 0, ais, g));
            st2 = (if t = 0 \<or> t = SOCK_DGRAM then then_port st1 (getservbyname res serv ''udp'') SOCK_DGRAM else st1) in
        case st2 of
          (None, ais', g') \<Rightarrow> (Some EAI_MEMORY, ais', g')
        | (Some nfound, ais', g') \<Rightarrow>
            (if nfound = 0 then if t = 0 then Some EAI_NONAME else Some EAI_SERVICE else None, ais', g'))"

section \<open>getaddrinfo\<close>

definition gaf_canon ::
    "addrinfo \<Rightarrow> char list \<Rightarrow> hostent \<Rightarrow> addrinfo list \<Rightarrow> gst \<Rightarrow> (eai option \<times> addrinfo list \<times> gst) c_value" where
  "gaf_canon hints name h ais g =
     (if has_flag (ai_flags hints) AI_CANONNAME then
        if ais = [] then UB
        else case calloc g of
          None \<Rightarrow> Val (Some EAI_MEMORY, ais, g)
        | Some g1 \<Rightarrow>
            Val (None, (hd ais)\<lparr>ai_canonname := Some (case h_name h of Some c \<Rightarrow> c | None \<Rightarrow> name)\<rparr> # tl ais, g1)
      else Val (None, ais, g))"

definition gaf_build ::
    "bool \<Rightarrow> resolver \<Rightarrow> char list option \<Rightarrow> addrinfo \<Rightarrow> char list \<Rightarrow> hostent \<Rightarrow> gst \<Rightarrow> free_result" where
  "gaf_build ipv6 res serv hints name h g =
     (case gaf_structs ipv6 hints (h_addr_list h) (h_addrtype h) [] g of
        (Some e, ais, g1) \<Rightarrow> FFailed e (freeaddrinfo ais g1)
      | (None, ais, g1) \<Rightarrow>
          (case gaf_canon hints name h ais g1 of
             UB \<Rightarrow> FUndefined
           | Val (Some e, ais2, g2) \<Rightarrow> FFailed e (freeaddrinfo ais2 g2)
           | Val (None, ais2, g2) \<Rightarrow>
               if absent serv then FFound ais2 g2
               else
                 (case getaddrinfo_serv res ais2 hints (the serv) g2 of
                    (Some e, ais3, g3) \<Rightarrow> FFailed e (freeaddrinfo ais3 g3)
                  | (None, ais3, g3) \<Rightarrow> FFound ais3 g3)))"

definition is_path :: "char list option \<Rightarrow> bool" where
  "is_path s = (case s of Some (CHR ''/'' # _) \<Rightarrow> True | _ \<Rightarrow> False)"

definition getaddrinfo_free ::
    "bool \<Rightarrow> resolver \<Rightarrow> char list option \<Rightarrow> char list option \<Rightarrow> addrinfo option \<Rightarrow> bool \<Rightarrow> gst \<Rightarrow> free_result \<times> bool" where
  "getaddrinfo_free ipv6 res hostname serv hintsptr opt g =
     (let hints0 = (case hintsptr of None \<Rightarrow> no_hints | Some h \<Rightarrow> h) in
      if gaf_check ipv6 hints0 \<noteq> None then (FUndefined, opt)
      else case gaf_defaults ipv6 res hostname serv hints0 of
        Inl e \<Rightarrow> (FUndefined, opt)
      | Inr (name, fam) \<Rightarrow>
          let hints = hints0\<lparr>ai_family := fam\<rparr> in
          if is_path name then (addrinfo_local (the name) hints g, opt)
          else if is_path serv then (addrinfo_local (the serv) hints g, opt)
          else
            (case getaddrinfo_host ipv6 res (the name) fam opt of
               (Inl e, opt') \<Rightarrow> (FUndefined, opt')
             | (Inr h, opt') \<Rightarrow>
                 if fam \<noteq> AF_UNSPEC \<and> fam \<noteq> h_addrtype h then (FUndefined, opt')
                 else (gaf_build ipv6 res serv hints (the name) h g, opt')))"

section \<open>The two implementations\<close>

lemma gaf_structs_inet: "gaf_structs ipv6 hints as AF_INET ais g = ga_aistructs hints as AF_INET ais g"
proof (induction as arbitrary: ais g)
  case (Cons a as)
  have "gaf_struct ipv6 hints a AF_INET ais g = ga_aistruct hints a AF_INET ais g"
    by (simp add: gaf_struct_def ga_aistruct_def Let_def split: option.split)
  with Cons.IH show ?case by (simp split: prod.split option.split)
qed simp

lemma ga_aistructs_short: "left g < 2 * length as \<Longrightarrow> fst (ga_aistructs hints as AF_INET ais g) \<noteq> None"
proof (induction as arbitrary: ais g)
  case (Cons a as)
  show ?case
  proof (cases "2 \<le> left g")
    case True
    then have "ga_aistruct hints a AF_INET ais g =
        (None, ais @ [filled hints AF_INET a], g\<lparr>left := left g - 2, live := live g + 2\<rparr>)"
      by (intro ga_aistruct_filled) (simp_all add: net_family_def)
    moreover have "fst (ga_aistructs hints as AF_INET (ais @ [filled hints AF_INET a])
        (g\<lparr>left := left g - 2, live := live g + 2\<rparr>)) \<noteq> None"
      using Cons.prems True by (intro Cons.IH) simp
    ultimately show ?thesis by simp
  next
    case False
    then show ?thesis by (auto simp: ga_aistruct_def calloc_def Let_def split: option.splits)
  qed
qed simp

lemma ga_aistructs_inet:
  assumes "ga_aistructs hints as AF_INET ais g = (None, ais', g')"
  shows "2 * length as \<le> left g \<and> ais' = ais @ map (filled hints AF_INET) as \<and>
    g' = g\<lparr>left := left g - 2 * length as, live := live g + 2 * length as\<rparr>"
proof -
  have "2 * length as \<le> left g" using ga_aistructs_short [of g as hints ais] assms by force
  with ga_aistructs_filled [of AF_INET as g hints ais] assms show ?thesis by (simp add: net_family_def)
qed

lemma getaddrinfo_serv_agrees:
  assumes "ga_serv res ais hints serv g = (None, ais', g')" and "\<not> is_digit (hd serv) \<or> ai_socktype hints \<noteq> 0"
  shows "getaddrinfo_serv res ais hints serv g = (None, ais', g')"
proof (cases "is_digit (hd serv)")
  case True
  obtain n ais1 g1 where gp: "ga_port ais (atoi_port serv) (ai_socktype hints) g = (n, ais1, g1)" by (metis prod_cases3)
  from assms True show ?thesis
    by (auto simp: ga_serv_def getaddrinfo_serv_def getaddrinfo_port_def then_port_def gp Let_def
        split: option.splits if_splits)
next
  case False
  with assms show ?thesis by (simp add: ga_serv_def getaddrinfo_serv_def Let_def)
qed

text \<open>The name may be copied before or after the structures are allocated.\<close>

lemma gaf_build_agrees:
  assumes list: "ga_aistructs hints as AF_INET [] g1 = (None, ais, g2)" and "as \<noteq> []"
    and canon: "if has_flag (ai_flags hints) AI_CANONNAME
      then calloc g = Some g1 \<and> canon = Some c \<or> g1 = g \<and> canon = None \<and> c = name
      else g1 = g \<and> canon = None"
    and fin: "gai_finish res (Some name) serv hints name (Next ais canon g2) = Found ais' g'"
    and serv: "absent serv \<or> \<not> is_digit (hd (the serv)) \<or> ai_socktype hints \<noteq> 0"
    and h: "h_addr_list h = as" "h_addrtype h = AF_INET" "name \<noteq> []"
      "has_flag (ai_flags hints) AI_CANONNAME \<Longrightarrow> h_name h = Some c"
  shows "gaf_build ipv6 res serv hints name h g = FFound ais' g'"
proof -
  note one = ga_aistructs_inet [OF list]
  have ne: "ais \<noteq> []" using one assms(2) by simp
  have "\<exists>g0. ga_aistructs hints as AF_INET [] g = (None, ais, g0) \<and>
      gaf_canon hints name h ais g0 = Val (gai_canon (Some name) hints name canon ais g2)"
  proof (cases "has_flag (ai_flags hints) AI_CANONNAME \<and> calloc g = Some g1 \<and> canon = Some c")
    case True
    then have "2 * length as < left g" "g1 = g\<lparr>left := left g - 1, live := live g + 1\<rparr>"
      using one by (auto simp: calloc_def split: if_splits)
    with one True h ne show ?thesis
      using ga_aistructs_filled [of AF_INET as g hints "[]"]
      by (auto simp: net_family_def gaf_canon_def gai_canon_def calloc_def absent_def)
  next
    case False
    with canon have "g1 = g" "canon = None" "has_flag (ai_flags hints) AI_CANONNAME \<Longrightarrow> c = name"
      by (auto split: if_splits)
    with list h ne show ?thesis
      by (auto simp: gaf_canon_def gai_canon_def absent_def split: option.splits)
  qed
  then obtain g0 where g0: "ga_aistructs hints as AF_INET [] g = (None, ais, g0)"
    "gaf_canon hints name h ais g0 = Val (gai_canon (Some name) hints name canon ais g2)" by blast
  obtain r ais3 g3 where c: "gai_canon (Some name) hints name canon ais g2 = (r, ais3, g3)" by (metis prod_cases3)
  obtain r4 ais4 g4 where s: "ga_serv res ais3 hints (the serv) g3 = (r4, ais4, g4)" by (metis prod_cases3)
  show ?thesis
    using fin ne c s g0 h serv getaddrinfo_serv_agrees [of res ais3 hints "the serv" g3 ais4 g4]
    by (auto simp: gai_finish_def gaf_build_def gaf_structs_inet split: option.splits if_splits)
qed

text \<open>A successful search of the first implementation for an IPv4 host that is not an IPv6 address.\<close>

lemma gai_search_inet:
  assumes "ai_family hints = AF_INET" and "inet_pton6 (stack_junk res) name = None"
    and "gai_search res (Some name) hints 1 \<lparr>host = name, family = AF_INET\<rparr> [] None g = Next ais canon g2" and "name \<noteq> []"
  obtains (numeric) a where "is_digit (hd name)" "inet_pton4 (stack_junk res) name = Some a" "canon = None"
      "ga_aistructs hints [a] AF_INET [] g = (None, ais, g2)"
    | (named) h g1 where "\<not> (is_digit (hd name) \<and> inet_pton4 (stack_junk res) name \<noteq> None)"
      "gethostbyname res False name = Inr h" "h_addrtype h = AF_INET"
      "ga_aistructs hints (h_addr_list h) AF_INET [] g1 = (None, ais, g2)"
      "if has_flag (ai_flags hints) AI_CANONNAME then calloc g = Some g1 \<and> canon = h_name h \<and> canon \<noteq> None
       else g1 = g \<and> canon = None"
proof (cases "is_digit (hd name) \<and> inet_pton4 (stack_junk res) name \<noteq> None")
  case True
  then obtain a where "inet_pton4 (stack_junk res) name = Some a" by blast
  with True assms(1,3) numeric show ?thesis
    by (auto simp: gai_search_def gai_numeric_def after_aistruct_def split: prod.splits option.splits)
next
  case False
  then have "gai_lookup res (Some name) hints 1 \<lparr>host = name, family = AF_INET\<rparr> [] None g = Next ais canon g2"
    using assms(2,3) by (auto simp: gai_search_def Let_def split: if_splits option.splits)
  with False named assms(1,4) show ?thesis
    by (auto simp: gai_lookup_def after_aistruct_def absent_def split: sum.splits option.splits if_splits prod.splits)
      metis+
qed

section \<open>Properties\<close>


definition one_host :: resolver where
  "one_host = \<lparr>gethostbyname = (\<lambda>v6 name. if \<not> v6 \<and> name = ''unix''
       then Inr \<lparr>h_name = Some ''unix.example.com'', h_addrtype = AF_INET, h_addr_list = [[10, 0, 0, 7]]\<rparr> else Inl HOST_NOT_FOUND),
     gethostbyname2 = (\<lambda>_ _. Inl HOST_NOT_FOUND), getservbyname = (\<lambda>_ _. None), uname = None, stack_junk = [9, 9, 9, 9]\<rparr>"

definition stream4 :: addrinfo where
  "stream4 = no_hints\<lparr>ai_family := AF_INET, ai_socktype := SOCK_STREAM, ai_flags := AI_CANONNAME\<rparr>"


text \<open>
  In \<^verbatim>\<open>libfree/getaddrinfo.c\<close> an unknown host is undefined behaviour: the error path frees \<^verbatim>\<open>aihead\<close>, which is assigned only
  after the lookup.
\<close>

theorem getaddrinfo_free_unknown_host:
  assumes "symbolic res name" and "\<not> is_path (Some name)" and "\<not> is_path serv"
    and "\<And>v6. \<exists>e. gethostbyname res v6 name = Inl e"
  shows "fst (getaddrinfo_free ipv6 res (Some name) serv hintsptr opt g) = FUndefined"
proof -
  have lookup: "\<exists>e opt'. getaddrinfo_host ipv6 res name fam opt = (Inl e, opt')" for fam
    using assms(1) assms(4) [of "if ipv6 \<and> fam = AF_INET6 then True else opt"]
    by (auto simp: getaddrinfo_host_def symbolic_def Let_def)
  have "name \<noteq> []" using assms(1) by (simp add: symbolic_def)
  then have "\<exists>fam. gaf_defaults ipv6 res (Some name) serv hints = Inr (Some name, fam)" for hints
    by (simp add: gaf_defaults_def absent_def Let_def)
  then obtain fam where fam: "gaf_defaults ipv6 res (Some name) serv (case hintsptr of None \<Rightarrow> no_hints | Some h \<Rightarrow> h) =
    Inr (Some name, fam)" by blast
  from lookup [of fam] obtain e opt' where "getaddrinfo_host ipv6 res name fam opt = (Inl e, opt')" by blast
  with fam assms(2,3) show ?thesis by (simp add: getaddrinfo_free_def Let_def)
qed

theorem getaddrinfo_free_unknown_host_witness:
  "fst (getaddrinfo_free True no_resolver (Some ''unix'') None None False \<lparr>left = 9, live = 0, unlinked = []\<rparr>) = FUndefined"
proof -
  have "symbolic no_resolver ''unix''"
    by (simp add: symbolic_def unix_names_def no_resolver_def inet_pton4_def inet_pton6_def digit_of_def xdigit_of_def)
  moreover have "\<not> is_path (Some ''unix'')" "\<not> is_path None" by (simp_all add: is_path_def)
  moreover have "\<exists>e. gethostbyname no_resolver v6 ''unix'' = Inl e" for v6 by (simp add: no_resolver_def)
  ultimately show ?thesis by (rule getaddrinfo_free_unknown_host)
qed

text \<open>
  The option for IPv6 addresses stays set: after one lookup for \<^verbatim>\<open>AF_INET6\<close> every lookup for \<^verbatim>\<open>AF_INET\<close> asks for IPv6
  addresses, which do not match.
\<close>

lemma getaddrinfo_free_sticky_option:
  fixes hints :: "int \<Rightarrow> addrinfo"
  defines "hints \<equiv> \<lambda>fam. no_hints\<lparr>ai_family := fam\<rparr>" and "g \<equiv> \<lparr>left = 9, live = 0, unlinked = []\<rparr>"
  shows "snd (getaddrinfo_free True one_host (Some ''unix'') None (Some (hints AF_INET6)) False g) = True"
    and "fst (getaddrinfo_free True one_host (Some ''unix'') None (Some (hints AF_INET)) False g) \<noteq> FUndefined"
    and "fst (getaddrinfo_free True one_host (Some ''unix'') None (Some (hints AF_INET)) True g) = FUndefined"
proof -
  have "inet_pton4 [9, 9, 9, 9] ''unix'' = None" "inet_pton6 [9, 9, 9, 9] ''unix'' = None"
    by (simp_all add: inet_pton4_def inet_pton6_def digit_of_def xdigit_of_def)
  note this [simp] hints_def [simp] g_def [simp] getaddrinfo_free_def [simp] gaf_check_def [simp] gaf_defaults_def [simp]
    getaddrinfo_host_def [simp] one_host_def [simp] no_hints_def [simp] inet_socktype_def [simp] absent_def [simp] is_path_def [simp]
  show "snd (getaddrinfo_free True one_host (Some ''unix'') None (Some (hints AF_INET6)) False g) = True" by simp
  show "fst (getaddrinfo_free True one_host (Some ''unix'') None (Some (hints AF_INET)) False g) \<noteq> FUndefined"
    by (simp add: gaf_build_def gaf_struct_def calloc_def new_ai_def gaf_canon_def has_flag_def)
  show "fst (getaddrinfo_free True one_host (Some ''unix'') None (Some (hints AF_INET)) True g) = FUndefined" by simp
qed

section \<open>getnameinfo\<close>

text \<open>
  \<^verbatim>\<open>libfree/getnameinfo.c\<close>: \<^verbatim>\<open>strncpy\<close> fills the whole buffer, so that \<open>strncpy_buf\<close> is what the buffer holds; a name as
  long as the buffer has no terminating zero. \<open>None\<close> is the return value 1.
\<close>

definition strncpy_buf :: "nat \<Rightarrow> char list \<Rightarrow> char list" where
  "strncpy_buf n s = take n s @ replicate (n - length s) NUL"

definition do_ipv46 ::
    "reverse \<Rightarrow> nat \<Rightarrow> nat \<Rightarrow> nat list \<Rightarrow> int \<Rightarrow> u16 \<Rightarrow> (char list option \<times> char list option) option" where
  "do_ipv46 rv hostlen servlen addr fam port =
     (case (if hostlen > 0 then map_option (\<lambda>n. Some (strncpy_buf hostlen n)) (gethostbyaddr rv addr fam) else Some None) of
        None \<Rightarrow> None
      | Some h \<Rightarrow>
          map_option (\<lambda>s. (h, s))
            (if servlen > 0 then map_option (\<lambda>n. Some (strncpy_buf servlen n)) (getservbyport rv port None) else Some None))"

fun getnameinfo_free ::
    "bool \<Rightarrow> reverse \<Rightarrow> sockaddr \<Rightarrow> nat \<Rightarrow> nat \<Rightarrow> (char list option \<times> char list option) option" where
  "getnameinfo_free ipv6 rv (Sin port a) hostlen servlen = do_ipv46 rv hostlen servlen a AF_INET port"
| "getnameinfo_free ipv6 rv (Sin6 port a) hostlen servlen =
     (if ipv6 then do_ipv46 rv hostlen servlen a AF_INET6 port else None)"
| "getnameinfo_free ipv6 rv (Sun path) hostlen servlen = None"

text \<open>The buffer holds a string exactly when the name is shorter than it; then the other \<^verbatim>\<open>getnameinfo\<close> returns the same one.\<close>

lemma getnameinfo_free_terminated:
  assumes "getnameinfo_free ipv6 rv sa hostlen servlen = Some (Some h, Some s)" and "NUL \<in> set h" and "NUL \<in> set s"
    and "\<And>n. gethostbyaddr rv (snd (snd (sockaddr_parts sa))) (fst (sockaddr_parts sa)) = Some n \<Longrightarrow> NUL \<notin> set n"
    and "\<And>n. getservbyport rv (fst (snd (sockaddr_parts sa))) None = Some n \<Longrightarrow> NUL \<notin> set n"
  shows "getnameinfo rv sa hostlen servlen 0 =
    Some (Some (takeWhile (\<lambda>c. c \<noteq> NUL) h), Some (takeWhile (\<lambda>c. c \<noteq> NUL) s))"
proof -
  have str: "takeWhile (\<lambda>c. c \<noteq> NUL) (strncpy_buf k n) = snprintf_s k n"
    if "NUL \<in> set (strncpy_buf k n)" "NUL \<notin> set n" for k n
  proof -
    have "length n < k" using that by (auto simp: strncpy_buf_def dest: in_set_takeD split: if_splits)
    then have "strncpy_buf k n = n @ NUL # replicate (k - length n - 1) NUL"
      by (auto simp: strncpy_buf_def simp flip: replicate_Suc)
    moreover have "takeWhile (\<lambda>c. c \<noteq> NUL) (n @ NUL # xs) = n" for xs
      using that(2) by (auto simp: takeWhile_append)
    ultimately show ?thesis using \<open>length n < k\<close> by (simp add: snprintf_s_def)
  qed
  have "gn_ipv46 rv hostlen servlen a fam p 0 = Some (Some (takeWhile (\<lambda>c. c \<noteq> NUL) h), Some (takeWhile (\<lambda>c. c \<noteq> NUL) s))"
    if "do_ipv46 rv hostlen servlen a fam p = Some (Some h, Some s)" "sockaddr_parts sa = (fam, p, a)" for fam p a
    using that assms(2-5)
    by (auto simp: do_ipv46_def gn_ipv46_def gn_host_def gn_serv_def has_flag_def str split: if_splits option.splits)
  with assms(1) show ?thesis by (cases sa) (auto split: if_splits)
qed

end
