(* ===== verification/Web.thy ===== *)
theory Web
  imports CPrelude "HOL-Library.Multiset"
begin

text \<open>
  The web client with parallel non-blocking connections: \<^verbatim>\<open>unpv13e/nonblock\<close> (\<^verbatim>\<open>web.c\<close>, \<^verbatim>\<open>start_connect.c\<close>,
  \<^verbatim>\<open>write_get_cmd.c\<close>) and \<^verbatim>\<open>socket/web.c\<close>. The state is the table of files and the globals of the programs; \<open>gets\<close> and
  \<open>closed\<close> record the requests written and the descriptors closed.

  One iteration of the main loop starts connections while there is room, waits in \<^verbatim>\<open>select\<close>, and serves every file
  whose descriptor is ready. What the kernel answers is the record \<open>web_env\<close>: the outcome of each attempt to start a
  connection, the two sets \<^verbatim>\<open>select\<close> leaves, the pending error of a socket, and what \<^verbatim>\<open>read\<close> and \<^verbatim>\<open>write\<close> do. The two
  programs differ in what they do about failures and in the size of a buffer (record \<open>web_cfg\<close>): the first one ends
  when a library call fails, but goes on after a failed connection; the second one ignores failures, except a failed
  connection, which ends it.
\<close>

section \<open>State\<close>

abbreviation (input) F_CONNECTING :: int where "F_CONNECTING \<equiv> 1"
abbreviation (input) F_READING :: int where "F_READING \<equiv> 2"
abbreviation (input) F_DONE :: int where "F_DONE \<equiv> 4"

abbreviation (input) MAXFILES :: nat where "MAXFILES \<equiv> 20"

record web_file =
  f_name :: "char list"
  f_host :: "char list"
  f_fd :: int
  f_flags :: int

record web =
  files :: "web_file list"
  nconn :: int
  nlefttoconn :: int
  nlefttoread :: int
  maxfd :: int
  rset :: "int set"
  wset :: "int set"
  gets :: "(int \<times> char list) list"
  closed :: "int list"

datatype start_answer = NoHost | Connect int "errno option"

record web_env =
  starts :: "nat \<Rightarrow> start_answer"
  rs :: "int set"
  ws :: "int set"
  so_error :: "int \<Rightarrow> bool"
  read_ans :: "int \<Rightarrow> rd"
  can_write :: "int \<Rightarrow> bool"

record web_cfg =
  strict :: bool
  maxline :: nat

definition unp_web :: web_cfg where
  "unp_web = \<lparr>strict = True, maxline = 4096\<rparr>"

definition own_web :: web_cfg where
  "own_web = \<lparr>strict = False, maxline = 1024\<rparr>"

text \<open>The table of files and the counters as \<^verbatim>\<open>main\<close> sets them up from its arguments.\<close>

definition web_init :: "char list \<Rightarrow> char list list \<Rightarrow> web" where
  "web_init hostname names =
     (let fs = map (\<lambda>n. \<lparr>f_name = n, f_host = hostname, f_fd = 0, f_flags = 0\<rparr>) (take MAXFILES names) in
      \<lparr>files = fs, nconn = 0, nlefttoconn = int (length fs), nlefttoread = int (length fs), maxfd = -1,
       rset = {}, wset = {}, gets = [], closed = []\<rparr>)"

section \<open>Requests and connections\<close>

definition get_cmd :: "char list \<Rightarrow> char list" where
  "get_cmd name = ''GET '' @ name @ '' HTTP/1.0'' @ [CHR 0x0D, CHR 0x0A, CHR 0x0D, CHR 0x0A]"

text \<open>
  \<^verbatim>\<open>snprintf\<close> returns the length of the whole command, and that many bytes of the buffer are written: a command that
  does not fit makes the program write what lies behind the buffer.
\<close>

definition write_get_cmd :: "web_cfg \<Rightarrow> web_env \<Rightarrow> nat \<Rightarrow> web \<Rightarrow> web run c_value" where
  "write_get_cmd cfg env i s =
     (let f = files s ! i; cmd = get_cmd (f_name f) in
      if length cmd \<ge> maxline cfg then UB
      else if strict cfg \<and> \<not> can_write env (f_fd f) then Val (Exit 1)
      else case FD_SET (f_fd f) (rset s) of
        UB \<Rightarrow> UB
      | Val r \<Rightarrow> Val (Ret (s\<lparr>files := (files s)[i := f\<lparr>f_flags := F_READING\<rparr>], rset := r,
          maxfd := (if f_fd f > maxfd s then f_fd f else maxfd s),
          gets := (if can_write env (f_fd f) then gets s @ [(f_fd f, cmd)] else gets s)\<rparr>)))"

definition start_connect :: "web_cfg \<Rightarrow> web_env \<Rightarrow> start_answer \<Rightarrow> nat \<Rightarrow> web \<Rightarrow> web run c_value" where
  "start_connect cfg env ans i s =
     (case ans of
        NoHost \<Rightarrow> if strict cfg then Val (Exit 1) else UB
      | Connect fd err \<Rightarrow>
          if fd < 0 then Val (Exit 1)
          else
            let s1 = s\<lparr>files := (files s)[i := (files s ! i)\<lparr>f_fd := fd\<rparr>]\<rparr> in
            case err of
              None \<Rightarrow> write_get_cmd cfg env i s1
            | Some e \<Rightarrow>
                if e \<noteq> EINPROGRESS then Val (Exit 1)
                else case (FD_SET fd (rset s1), FD_SET fd (wset s1)) of
                  (Val r, Val w) \<Rightarrow>
                    Val (Ret (s1\<lparr>files := (files s1)[i := (files s1 ! i)\<lparr>f_flags := F_CONNECTING\<rparr>],
                      rset := r, wset := w, maxfd := (if fd > maxfd s1 then fd else maxfd s1)\<rparr>))
                | _ \<Rightarrow> UB)"

section \<open>The main loop\<close>

fun find_file :: "web_file list \<Rightarrow> nat" where
  "find_file [] = 0"
| "find_file (f # fs) = (if f_flags f = 0 then 0 else Suc (find_file fs))"

lemma start_connect_keeps:
  "start_connect cfg env ans i s = Val (Ret s') \<Longrightarrow> nlefttoconn s' = nlefttoconn s \<and> nconn s' = nconn s"
  by (auto simp: start_connect_def write_get_cmd_def Let_def split: start_answer.splits option.splits if_splits c_value.splits prod.splits)

function start_all :: "web_cfg \<Rightarrow> int \<Rightarrow> web_env \<Rightarrow> nat \<Rightarrow> web \<Rightarrow> web run c_value" where
  "start_all cfg maxnconn env k s =
     (if nconn s < maxnconn \<and> nlefttoconn s > 0 then
        let i = find_file (files s) in
        if i = length (files s) then Val (Exit 1)
        else case start_connect cfg env (starts env k) i s of
          UB \<Rightarrow> UB
        | Val (Exit c) \<Rightarrow> Val (Exit c)
        | Val (Ret s1) \<Rightarrow>
            start_all cfg maxnconn env (k + 1) (s1\<lparr>nconn := nconn s1 + 1, nlefttoconn := nlefttoconn s1 - 1\<rparr>)
      else Val (Ret s))"
  by pat_completeness auto
termination
  by (relation "measure (\<lambda>(cfg, maxnconn, env, k, s). nat (nlefttoconn s))") (auto dest: start_connect_keeps)

declare start_all.simps [simp del]

definition serve_file :: "web_cfg \<Rightarrow> web_env \<Rightarrow> nat \<Rightarrow> web \<Rightarrow> web run c_value" where
  "serve_file cfg env i s =
     (let f = files s ! i; fd = f_fd f in
      if f_flags f = 0 \<or> f_flags f = F_DONE then Val (Ret s)
      else if f_flags f = F_CONNECTING \<and> (fd \<in> rs env \<or> fd \<in> ws env) then
        if so_error env fd \<and> \<not> strict cfg then Val (Exit 1)
        else write_get_cmd cfg env i (s\<lparr>wset := wset s - {fd}\<rparr>)
      else if f_flags f = F_READING \<and> fd \<in> rs env then
        (case read_ans env fd of
           RdErr e \<Rightarrow> if strict cfg then Val (Exit 1) else Val (Ret s)
         | RdOk bs \<Rightarrow>
             if bs \<noteq> [] then Val (Ret s)
             else Val (Ret (s\<lparr>closed := closed s @ [fd], files := (files s)[i := f\<lparr>f_flags := F_DONE\<rparr>],
               rset := rset s - {fd}, nconn := nconn s - 1, nlefttoread := nlefttoread s - 1\<rparr>)))
      else Val (Ret s))"

fun serve_files :: "web_cfg \<Rightarrow> web_env \<Rightarrow> nat list \<Rightarrow> web \<Rightarrow> web run c_value" where
  "serve_files cfg env [] s = Val (Ret s)"
| "serve_files cfg env (i # is) s =
     (case serve_file cfg env i s of
        UB \<Rightarrow> UB
      | Val (Exit c) \<Rightarrow> Val (Exit c)
      | Val (Ret s') \<Rightarrow> serve_files cfg env is s')"

definition web_iter :: "web_cfg \<Rightarrow> int \<Rightarrow> web_env \<Rightarrow> web \<Rightarrow> web run c_value" where
  "web_iter cfg maxnconn env s =
     (case start_all cfg maxnconn env 0 s of
        UB \<Rightarrow> UB
      | Val (Exit c) \<Rightarrow> Val (Exit c)
      | Val (Ret s1) \<Rightarrow> serve_files cfg env [0..<length (files s1)] s1)"

text \<open>The functions of \<^verbatim>\<open>socket/web.c\<close>: the same, under its own configuration.\<close>

definition own_write_get_cmd :: "web_env \<Rightarrow> nat \<Rightarrow> web \<Rightarrow> web run c_value" where
  "own_write_get_cmd = write_get_cmd own_web"

definition own_start_connect :: "web_env \<Rightarrow> start_answer \<Rightarrow> nat \<Rightarrow> web \<Rightarrow> web run c_value" where
  "own_start_connect = start_connect own_web"

definition own_web_iter :: "int \<Rightarrow> web_env \<Rightarrow> web \<Rightarrow> web run c_value" where
  "own_web_iter = web_iter own_web"

section \<open>The invariant\<close>

abbreviation active :: "web_file \<Rightarrow> bool" where
  "active f \<equiv> f_flags f = F_CONNECTING \<or> f_flags f = F_READING"

abbreviation connecting :: "web_file \<Rightarrow> bool" where
  "connecting f \<equiv> f_flags f = F_CONNECTING"

abbreviation requesting :: "web_file \<Rightarrow> bool" where
  "requesting f \<equiv> f_flags f = F_READING \<or> f_flags f = F_DONE"

text \<open>The values some files have in a field, with their multiplicities.\<close>

definition those :: "(web_file \<Rightarrow> bool) \<Rightarrow> (web_file \<Rightarrow> 'a) \<Rightarrow> web_file list \<Rightarrow> 'a multiset" where
  "those P g fs = mset (map g (filter P fs))"

lemma those_update:
  "i < length fs \<Longrightarrow> those P g (fs[i := f]) + (if P (fs ! i) then {#g (fs ! i)#} else {#}) =
     those P g fs + (if P f then {#g f#} else {#})"
  unfolding those_def
proof (induction fs arbitrary: i)
  case (Cons y ys)
  show ?case
  proof (cases i)
    case (Suc j)
    with Cons.IH [of j] Cons.prems show ?thesis by auto
  qed simp
qed simp

lemma those_same:
  "i < length fs \<Longrightarrow> \<not> P (fs ! i) \<Longrightarrow> \<not> P f \<Longrightarrow> those P g (fs[i := f]) = those P g fs"
  using those_update [of i fs P g f] by simp

lemma those_mono: "(\<And>f. P f \<Longrightarrow> Q f) \<Longrightarrow> those P g fs \<subseteq># those Q g fs"
  unfolding those_def by (induction fs) (auto simp: subset_mset.add_mono intro: subset_mset.order_trans)

text \<open>
  What holds of the table, the read set and the two logs, whatever the counters are: the read set is made of the
  distinct descriptors of the active files; every file past the connection was requested once; the descriptors of
  the finished files were closed.
\<close>

definition web_core :: "web \<Rightarrow> bool" where
  "web_core s \<longleftrightarrow>
     list_all (\<lambda>f. f_flags f \<in> {0, F_CONNECTING, F_READING, F_DONE}) (files s) \<and>
     rset s = set_mset (those active f_fd (files s)) \<and>
     (\<forall>fd. count (those active f_fd (files s)) fd \<le> 1) \<and>
     (\<forall>fd \<in> rset s. 0 \<le> fd \<and> fd < int FD_SETSIZE \<and> fd \<le> maxfd s) \<and>
     mset (map snd (gets s)) = those requesting (\<lambda>f. get_cmd (f_name f)) (files s) \<and>
     mset (closed s) = those (\<lambda>f. f_flags f = F_DONE) f_fd (files s)"

definition writes_ok :: "web \<Rightarrow> bool" where
  "writes_ok s \<longleftrightarrow> wset s = set_mset (those connecting f_fd (files s))"

definition counters_ok :: "web \<Rightarrow> bool" where
  "counters_ok s \<longleftrightarrow> nconn s = int (how_many active (files s)) \<and>
     nlefttoconn s = int (how_many (\<lambda>f. f_flags f = 0) (files s)) \<and>
     nlefttoread s = int (how_many (\<lambda>f. f_flags f \<noteq> F_DONE) (files s))"

definition same_counters :: "web \<Rightarrow> web \<Rightarrow> bool" where
  "same_counters s s' \<longleftrightarrow> nconn s' = nconn s \<and> nlefttoconn s' = nlefttoconn s \<and> nlefttoread s' = nlefttoread s"

lemma list_all_update: "list_all P xs \<Longrightarrow> P x \<Longrightarrow> list_all P (xs[i := x])"
  by (auto simp: list_all_iff dest!: set_update_subset_insert [THEN subsetD])

lemma write_get_cmd_core:
  assumes core: "web_core s" and i: "i < length (files s)"
    and fl: "f_flags (files s ! i) = 0 \<and> f_fd (files s ! i) \<notin> rset s \<or> f_flags (files s ! i) = F_CONNECTING"
    and fd: "0 \<le> f_fd (files s ! i)" "f_fd (files s ! i) < int FD_SETSIZE"
    and len: "length (get_cmd (f_name (files s ! i))) < maxline cfg" and wr: "can_write env (f_fd (files s ! i))"
  shows "\<exists>s'. write_get_cmd cfg env i s = Val (Ret s') \<and> web_core s' \<and> wset s' = wset s \<and> same_counters s s' \<and>
    files s' = (files s)[i := (files s ! i)\<lparr>f_flags := F_READING\<rparr>]"
proof -
  let ?f = "files s ! i" let ?f' = "?f\<lparr>f_flags := F_READING\<rparr>"
  define s' where "s' = s\<lparr>files := (files s)[i := ?f'], rset := insert (f_fd ?f) (rset s),
    maxfd := (if f_fd ?f > maxfd s then f_fd ?f else maxfd s), gets := gets s @ [(f_fd ?f, get_cmd (f_name ?f))]\<rparr>"
  have sel: "files s' = (files s)[i := ?f']" "rset s' = insert (f_fd ?f) (rset s)" "wset s' = wset s"
    "gets s' = gets s @ [(f_fd ?f, get_cmd (f_name ?f))]" "closed s' = closed s" "same_counters s s'"
    "maxfd s \<le> maxfd s'" "f_fd ?f \<le> maxfd s'"
    by (simp_all add: s'_def same_counters_def)
  have run: "write_get_cmd cfg env i s = Val (Ret s')"
    using len wr fd by (simp add: write_get_cmd_def FD_SET_def Let_def s'_def)
  have act: "those active f_fd (files s') = those active f_fd (files s) + (if f_flags ?f = 0 then {#f_fd ?f#} else {#})"
    using those_update [OF i, of active f_fd ?f'] fl by (auto simp: sel)
  have req: "those requesting (\<lambda>f. get_cmd (f_name f)) (files s') =
      add_mset (get_cmd (f_name ?f)) (those requesting (\<lambda>f. get_cmd (f_name f)) (files s))"
    using those_update [OF i, of requesting "\<lambda>f. get_cmd (f_name f)" ?f'] fl by (auto simp: sel)
  have fin: "those (\<lambda>f. f_flags f = F_DONE) f_fd (files s') = those (\<lambda>f. f_flags f = F_DONE) f_fd (files s)"
    using those_update [OF i, of "\<lambda>f. f_flags f = F_DONE" f_fd ?f'] fl by (auto simp: sel)
  have old: "f_fd ?f \<in> rset s" if "f_flags ?f = F_CONNECTING"
    using core i that by (auto simp: web_core_def those_def)
  have "web_core s'"
    unfolding web_core_def act req fin
  proof (intro conjI)
    show "list_all (\<lambda>f. f_flags f \<in> {0, F_CONNECTING, F_READING, F_DONE}) (files s')"
      using core unfolding sel web_core_def by (intro list_all_update) simp_all
    show "rset s' = set_mset (those active f_fd (files s) + (if f_flags ?f = 0 then {#f_fd ?f#} else {#}))"
      using core fl old by (auto simp: sel web_core_def)
    show "\<forall>fd. count (those active f_fd (files s) + (if f_flags ?f = 0 then {#f_fd ?f#} else {#})) fd \<le> 1"
      using core fl by (auto simp: web_core_def not_in_iff)
    show "\<forall>fd\<in>rset s'. 0 \<le> fd \<and> fd < int FD_SETSIZE \<and> fd \<le> maxfd s'"
      using core fd sel(7,8) unfolding sel(2) web_core_def by (auto intro: order_trans)
  qed (use core in \<open>simp_all add: sel web_core_def\<close>)
  with run sel show ?thesis by blast
qed

text \<open>What a connection that is begun needs of the kernel: a new descriptor, and no failure.\<close>

definition start_ok :: "web_cfg \<Rightarrow> web_env \<Rightarrow> int set \<Rightarrow> start_answer \<Rightarrow> bool" where
  "start_ok cfg env used ans \<longleftrightarrow>
     (case ans of
        NoHost \<Rightarrow> False
      | Connect fd err \<Rightarrow> 0 \<le> fd \<and> fd < int FD_SETSIZE \<and> fd \<notin> used \<and> can_write env fd \<and>
          (err = None \<or> err = Some EINPROGRESS))"

definition names_fit :: "web_cfg \<Rightarrow> web_file list \<Rightarrow> bool" where
  "names_fit cfg fs \<longleftrightarrow> list_all (\<lambda>f. length (get_cmd (f_name f)) < maxline cfg) fs"

definition web_sets :: "web \<Rightarrow> bool" where
  "web_sets s \<longleftrightarrow> web_core s \<and> writes_ok s"

definition begun :: "web \<Rightarrow> nat \<Rightarrow> web \<Rightarrow> bool" where
  "begun s i s' \<longleftrightarrow> (\<exists>f. files s' = (files s)[i := f] \<and> f_name f = f_name (files s ! i) \<and> active f)"

lemma start_connect_core:
  assumes ok: "web_sets s" and i: "i < length (files s)" and fl: "f_flags (files s ! i) = 0"
    and ans: "start_ok cfg env (rset s) (Connect fd err)" and fit: "names_fit cfg (files s)"
  shows "\<exists>s'. start_connect cfg env (Connect fd err) i s = Val (Ret s') \<and> web_sets s' \<and> same_counters s s' \<and>
    begun s i s' \<and> rset s' = insert fd (rset s)"
proof -
  let ?f = "(files s ! i)\<lparr>f_fd := fd\<rparr>"
  define s1 where "s1 = s\<lparr>files := (files s)[i := ?f]\<rparr>"
  have sel: "files s1 = (files s)[i := ?f]" "rset s1 = rset s" "wset s1 = wset s" "gets s1 = gets s"
    "closed s1 = closed s" "maxfd s1 = maxfd s" "same_counters s s1" by (simp_all add: s1_def same_counters_def)
  have same: "those active f_fd (files s1) = those active f_fd (files s)"
    "those requesting (\<lambda>f. get_cmd (f_name f)) (files s1) = those requesting (\<lambda>f. get_cmd (f_name f)) (files s)"
    "those (\<lambda>f. f_flags f = F_DONE) f_fd (files s1) = those (\<lambda>f. f_flags f = F_DONE) f_fd (files s)"
    unfolding sel(1) using fl by (intro those_same [OF i]; simp)+
  have "list_all (\<lambda>f. f_flags f \<in> {0, F_CONNECTING, F_READING, F_DONE}) (files s1)"
    using ok fl unfolding sel web_sets_def web_core_def by (intro list_all_update) simp_all
  then have core1: "web_core s1"
    using ok unfolding web_sets_def web_core_def same sel(2-6) by simp
  have fd: "0 \<le> fd" "fd < int FD_SETSIZE" "fd \<notin> rset s" "can_write env fd" "err = None \<or> err = Some EINPROGRESS"
    using ans by (auto simp: start_ok_def)
  have f1: "files s1 ! i = ?f" "i < length (files s1)" using i by (simp_all add: sel)
  have len: "length (get_cmd (f_name (files s ! i))) < maxline cfg" using fit i by (simp add: names_fit_def list_all_length)
  show ?thesis
  proof (cases err)
    case None
    have "\<exists>s'. write_get_cmd cfg env i s1 = Val (Ret s') \<and> web_core s' \<and> wset s' = wset s1 \<and> same_counters s1 s' \<and>
        files s' = (files s1)[i := (files s1 ! i)\<lparr>f_flags := F_READING\<rparr>]"
      using core1 f1 fl fd len by (intro write_get_cmd_core) (simp_all add: sel)
    then obtain s' where s': "write_get_cmd cfg env i s1 = Val (Ret s')" "web_core s'" "wset s' = wset s1"
      "same_counters s1 s'" "files s' = (files s)[i := ?f\<lparr>f_flags := F_READING\<rparr>]"
      using f1 by (auto simp: sel)
    have "those connecting f_fd (files s') = those connecting f_fd (files s)"
      using those_update [OF i, of connecting f_fd "?f\<lparr>f_flags := F_READING\<rparr>"] fl by (simp add: s')
    then have "web_sets s'" using s' ok by (simp add: web_sets_def writes_ok_def sel)
    moreover have "those active f_fd (files s') = add_mset fd (those active f_fd (files s))"
      using those_update [OF i, of active f_fd "?f\<lparr>f_flags := F_READING\<rparr>"] fl by (simp add: s')
    then have "rset s' = insert fd (rset s)" using s'(2) ok by (simp add: web_core_def web_sets_def)
    moreover have "start_connect cfg env (Connect fd err) i s = Val (Ret s')"
      using None fd s'(1) by (simp add: start_connect_def Let_def s1_def)
    moreover have "same_counters s s'" "begun s i s'" using s' by (auto simp: same_counters_def sel begun_def s1_def)
    ultimately show ?thesis by blast
  next
    case (Some e)
    let ?f2 = "?f\<lparr>f_flags := F_CONNECTING\<rparr>"
    define s' where "s' = s1\<lparr>files := (files s1)[i := ?f2], rset := insert fd (rset s1), wset := insert fd (wset s1),
      maxfd := (if fd > maxfd s1 then fd else maxfd s1)\<rparr>"
    have sel2: "files s' = (files s)[i := ?f2]" "rset s' = insert fd (rset s)" "wset s' = insert fd (wset s)" "gets s' = gets s"
      "closed s' = closed s" "maxfd s \<le> maxfd s'" "fd \<le> maxfd s'" "same_counters s s'"
      by (simp_all add: s'_def sel same_counters_def s1_def)
    have act: "those active f_fd (files s') = add_mset fd (those active f_fd (files s))"
      "those connecting f_fd (files s') = add_mset fd (those connecting f_fd (files s))"
      "those requesting (\<lambda>f. get_cmd (f_name f)) (files s') = those requesting (\<lambda>f. get_cmd (f_name f)) (files s)"
      "those (\<lambda>f. f_flags f = F_DONE) f_fd (files s') = those (\<lambda>f. f_flags f = F_DONE) f_fd (files s)"
      using those_update [OF i, of active f_fd ?f2] those_update [OF i, of connecting f_fd ?f2]
        those_update [OF i, of requesting "\<lambda>f. get_cmd (f_name f)" ?f2] those_update [OF i, of "\<lambda>f. f_flags f = F_DONE" f_fd ?f2] fl
      by (simp_all add: sel2)
    have "list_all (\<lambda>f. f_flags f \<in> {0, F_CONNECTING, F_READING, F_DONE}) (files s')"
      using ok unfolding sel2 web_sets_def web_core_def by (intro list_all_update) simp_all
    then have "web_sets s'"
      using ok fd sel2(6,7) unfolding web_sets_def web_core_def writes_ok_def act sel2(2-5)
      by (auto simp: not_in_iff intro: order_trans)
    moreover have "start_connect cfg env (Connect fd err) i s = Val (Ret s')"
      using Some fd f1 by (simp add: start_connect_def Let_def FD_SET_def s'_def s1_def)
    moreover have "begun s i s'" by (auto simp: begun_def sel2)
    ultimately show ?thesis using sel2 by blast
  qed
qed

section \<open>Starting connections\<close>

lemma find_file_first:
  "0 < how_many (\<lambda>f. f_flags f = 0) fs \<Longrightarrow> find_file fs < length fs \<and> f_flags (fs ! find_file fs) = 0"
  by (induction fs) (auto split: if_splits)

lemma begun_counts:
  assumes "begun s i s'" and "i < length (files s)" and "f_flags (files s ! i) = 0"
  shows "how_many active (files s') = how_many active (files s) + 1"
    and "how_many (\<lambda>f. f_flags f = 0) (files s') + 1 = how_many (\<lambda>f. f_flags f = 0) (files s)"
    and "how_many (\<lambda>f. f_flags f \<noteq> F_DONE) (files s') = how_many (\<lambda>f. f_flags f \<noteq> F_DONE) (files s)"
    and "map f_name (files s') = map f_name (files s)"
proof -
  obtain f where f: "files s' = (files s)[i := f]" "f_name f = f_name (files s ! i)" "active f"
    using assms(1) by (auto simp: begun_def)
  note upd = how_many_update [OF assms(2), of _ f]
  show "how_many active (files s') = how_many active (files s) + 1"
    and "how_many (\<lambda>f. f_flags f = 0) (files s') + 1 = how_many (\<lambda>f. f_flags f = 0) (files s)"
    and "how_many (\<lambda>f. f_flags f \<noteq> F_DONE) (files s') = how_many (\<lambda>f. f_flags f \<noteq> F_DONE) (files s)"
    using upd [of active] upd [of "\<lambda>f. f_flags f = 0"] upd [of "\<lambda>f. f_flags f \<noteq> F_DONE"] f assms(3) by auto
  show "map f_name (files s') = map f_name (files s)"
    using f assms(2) by (simp add: map_update list_update_same_conv)
qed

lemma names_fit_names: "map f_name fs = map f_name fs' \<Longrightarrow> names_fit cfg fs = names_fit cfg fs'"
proof -
  have "names_fit cfg fs \<longleftrightarrow> list_all (\<lambda>n. length (get_cmd n) < maxline cfg) (map f_name fs)" for fs
    by (simp add: names_fit_def list_all_iff)
  then show "map f_name fs = map f_name fs' \<Longrightarrow> names_fit cfg fs = names_fit cfg fs'" by metis
qed

text \<open>The answers to the attempts from \<open>k\<close> on: each gets a descriptor of its own.\<close>

definition starts_ok :: "web_cfg \<Rightarrow> web_env \<Rightarrow> nat \<Rightarrow> web \<Rightarrow> bool" where
  "starts_ok cfg env k s \<longleftrightarrow>
     (\<forall>j. k \<le> j \<and> j < k + nat (nlefttoconn s) \<longrightarrow> start_ok cfg env (rset s) (starts env j) \<and>
        (\<forall>l. j < l \<and> l < k + nat (nlefttoconn s) \<longrightarrow> (case (starts env j, starts env l) of
           (Connect fd _, Connect fd' _) \<Rightarrow> fd \<noteq> fd' | _ \<Rightarrow> False)))"

definition web_ok :: "web_cfg \<Rightarrow> int \<Rightarrow> web \<Rightarrow> bool" where
  "web_ok cfg m s \<longleftrightarrow> web_sets s \<and> counters_ok s \<and> nconn s \<le> max m 0 \<and> names_fit cfg (files s)"

lemma starts_ok_next:
  assumes "starts_ok cfg env k s" and "starts env k = Connect fd err" and "nlefttoconn s' = nlefttoconn s - 1"
    and "rset s' = insert fd (rset s)" and "0 < nlefttoconn s"
  shows "starts_ok cfg env (k + 1) s'"
proof -
  have b: "k + 1 + nat (nlefttoconn s') = k + nat (nlefttoconn s)" using assms(3,5) by simp
  have "start_ok cfg env (insert fd (rset s)) (starts env j)" if "k < j" "j < k + nat (nlefttoconn s)" for j
  proof -
    from assms(1) that have "start_ok cfg env (rset s) (starts env j)" by (auto simp: starts_ok_def)
    moreover from assms(1) that have "case (starts env k, starts env j) of (Connect fd _, Connect fd' _) \<Rightarrow> fd \<noteq> fd' | _ \<Rightarrow> False"
      unfolding starts_ok_def by (meson le_refl less_trans)
    ultimately show ?thesis using assms(2) by (auto simp: start_ok_def split: start_answer.splits)
  qed
  with assms(1) b show ?thesis unfolding starts_ok_def assms(4) by auto
qed

lemma start_all_ok:
  assumes "web_ok cfg m s" and "starts_ok cfg env k s"
  shows "\<exists>s'. start_all cfg m env k s = Val (Ret s') \<and> web_ok cfg m s' \<and> map f_name (files s') = map f_name (files s) \<and>
    (nconn s' \<ge> m \<or> nlefttoconn s' = 0) \<and> nlefttoread s' = nlefttoread s"
  using assms
proof (induction "nat (nlefttoconn s)" arbitrary: s k)
  case 0
  then have "nlefttoconn s = 0" by (simp add: web_ok_def counters_ok_def)
  with 0 show ?case by (simp add: start_all.simps)
next
  case (Suc n)
  from Suc.prems(1) have sets: "web_sets s" and cnt: "counters_ok s" and fit: "names_fit cfg (files s)"
    by (simp_all add: web_ok_def)
  show ?case
  proof (cases "nconn s < m")
    case False
    with Suc.prems show ?thesis by (simp add: start_all.simps)
  next
    case True
    let ?i = "find_file (files s)"
    have left: "0 < nlefttoconn s" using Suc.hyps(2) by simp
    then have i: "?i < length (files s)" "f_flags (files s ! ?i) = 0"
      using find_file_first [of "files s"] cnt by (auto simp: counters_ok_def)
    have st: "start_ok cfg env (rset s) (starts env k)" using Suc.prems(2) left by (simp add: starts_ok_def)
    then obtain fd err where ans: "starts env k = Connect fd err" by (auto simp: start_ok_def split: start_answer.splits)
    from start_connect_core [OF sets i st [unfolded ans] fit] obtain s1 where
      s1: "start_connect cfg env (Connect fd err) ?i s = Val (Ret s1)" "web_sets s1" "same_counters s s1" "begun s ?i s1"
        "rset s1 = insert fd (rset s)" by blast
    let ?s = "s1\<lparr>nconn := nconn s1 + 1, nlefttoconn := nlefttoconn s1 - 1\<rparr>"
    note counts = begun_counts [OF s1(4) i]
    have "web_sets ?s" using s1(2) by (simp add: web_sets_def web_core_def writes_ok_def)
    moreover have "counters_ok ?s" using counts cnt s1(3) by (auto simp: counters_ok_def same_counters_def)
    moreover have "nconn ?s \<le> max m 0" using True s1(3) by (simp add: same_counters_def)
    ultimately have ok: "web_ok cfg m ?s" using fit names_fit_names [OF counts(4)] by (simp add: web_ok_def)
    have "starts_ok cfg env (k + 1) ?s" using s1(3,5) left by (intro starts_ok_next [OF Suc.prems(2) ans]) (simp_all add: same_counters_def)
    moreover have "n = nat (nlefttoconn ?s)" using Suc.hyps(2) s1(3) by (simp add: same_counters_def)
    ultimately obtain s' where s': "start_all cfg m env (k + 1) ?s = Val (Ret s')" "web_ok cfg m s'"
      "map f_name (files s') = map f_name (files ?s)" "nconn s' \<ge> m \<or> nlefttoconn s' = 0" "nlefttoread s' = nlefttoread ?s"
      using Suc.hyps(1) ok by blast
    with True left i(1) ans s1(1,3) counts(4) show ?thesis
      by (subst start_all.simps) (simp add: Let_def same_counters_def)
  qed
qed

section \<open>Serving the files\<close>

text \<open>No call of the iteration fails.\<close>

definition quiet_env :: "web_env \<Rightarrow> bool" where
  "quiet_env env \<longleftrightarrow> (\<forall>fd. can_write env fd \<and> \<not> so_error env fd \<and> (\<exists>bs. read_ans env fd = RdOk bs))"

lemma those_member: "i < length fs \<Longrightarrow> P (fs ! i) \<Longrightarrow> g (fs ! i) \<in># those P g fs"
  by (auto simp: those_def)

lemma those_remove:
  assumes "i < length fs" and "P (fs ! i)" and "\<not> P f"
  shows "those P g (fs[i := f]) = those P g fs - {#g (fs ! i)#}"
proof -
  have "those P g (fs[i := f]) + {#g (fs ! i)#} = those P g fs"
    using those_update [OF assms(1), of P g f] assms(2,3) by simp
  then show ?thesis by (simp flip: add_mset_add_single) (metis add_mset_remove_trivial)
qed

lemma set_mset_remove:
  assumes "\<forall>x. count M x \<le> 1"
  shows "set_mset (M - {#x#}) = set_mset M - {x}"
proof (rule set_eqI)
  fix y
  show "y \<in># M - {#x#} \<longleftrightarrow> y \<in> set_mset M - {x}"
  proof (cases "y = x")
    case True
    have "count (M - {#x#}) x = 0" using assms [rule_format, of x] by simp
    with True show ?thesis by (simp add: not_in_iff)
  next
    case False
    then show ?thesis by (simp flip: count_greater_zero_iff)
  qed
qed

lemma serve_file_connected:
  assumes ok: "web_ok cfg m s" and "quiet_env env" and i: "i < length (files s)" and fl: "connecting (files s ! i)"
  shows "\<exists>s'. write_get_cmd cfg env i (s\<lparr>wset := wset s - {f_fd (files s ! i)}\<rparr>) = Val (Ret s') \<and> web_ok cfg m s' \<and>
    map f_name (files s') = map f_name (files s)"
proof -
  let ?f = "files s ! i" let ?s = "s\<lparr>wset := wset s - {f_fd ?f}\<rparr>"
  from ok have core: "web_core s" and w: "writes_ok s" and cnt: "counters_ok s" by (simp_all add: web_ok_def web_sets_def)
  have mem: "f_fd ?f \<in># those active f_fd (files s)" using those_member [OF i, of active f_fd] fl by simp
  then have fd: "0 \<le> f_fd ?f" "f_fd ?f < int FD_SETSIZE" using core by (auto simp: web_core_def)
  have len: "length (get_cmd (f_name ?f)) < maxline cfg" using ok i by (simp add: web_ok_def names_fit_def list_all_length)
  have "web_core ?s" using core by (simp add: web_core_def)
  from write_get_cmd_core [OF this, of i cfg env] i fl fd len assms(2) obtain s' where
    s': "write_get_cmd cfg env i ?s = Val (Ret s')" "web_core s'" "wset s' = wset ?s" "same_counters ?s s'"
      "files s' = (files s)[i := ?f\<lparr>f_flags := F_READING\<rparr>]"
    by (auto simp: quiet_env_def)
  have "those connecting f_fd (files s') = those connecting f_fd (files s) - {#f_fd ?f#}"
    unfolding s'(5) using fl by (intro those_remove [OF i]) simp_all
  moreover have "count (those connecting f_fd (files s)) fd \<le> 1" for fd
  proof -
    have "those connecting f_fd (files s) \<subseteq># those active f_fd (files s)" by (rule those_mono) simp
    then have "count (those connecting f_fd (files s)) fd \<le> count (those active f_fd (files s)) fd"
      by (simp add: subseteq_mset_def)
    also have "\<dots> \<le> 1" using core by (simp add: web_core_def)
    finally show ?thesis .
  qed
  ultimately have "writes_ok s'" using w s'(3) by (simp add: writes_ok_def set_mset_remove)
  moreover have "counters_ok s'"
    using cnt s'(4,5) fl how_many_update [OF i, of active "?f\<lparr>f_flags := F_READING\<rparr>"]
      how_many_update [OF i, of "\<lambda>f. f_flags f = 0" "?f\<lparr>f_flags := F_READING\<rparr>"]
      how_many_update [OF i, of "\<lambda>f. f_flags f \<noteq> F_DONE" "?f\<lparr>f_flags := F_READING\<rparr>"]
    by (auto simp: counters_ok_def same_counters_def)
  moreover have names: "map f_name (files s') = map f_name (files s)"
    using i by (simp add: s' map_update list_update_same_conv)
  ultimately have "web_ok cfg m s'"
    using ok s'(2,4) names_fit_names [OF names] by (simp add: web_ok_def web_sets_def same_counters_def)
  with s'(1) names show ?thesis by blast
qed

lemma serve_file_done:
  assumes ok: "web_ok cfg m s" and i: "i < length (files s)" and fl: "f_flags (files s ! i) = F_READING"
    and s': "s' = s\<lparr>closed := closed s @ [f_fd (files s ! i)], files := (files s)[i := (files s ! i)\<lparr>f_flags := F_DONE\<rparr>],
      rset := rset s - {f_fd (files s ! i)}, nconn := nconn s - 1, nlefttoread := nlefttoread s - 1\<rparr>"
  shows "web_ok cfg m s' \<and> map f_name (files s') = map f_name (files s)"
proof -
  let ?f = "files s ! i" let ?f' = "?f\<lparr>f_flags := F_DONE\<rparr>"
  have sel: "files s' = (files s)[i := ?f']" "rset s' = rset s - {f_fd ?f}" "wset s' = wset s" "gets s' = gets s"
    "closed s' = closed s @ [f_fd ?f]" "maxfd s' = maxfd s" "nconn s' = nconn s - 1" "nlefttoread s' = nlefttoread s - 1"
    "nlefttoconn s' = nlefttoconn s"
    by (simp_all add: s')
  from ok have core: "web_core s" and w: "writes_ok s" and cnt: "counters_ok s" by (simp_all add: web_ok_def web_sets_def)
  have act: "those active f_fd (files s') = those active f_fd (files s) - {#f_fd ?f#}"
    unfolding sel(1) using fl by (intro those_remove [OF i]) simp_all
  have con: "those connecting f_fd (files s') = those connecting f_fd (files s)"
    unfolding sel(1) using fl by (intro those_same [OF i]) simp_all
  have req: "those requesting (\<lambda>f. get_cmd (f_name f)) (files s') = those requesting (\<lambda>f. get_cmd (f_name f)) (files s)"
    using those_update [OF i, of requesting "\<lambda>f. get_cmd (f_name f)" ?f'] fl by (simp add: sel)
  have fin: "those (\<lambda>f. f_flags f = F_DONE) f_fd (files s') = add_mset (f_fd ?f) (those (\<lambda>f. f_flags f = F_DONE) f_fd (files s))"
    using those_update [OF i, of "\<lambda>f. f_flags f = F_DONE" f_fd ?f'] fl by (simp add: sel)
  have "list_all (\<lambda>f. f_flags f \<in> {0, F_CONNECTING, F_READING, F_DONE}) (files s')"
    using core unfolding sel web_core_def by (intro list_all_update) simp_all
  moreover have "\<forall>fd. count (those active f_fd (files s) - {#f_fd ?f#}) fd \<le> 1"
    using core by (auto simp: web_core_def intro: le_trans [OF diff_le_self])
  ultimately have "web_core s'"
    using core unfolding web_core_def act req fin sel(2-6) by (auto simp: set_mset_remove)
  moreover have "writes_ok s'" using w unfolding writes_ok_def con sel(3) .
  moreover have "counters_ok s'"
    using cnt fl how_many_update [OF i, of active ?f'] how_many_update [OF i, of "\<lambda>f. f_flags f = 0" ?f']
      how_many_update [OF i, of "\<lambda>f. f_flags f \<noteq> F_DONE" ?f']
    by (auto simp: counters_ok_def sel)
  moreover have names: "map f_name (files s') = map f_name (files s)"
    using i by (simp add: sel map_update list_update_same_conv)
  ultimately show ?thesis
    using ok names_fit_names [OF names] by (simp add: web_ok_def web_sets_def sel)
qed

lemma serve_file_ok:
  assumes "web_ok cfg m s" and "quiet_env env" and "i < length (files s)"
  shows "\<exists>s'. serve_file cfg env i s = Val (Ret s') \<and> web_ok cfg m s' \<and> map f_name (files s') = map f_name (files s)"
proof -
  let ?f = "files s ! i"
  obtain bs where bs: "read_ans env (f_fd ?f) = RdOk bs" using assms(2) by (auto simp: quiet_env_def)
  have rest: "serve_file cfg env i s = Val (Ret s)"
    if "\<not> (connecting ?f \<and> (f_fd ?f \<in> rs env \<or> f_fd ?f \<in> ws env))" "\<not> (f_flags ?f = F_READING \<and> f_fd ?f \<in> rs env \<and> bs = [])"
    using that bs by (auto simp: serve_file_def Let_def)
  consider (conn) "connecting ?f" "f_fd ?f \<in> rs env \<or> f_fd ?f \<in> ws env"
    | (eof) "f_flags ?f = F_READING" "f_fd ?f \<in> rs env" "bs = []"
    | (idle) "serve_file cfg env i s = Val (Ret s)"
    using rest by blast
  then show ?thesis
  proof cases
    case conn
    with serve_file_connected [OF assms conn(1)] assms(2) show ?thesis by (auto simp: serve_file_def quiet_env_def)
  next
    case eof
    with bs serve_file_done [OF assms(1,3) eof(1) refl] show ?thesis by (simp add: serve_file_def Let_def)
  next
    case idle
    with assms(1) show ?thesis by simp
  qed
qed

lemma serve_files_ok:
  assumes "web_ok cfg m s" and "quiet_env env" and "\<forall>i\<in>set is. i < length (files s)"
  shows "\<exists>s'. serve_files cfg env is s = Val (Ret s') \<and> web_ok cfg m s' \<and> map f_name (files s') = map f_name (files s)"
  using assms
proof (induction "is" arbitrary: s)
  case (Cons i "is")
  from serve_file_ok [OF Cons.prems(1,2), of i] Cons.prems(3) obtain s1 where
    s1: "serve_file cfg env i s = Val (Ret s1)" "web_ok cfg m s1" "map f_name (files s1) = map f_name (files s)" by auto
  have "length (files s1) = length (files s)" using s1(3) by (metis length_map)
  with Cons.IH [OF s1(2) Cons.prems(2)] Cons.prems(3) s1 show ?case by auto
qed auto

lemma web_iter_ok:
  assumes "web_ok cfg m s" and "quiet_env env" and "starts_ok cfg env 0 s"
  shows "\<exists>s'. web_iter cfg m env s = Val (Ret s') \<and> web_ok cfg m s' \<and> map f_name (files s') = map f_name (files s)"
proof -
  from start_all_ok [OF assms(1,3)] obtain s1 where s1: "start_all cfg m env 0 s = Val (Ret s1)" "web_ok cfg m s1"
    "map f_name (files s1) = map f_name (files s)" by blast
  from serve_files_ok [OF s1(2) assms(2), of "[0..<length (files s1)]"] s1 show ?thesis by (auto simp: web_iter_def)
qed

section \<open>Properties\<close>

text \<open>The states of a run in which no call fails.\<close>

inductive web_reach :: "web_cfg \<Rightarrow> int \<Rightarrow> char list \<Rightarrow> char list list \<Rightarrow> web \<Rightarrow> bool"
  for cfg :: web_cfg and maxnconn :: int and hostname :: "char list" and names :: "char list list" where
  web_start: "web_reach cfg maxnconn hostname names (web_init hostname names)"
| web_next: "web_reach cfg maxnconn hostname names s \<Longrightarrow> 0 < nlefttoread s \<Longrightarrow> quiet_env env \<Longrightarrow> starts_ok cfg env 0 s \<Longrightarrow>
    web_iter cfg maxnconn env s = Val (Ret s') \<Longrightarrow> web_reach cfg maxnconn hostname names s'"

definition fits :: "web_cfg \<Rightarrow> char list list \<Rightarrow> bool" where
  "fits cfg names \<longleftrightarrow> list_all (\<lambda>n. length (get_cmd n) < maxline cfg) (take MAXFILES names)"

lemma web_ok_init: "fits cfg names \<Longrightarrow> web_ok cfg m (web_init hostname names)"
proof -
  let ?fs = "map (\<lambda>n. \<lparr>f_name = n, f_host = hostname, f_fd = 0, f_flags = 0\<rparr>) (take MAXFILES names)"
  have "how_many active ?fs = 0" "how_many (\<lambda>f. f_flags f = 0) ?fs = length ?fs"
    "how_many (\<lambda>f. f_flags f \<noteq> F_DONE) ?fs = length ?fs"
    by (simp_all add: how_many_def filter_map o_def)
  moreover assume "fits cfg names"
  ultimately show ?thesis
    by (simp add: web_ok_def web_sets_def web_core_def writes_ok_def counters_ok_def web_init_def those_def filter_map o_def
        names_fit_def fits_def list_all_iff)
qed

lemma web_reach_ok:
  assumes "web_reach cfg m hostname names s" and "fits cfg names"
  shows "web_ok cfg m s \<and> map f_name (files s) = take MAXFILES names"
  using assms(1)
proof (induction rule: web_reach.induct)
  case web_start
  show ?case using web_ok_init [OF assms(2)] by (simp add: web_init_def o_def)
next
  case (web_next s env s')
  from web_iter_ok [of cfg m s env] web_next show ?case by auto
qed

text \<open>
  C15. Both web clients, in any run in which no call fails: an iteration of the main loop always completes (the test for a
  file that is not to be found never fails), never has more than \<^verbatim>\<open>maxnconn\<close> connections open, and \<^verbatim>\<open>nconn\<close> counts exactly
  the open ones; the sets given to \<^verbatim>\<open>select\<close> are the descriptors of the open connections and those still connecting.
  When no file is left to read every file was requested exactly once and all descriptors are closed.
\<close>

theorem web_iteration_keeps_count:
  assumes reach: "web_reach cfg maxnconn hostname names s" and fits: "fits cfg names"
    and "quiet_env env" and "starts_ok cfg env 0 s"
  shows "\<exists>s'. web_iter cfg maxnconn env s = Val (Ret s') \<and>
    nconn s' = int (how_many active (files s')) \<and> nconn s' \<le> max maxnconn 0 \<and>
    rset s' = f_fd ` {f \<in> set (files s'). active f} \<and> wset s' = f_fd ` {f \<in> set (files s'). connecting f} \<and>
    (nlefttoread s' = 0 \<longrightarrow> mset (map snd (gets s')) = mset (map get_cmd (take MAXFILES names)) \<and>
       mset (closed s') = mset (map f_fd (files s')) \<and> rset s' = {} \<and> nconn s' = 0)"
proof -
  note ok = web_reach_ok [OF reach fits]
  from web_iter_ok [of cfg maxnconn s env] ok assms(3,4) obtain s' where
    s': "web_iter cfg maxnconn env s = Val (Ret s')" "web_ok cfg maxnconn s'" "map f_name (files s') = take MAXFILES names"
    by auto
  then have inv: "web_core s'" "writes_ok s'" "counters_ok s'" "nconn s' \<le> max maxnconn 0"
    by (auto simp: web_ok_def web_sets_def)
  have "mset (map snd (gets s')) = mset (map get_cmd (take MAXFILES names)) \<and> mset (closed s') = mset (map f_fd (files s')) \<and>
      rset s' = {} \<and> nconn s' = 0" if "nlefttoread s' = 0"
  proof -
    have all: "\<forall>f\<in>set (files s'). f_flags f = F_DONE"
      using that inv(3) by (simp add: counters_ok_def how_many_def filter_empty_conv)
    then have "filter requesting (files s') = files s'" "filter (\<lambda>f. f_flags f = F_DONE) (files s') = files s'"
      "filter active (files s') = []" by (auto simp: filter_empty_conv)
    moreover have "map (\<lambda>f. get_cmd (f_name f)) (files s') = map get_cmd (take MAXFILES names)"
      unfolding s'(3) [symmetric] by simp
    ultimately show ?thesis using inv by (simp add: web_core_def counters_ok_def those_def how_many_def)
  qed
  with s' inv show ?thesis
    by (auto simp: web_core_def writes_ok_def counters_ok_def those_def)
qed

definition one_file :: web_env where
  "one_file = \<lparr>starts = (\<lambda>_. Connect 5 (Some EINPROGRESS)), rs = {}, ws = {5}, so_error = (\<lambda>_. False),
     read_ans = (\<lambda>_. RdOk []), can_write = (\<lambda>_. True)\<rparr>"

theorem web_iteration_keeps_count_witness:
  "\<exists>s'. web_iter unp_web 3 one_file (web_init ''h'' [''/x'']) = Val (Ret s') \<and>
     nconn s' = int (how_many active (files s')) \<and> nconn s' \<le> 3"
proof -
  have "fits unp_web [''/x'']" by (simp add: fits_def unp_web_def get_cmd_def)
  moreover have "quiet_env one_file" by (simp add: quiet_env_def one_file_def)
  moreover have "starts_ok unp_web one_file 0 (web_init ''h'' [''/x''])"
    by (auto simp: starts_ok_def start_ok_def web_init_def one_file_def)
  ultimately show ?thesis using web_iteration_keeps_count [OF web_start, of unp_web "[''/x'']" one_file "''h''" 3] by auto
qed

text \<open>
  While there are files to read, \<^verbatim>\<open>select\<close> has a descriptor to wait for, unless the limit given on the command line is not
  positive: then both programs wait for nothing, forever.
\<close>

theorem web_select_waits_for_something:
  assumes reach: "web_reach cfg maxnconn hostname names s" and fits: "fits cfg names"
    and "starts_ok cfg env 0 s" and "0 < nlefttoread s" and "start_all cfg maxnconn env 0 s = Val (Ret s1)"
  shows "rset s1 = {} \<longleftrightarrow> maxnconn \<le> 0"
proof -
  from start_all_ok [of cfg maxnconn s env 0] web_reach_ok [OF reach fits] assms(3,5)
  have ok: "web_ok cfg maxnconn s1" "nconn s1 \<ge> maxnconn \<or> nlefttoconn s1 = 0" "nlefttoread s1 = nlefttoread s" by auto
  then have inv: "web_core s1" "counters_ok s1" "nconn s1 \<le> max maxnconn 0" by (auto simp: web_ok_def web_sets_def)
  have "rset s1 = set_mset (those active f_fd (files s1))" "nconn s1 = int (how_many active (files s1))"
    using inv(1,2) by (simp_all add: web_core_def counters_ok_def)
  then have empty: "rset s1 = {} \<longleftrightarrow> nconn s1 = 0" by (auto simp: those_def how_many_def filter_empty_conv)
  have "nconn s1 \<noteq> 0" if "nlefttoconn s1 = 0"
  proof -
    from assms(4) ok(3) have "0 < how_many (\<lambda>f. f_flags f \<noteq> F_DONE) (files s1)" using inv(2) by (simp add: counters_ok_def)
    then obtain f where f: "f \<in> set (files s1)" "f_flags f \<noteq> F_DONE" unfolding how_many_pos by (meson nth_mem)
    moreover have "f_flags f \<noteq> 0" using that f inv(2) by (auto simp: counters_ok_def how_many_def filter_empty_conv)
    ultimately have "active f" using inv(1) by (auto simp: web_core_def list_all_iff)
    with f inv(2) show ?thesis by (auto simp: counters_ok_def how_many_def filter_empty_conv)
  qed
  with ok(2) inv(2,3) empty show ?thesis by (auto simp: counters_ok_def)
qed

theorem web_select_waits_for_something_witness:
  "\<exists>s1. start_all own_web 0 one_file 0 (web_init ''h'' [''/x'']) = Val (Ret s1) \<and> rset s1 = {}"
proof -
  let ?s = "web_init ''h'' [''/x'']"
  have run: "start_all own_web 0 one_file 0 ?s = Val (Ret ?s)" by (simp add: start_all.simps web_init_def)
  have "fits own_web [''/x'']" by (simp add: fits_def own_web_def get_cmd_def)
  moreover have "starts_ok own_web one_file 0 ?s" by (auto simp: starts_ok_def start_ok_def web_init_def one_file_def)
  moreover have "0 < nlefttoread ?s" by (simp add: web_init_def)
  ultimately have "rset ?s = {}"
    using web_select_waits_for_something [OF web_start, of own_web "[''/x'']" one_file "''h''" 0 ?s] run by simp
  with run show ?thesis by blast
qed

text \<open>A file name of about the size of the buffer makes the client send memory from behind it.\<close>

lemma write_get_cmd_overrun:
  "maxline cfg \<le> length (f_name (files s ! i)) + 17 \<Longrightarrow> write_get_cmd cfg env i s = UB"
  by (simp add: write_get_cmd_def get_cmd_def)

end
