(* ===== verification/Web_Thread.thy ===== *)
theory Web_Thread
  imports CPrelude
begin

unbundle bit_operations_syntax

text \<open>
  The web client with one thread per connection: \<^verbatim>\<open>unpv13e/threads/web03.c\<close> and \<^verbatim>\<open>socket/web_thread.c\<close>, whose main thread
  and \<^verbatim>\<open>do_get_read\<close> are the same up to messages. The state has the flags of the files, the counters, the mutex and its
  holder, and where the main thread and each worker are. A step is one action of one thread: \<open>main_step\<close> and
  \<open>worker_step\<close> are \<open>None\<close> when the thread is blocked or has ended. Waiting on the condition variable ends by a signal,
  or spuriously. Calls do not fail; whether a \<^verbatim>\<open>read\<close> finds the end of the file is an argument.
\<close>

section \<open>State\<close>

abbreviation (input) F_CONNECTING :: int where "F_CONNECTING \<equiv> 1"
abbreviation (input) F_READING :: int where "F_READING \<equiv> 2"
abbreviation (input) F_DONE :: int where "F_DONE \<equiv> 4"
abbreviation (input) F_JOINED :: int where "F_JOINED \<equiv> 8"

text \<open>Where a worker is: what it does next.\<close>

datatype worker_pc =
    NotCreated | AtConnect | AtRequest | AtRead | AtMarkDone | AtLock | AtCount | AtSignal | AtUnlock | Exited

text \<open>Where the main thread is: in the outer loop, at the lock, at the test of \<^verbatim>\<open>ndone\<close>, waiting, about to get the mutex
  again, at file \<open>i\<close> of the scan, joining the thread of file \<open>i\<close>, at the unlock; ended, or ended by the error exit.\<close>

datatype main_pc =
    MCreate | MLock | MTest | MWait | MRelock | MScan nat | MJoin nat | MUnlock | MEnd | MFail

datatype actor = Main | Worker nat

record wt =
  flags :: "int list"
  pcs :: "worker_pc list"
  mpc :: main_pc
  mutex :: "actor option"
  ndone :: int
  nconn :: int
  nlefttoconn :: int
  nlefttoread :: int

definition wt_init :: "nat \<Rightarrow> wt" where
  "wt_init nfiles = \<lparr>flags = replicate nfiles 0, pcs = replicate nfiles NotCreated, mpc = MCreate, mutex = None,
     ndone = 0, nconn = 0, nlefttoconn = int nfiles, nlefttoread = int nfiles\<rparr>"

section \<open>Steps\<close>

fun first_new :: "int list \<Rightarrow> nat" where
  "first_new [] = 0"
| "first_new (f # fs) = (if f = 0 then 0 else Suc (first_new fs))"

definition create_thread :: "wt \<Rightarrow> wt" where
  "create_thread s =
     (let i = first_new (flags s) in
      if i = length (flags s) then s\<lparr>mpc := MFail\<rparr>
      else s\<lparr>flags := (flags s)[i := F_CONNECTING], pcs := (pcs s)[i := AtConnect],
             nconn := nconn s + 1, nlefttoconn := nlefttoconn s - 1\<rparr>)"

definition main_step :: "int \<Rightarrow> wt \<Rightarrow> wt option" where
  "main_step maxnconn s =
     (case mpc s of
        MCreate \<Rightarrow>
          Some (if nlefttoread s > 0 then
                  if nconn s < maxnconn \<and> nlefttoconn s > 0 then create_thread s else s\<lparr>mpc := MLock\<rparr>
                else s\<lparr>mpc := MEnd\<rparr>)
      | MLock \<Rightarrow> if mutex s = None then Some (s\<lparr>mutex := Some Main, mpc := MTest\<rparr>) else None
      | MTest \<Rightarrow> Some (if ndone s = 0 then s\<lparr>mutex := None, mpc := MWait\<rparr> else s\<lparr>mpc := MScan 0\<rparr>)
      | MWait \<Rightarrow> None
      | MRelock \<Rightarrow> if mutex s = None then Some (s\<lparr>mutex := Some Main, mpc := MTest\<rparr>) else None
      | MScan i \<Rightarrow>
          Some (if i < length (flags s) then
                  if flags s ! i AND F_DONE \<noteq> 0 then s\<lparr>mpc := MJoin i\<rparr> else s\<lparr>mpc := MScan (i + 1)\<rparr>
                else s\<lparr>mpc := MUnlock\<rparr>)
      | MJoin i \<Rightarrow>
          if pcs s ! i = Exited then
            Some (s\<lparr>flags := (flags s)[i := F_JOINED], ndone := ndone s - 1, nconn := nconn s - 1,
                    nlefttoread := nlefttoread s - 1, mpc := MScan (i + 1)\<rparr>)
          else None
      | MUnlock \<Rightarrow> Some (s\<lparr>mutex := None, mpc := MCreate\<rparr>)
      | MEnd \<Rightarrow> None
      | MFail \<Rightarrow> None)"

definition go :: "nat \<Rightarrow> worker_pc \<Rightarrow> wt \<Rightarrow> wt" where
  "go i pc s = s\<lparr>pcs := (pcs s)[i := pc]\<rparr>"

definition worker_step :: "bool \<Rightarrow> nat \<Rightarrow> wt \<Rightarrow> wt option" where
  "worker_step eof i s =
     (if i \<ge> length (pcs s) then None
      else case pcs s ! i of
        NotCreated \<Rightarrow> None
      | AtConnect \<Rightarrow> Some (go i AtRequest s)
      | AtRequest \<Rightarrow> Some (go i AtRead (s\<lparr>flags := (flags s)[i := F_READING]\<rparr>))
      | AtRead \<Rightarrow> Some (if eof then go i AtMarkDone s else s)
      | AtMarkDone \<Rightarrow> Some (go i AtLock (s\<lparr>flags := (flags s)[i := F_DONE]\<rparr>))
      | AtLock \<Rightarrow> if mutex s = None then Some ((go i AtCount s)\<lparr>mutex := Some (Worker i)\<rparr>) else None
      | AtCount \<Rightarrow> Some ((go i AtSignal s)\<lparr>ndone := ndone s + 1\<rparr>)
      | AtSignal \<Rightarrow> Some ((go i AtUnlock s)\<lparr>mpc := if mpc s = MWait then MRelock else mpc s\<rparr>)
      | AtUnlock \<Rightarrow> Some ((go i Exited s)\<lparr>mutex := None\<rparr>)
      | Exited \<Rightarrow> None)"

text \<open>The two threads of \<^verbatim>\<open>socket/web_thread.c\<close>.\<close>

definition own_main_step :: "int \<Rightarrow> wt \<Rightarrow> wt option" where
  "own_main_step = main_step"

definition own_worker_step :: "bool \<Rightarrow> nat \<Rightarrow> wt \<Rightarrow> wt option" where
  "own_worker_step = worker_step"

inductive wt_step :: "int \<Rightarrow> wt \<Rightarrow> wt \<Rightarrow> bool" for maxnconn where
  main_moves: "main_step maxnconn s = Some s' \<Longrightarrow> wt_step maxnconn s s'"
| worker_moves: "worker_step eof i s = Some s' \<Longrightarrow> wt_step maxnconn s s'"
| spurious_wakeup: "mpc s = MWait \<Longrightarrow> wt_step maxnconn s (s\<lparr>mpc := MRelock\<rparr>)"

inductive wt_reach :: "int \<Rightarrow> nat \<Rightarrow> wt \<Rightarrow> bool" for maxnconn nfiles where
  wt_begin: "wt_reach maxnconn nfiles (wt_init nfiles)"
| wt_more: "wt_reach maxnconn nfiles s \<Longrightarrow> wt_step maxnconn s s' \<Longrightarrow> wt_reach maxnconn nfiles s'"

text \<open>No thread can move, not counting spurious wake-ups.\<close>

definition stuck :: "int \<Rightarrow> wt \<Rightarrow> bool" where
  "stuck maxnconn s \<longleftrightarrow> main_step maxnconn s = None \<and>
     list_all (\<lambda>i. worker_step True i s = None \<and> worker_step False i s = None) [0..<length (pcs s)]"

section \<open>The invariant\<close>

text \<open>The flags of a file and the place of its worker belong together.\<close>

fun agree :: "int \<Rightarrow> worker_pc \<Rightarrow> bool" where
  "agree f NotCreated \<longleftrightarrow> f = 0"
| "agree f AtConnect \<longleftrightarrow> f = F_CONNECTING"
| "agree f AtRequest \<longleftrightarrow> f = F_CONNECTING"
| "agree f AtRead \<longleftrightarrow> f = F_READING"
| "agree f AtMarkDone \<longleftrightarrow> f = F_READING"
| "agree f Exited \<longleftrightarrow> f = F_DONE \<or> f = F_JOINED"
| "agree f _ \<longleftrightarrow> f = F_DONE"

fun has_mutex :: "worker_pc \<Rightarrow> bool" where
  "has_mutex AtCount = True"
| "has_mutex AtSignal = True"
| "has_mutex AtUnlock = True"
| "has_mutex _ = False"

fun main_has_mutex :: "main_pc \<Rightarrow> bool" where
  "main_has_mutex MTest = True"
| "main_has_mutex (MScan _) = True"
| "main_has_mutex (MJoin _) = True"
| "main_has_mutex MUnlock = True"
| "main_has_mutex _ = False"

text \<open>A worker that has counted itself and is not yet joined.\<close>

fun counted :: "int \<times> worker_pc \<Rightarrow> bool" where
  "counted (f, pc) \<longleftrightarrow> f = F_DONE \<and> (pc = AtSignal \<or> pc = AtUnlock \<or> pc = Exited)"

definition at_scan :: "wt \<Rightarrow> bool" where
  "at_scan s = (case mpc s of
      MJoin i \<Rightarrow> i < length (flags s) \<and> flags s ! i = F_DONE
    | MFail \<Rightarrow> False
    | _ \<Rightarrow> True)"

definition wt_inv :: "int \<Rightarrow> wt \<Rightarrow> bool" where
  "wt_inv m s \<longleftrightarrow>
     length (pcs s) = length (flags s) \<and>
     (\<forall>i < length (flags s). agree (flags s ! i) (pcs s ! i)) \<and>
     (\<forall>i < length (flags s). has_mutex (pcs s ! i) \<longleftrightarrow> mutex s = Some (Worker i)) \<and>
     (main_has_mutex (mpc s) \<longleftrightarrow> mutex s = Some Main) \<and>
     (\<forall>i. mutex s = Some (Worker i) \<longrightarrow> i < length (flags s)) \<and>
     ndone s = int (how_many counted (zip (flags s) (pcs s))) \<and>
     nconn s = int (how_many (\<lambda>f. f \<noteq> 0 \<and> f \<noteq> F_JOINED) (flags s)) \<and> nconn s \<le> max m 0 \<and>
     nlefttoconn s = int (how_many (\<lambda>f. f = 0) (flags s)) \<and>
     nlefttoread s = int (how_many (\<lambda>f. f \<noteq> F_JOINED) (flags s)) \<and>
     at_scan s \<and>
     (mpc s = MWait \<longrightarrow> ndone s = 0 \<or> (\<exists>i < length (pcs s). pcs s ! i = AtSignal)) \<and>
     (mpc s = MEnd \<longrightarrow> nlefttoread s = 0) \<and>
     (mpc s \<in> {MLock, MTest, MWait, MRelock} \<longrightarrow> nlefttoread s > 0 \<and> (nconn s \<ge> m \<or> nlefttoconn s = 0))"


lemma wt_inv_init: "wt_inv m (wt_init n)"
proof -
  have "how_many P (replicate n x) = (if P x then n else 0)" for P :: "int \<Rightarrow> bool" and x by (induction n) auto
  moreover have "how_many counted (zip (replicate n 0) (replicate n NotCreated)) = 0" by (induction n) auto
  ultimately show ?thesis by (simp add: wt_inv_def wt_init_def at_scan_def)
qed

lemma agree_cases:
  assumes "agree f pc"
  shows "f \<in> {0, 1, 2, 4, 8}"
  using assms by (cases pc) auto

lemma first_new: "first_new fs \<le> length fs" "first_new fs < length fs \<Longrightarrow> fs ! first_new fs = 0"
  by (induction fs) auto

lemma first_new_less: "how_many (\<lambda>f. f = 0) fs > 0 \<Longrightarrow> first_new fs < length fs"
  by (induction fs) (auto split: if_splits)

lemma file_update:
  assumes "length ps = length fs" "i < length fs"
  shows "how_many P (fs[i := f]) + (if P (fs ! i) then 1 else 0) = how_many P fs + (if P f then 1 else 0)"
    and "how_many Q (zip (fs[i := f]) (ps[i := p])) + (if Q (fs ! i, ps ! i) then 1 else 0) =
         how_many Q (zip fs ps) + (if Q (f, p) then 1 else 0)"
    and "how_many Q (zip fs (ps[i := p])) + (if Q (fs ! i, ps ! i) then 1 else 0) =
         how_many Q (zip fs ps) + (if Q (fs ! i, p) then 1 else 0)"
    and "how_many Q (zip (fs[i := f]) ps) + (if Q (fs ! i, ps ! i) then 1 else 0) =
         how_many Q (zip fs ps) + (if Q (f, ps ! i) then 1 else 0)"
proof -
  show "how_many P (fs[i := f]) + (if P (fs ! i) then 1 else 0) = how_many P fs + (if P f then 1 else 0)"
    using assms by (simp add: how_many_update)
  have *: "how_many Q (zip (fs[i := f]) (ps[i := p])) + (if Q (fs ! i, ps ! i) then 1 else 0) =
      how_many Q (zip fs ps) + (if Q (f, p) then 1 else 0)" for f p
    using how_many_update [of i "zip fs ps" Q "(f, p)"] assms by (simp add: update_zip)
  show "how_many Q (zip (fs[i := f]) (ps[i := p])) + (if Q (fs ! i, ps ! i) then 1 else 0) =
      how_many Q (zip fs ps) + (if Q (f, p) then 1 else 0)" by (rule *)
  show "how_many Q (zip fs (ps[i := p])) + (if Q (fs ! i, ps ! i) then 1 else 0) =
      how_many Q (zip fs ps) + (if Q (fs ! i, p) then 1 else 0)" using * [of "fs ! i" p] by simp
  show "how_many Q (zip (fs[i := f]) ps) + (if Q (fs ! i, ps ! i) then 1 else 0) =
      how_many Q (zip fs ps) + (if Q (f, ps ! i) then 1 else 0)" using * [of f "ps ! i"] by simp
qed

lemma wt_invD:
  assumes "wt_inv m s"
  shows wt_length: "length (pcs s) = length (flags s)"
    and wt_agree: "i < length (flags s) \<Longrightarrow> agree (flags s ! i) (pcs s ! i)"
    and wt_has_mutex: "i < length (flags s) \<Longrightarrow> has_mutex (pcs s ! i) \<longleftrightarrow> mutex s = Some (Worker i)"
    and wt_main_mutex: "main_has_mutex (mpc s) \<longleftrightarrow> mutex s = Some Main"
    and wt_worker_mutex: "mutex s = Some (Worker i) \<Longrightarrow> i < length (flags s)"
    and wt_ndone: "ndone s = int (how_many counted (zip (flags s) (pcs s)))"
    and wt_nconn: "nconn s = int (how_many (\<lambda>f. f \<noteq> 0 \<and> f \<noteq> F_JOINED) (flags s))"
    and wt_nconn_le: "nconn s \<le> max m 0"
    and wt_nlefttoconn: "nlefttoconn s = int (how_many (\<lambda>f. f = 0) (flags s))"
    and wt_nlefttoread: "nlefttoread s = int (how_many (\<lambda>f. f \<noteq> F_JOINED) (flags s))"
    and wt_at_scan: "at_scan s"
    and wt_waiting: "mpc s = MWait \<Longrightarrow> ndone s = 0 \<or> (\<exists>i < length (pcs s). pcs s ! i = AtSignal)"
    and wt_ended: "mpc s = MEnd \<Longrightarrow> nlefttoread s = 0"
    and wt_some_conn: "mpc s \<in> {MLock, MTest, MWait, MRelock} \<Longrightarrow>
      nlefttoread s > 0 \<and> (nconn s \<ge> m \<or> nlefttoconn s = 0)"
  using assms unfolding wt_inv_def by blast+

lemma wt_invI:
  assumes "length (pcs s) = length (flags s)"
    and "\<And>i. i < length (flags s) \<Longrightarrow> agree (flags s ! i) (pcs s ! i)"
    and "\<And>i. i < length (flags s) \<Longrightarrow> has_mutex (pcs s ! i) \<longleftrightarrow> mutex s = Some (Worker i)"
    and "main_has_mutex (mpc s) \<longleftrightarrow> mutex s = Some Main"
    and "\<And>i. mutex s = Some (Worker i) \<Longrightarrow> i < length (flags s)"
    and "ndone s = int (how_many counted (zip (flags s) (pcs s)))"
    and "nconn s = int (how_many (\<lambda>f. f \<noteq> 0 \<and> f \<noteq> F_JOINED) (flags s))" "nconn s \<le> max m 0"
    and "nlefttoconn s = int (how_many (\<lambda>f. f = 0) (flags s))"
    and "nlefttoread s = int (how_many (\<lambda>f. f \<noteq> F_JOINED) (flags s))"
    and "at_scan s"
    and "mpc s = MWait \<Longrightarrow> ndone s = 0 \<or> (\<exists>i < length (pcs s). pcs s ! i = AtSignal)"
    and "mpc s = MEnd \<Longrightarrow> nlefttoread s = 0"
    and "mpc s \<in> {MLock, MTest, MWait, MRelock} \<Longrightarrow> nlefttoread s > 0 \<and> (nconn s \<ge> m \<or> nlefttoconn s = 0)"
  shows "wt_inv m s"
  unfolding wt_inv_def using assms by blast

text \<open>A worker that moves keeps its file among the started ones; what it does to the mutex and \<^verbatim>\<open>ndone\<close> must fit its new place.\<close>

lemma wt_inv_worker:
  assumes inv: "wt_inv m s" and i: "i < length (flags s)"
    and old: "flags s ! i \<noteq> 0" "flags s ! i \<noteq> F_JOINED" and f: "f \<noteq> 0" "f \<noteq> F_JOINED" "agree f p"
    and ndone: "nd + (if counted (flags s ! i, pcs s ! i) then 1 else 0) = ndone s + (if counted (f, p) then 1 else 0)"
    and mutex: "mx = (if has_mutex p then Some (Worker i) else if has_mutex (pcs s ! i) then None else mutex s)"
      "has_mutex p \<Longrightarrow> mutex s = None \<or> has_mutex (pcs s ! i)"
    and mp: "mp = mpc s \<or> mpc s = MWait \<and> mp = MRelock"
    and still: "flags s ! i = F_DONE \<Longrightarrow> f = F_DONE"
    and wait: "mp = MWait \<Longrightarrow> nd = 0 \<or> p = AtSignal \<or> pcs s ! i \<noteq> AtSignal \<and> nd = ndone s"
  shows "wt_inv m (s\<lparr>flags := (flags s)[i := f], pcs := (pcs s)[i := p], mutex := mx, ndone := nd, mpc := mp\<rparr>)"
    (is "wt_inv m ?s")
proof (rule wt_invI)
  note len = wt_length [OF inv]
  note upd = file_update [OF len i]
  have hm: "has_mutex (pcs s ! i) \<longleftrightarrow> mutex s = Some (Worker i)" using wt_has_mutex [OF inv i] .
  have mm: "main_has_mutex (mpc s) \<longleftrightarrow> mutex s = Some Main" using wt_main_mutex [OF inv] .
  show "length (pcs ?s) = length (flags ?s)" using len by simp
  show "agree (flags ?s ! j) (pcs ?s ! j)" if "j < length (flags ?s)" for j
    using that f(3) len wt_agree [OF inv, of j] by (simp add: nth_update_cases)
  show "has_mutex (pcs ?s ! j) \<longleftrightarrow> mutex ?s = Some (Worker j)" if "j < length (flags ?s)" for j
  proof -
    have "has_mutex (pcs s ! j) \<longleftrightarrow> mutex s = Some (Worker j)" using that wt_has_mutex [OF inv, of j] by simp
    then show ?thesis using that len mutex hm by (auto simp: nth_update_cases)
  qed
  show "main_has_mutex (mpc ?s) \<longleftrightarrow> mutex ?s = Some Main" using hm mm mutex mp by auto
  show "j < length (flags ?s)" if "mutex ?s = Some (Worker j)" for j
    using that mutex(1) i wt_worker_mutex [OF inv, of j] by (simp split: if_splits)
  show "ndone ?s = int (how_many counted (zip (flags ?s) (pcs ?s)))"
    using ndone upd(2) [of counted f p] wt_ndone [OF inv] by (simp split: if_splits)
  show "nconn ?s = int (how_many (\<lambda>f. f \<noteq> 0 \<and> f \<noteq> F_JOINED) (flags ?s))"
    using upd(1) [of "\<lambda>f. f \<noteq> 0 \<and> f \<noteq> F_JOINED" f] wt_nconn [OF inv] old f(1,2) by simp
  show "nlefttoconn ?s = int (how_many (\<lambda>f. f = 0) (flags ?s))"
    using upd(1) [of "\<lambda>f. f = 0" f] wt_nlefttoconn [OF inv] old f(1) by simp
  show "nlefttoread ?s = int (how_many (\<lambda>f. f \<noteq> F_JOINED) (flags ?s))"
    using upd(1) [of "\<lambda>f. f \<noteq> F_JOINED" f] wt_nlefttoread [OF inv] old f(2) by simp
  show "nconn ?s \<le> max m 0" using wt_nconn_le [OF inv] by simp
  show "at_scan ?s"
    using wt_at_scan [OF inv] mp still by (auto simp: at_scan_def nth_update_cases split: main_pc.splits)
  show "ndone ?s = 0 \<or> (\<exists>j < length (pcs ?s). pcs ?s ! j = AtSignal)" if w: "mpc ?s = MWait"
  proof -
    have "mpc s = MWait" using mp w by auto
    then consider "ndone s = 0" | j where "j < length (pcs s)" "pcs s ! j = AtSignal" using wt_waiting [OF inv] by blast
    then show ?thesis using wait w i len by cases (auto simp: nth_list_update)
  qed
  show "nlefttoread ?s = 0" if "mpc ?s = MEnd" using that mp wt_ended [OF inv] by simp
  show "nlefttoread ?s > 0 \<and> (nconn ?s \<ge> m \<or> nlefttoconn ?s = 0)" if "mpc ?s \<in> {MLock, MTest, MWait, MRelock}"
    using that mp wt_some_conn [OF inv] by auto
qed

lemma same_element: "xs ! i = x \<Longrightarrow> xs[i := x] = xs"
  by auto

lemma same_mutex: "mutex s = x \<Longrightarrow> s\<lparr>mutex := x\<rparr> = s"
  by auto

lemma wt_inv_worker_step:
  assumes inv: "wt_inv m s" and step: "worker_step eof i s = Some s'"
  shows "wt_inv m s'"
proof -
  have i: "i < length (flags s)" using step wt_length [OF inv] by (simp add: worker_step_def split: if_splits)
  note rule = wt_inv_worker [OF inv i]
  note agree = wt_agree [OF inv i]
  note mutex = wt_has_mutex [OF inv i]
  have i': "\<not> length (pcs s) \<le> i" using i wt_length [OF inv] by simp
  show ?thesis
  proof (cases "pcs s ! i")
    case AtConnect
    then show ?thesis using step i' agree rule [of "flags s ! i" AtRequest "ndone s" "mutex s" "mpc s"]
      by (auto simp: worker_step_def go_def same_element same_mutex)
  next
    case AtRequest
    then show ?thesis using step i' agree rule [of F_READING AtRead "ndone s" "mutex s" "mpc s"]
      by (auto simp: worker_step_def go_def same_element same_mutex)
  next
    case AtRead
    then show ?thesis using step inv i' agree rule [of "flags s ! i" AtMarkDone "ndone s" "mutex s" "mpc s"]
      by (auto simp: worker_step_def go_def same_element same_mutex split: if_splits)
  next
    case AtMarkDone
    then show ?thesis using step i' agree rule [of F_DONE AtLock "ndone s" "mutex s" "mpc s"]
      by (auto simp: worker_step_def go_def same_element same_mutex)
  next
    case AtLock
    then show ?thesis using step i' agree rule [of "flags s ! i" AtCount "ndone s" "Some (Worker i)" "mpc s"]
      by (auto simp: worker_step_def go_def same_element same_mutex split: if_splits)
  next
    case AtCount
    then show ?thesis using step i' agree mutex rule [of "flags s ! i" AtSignal "ndone s + 1" "mutex s" "mpc s"]
      by (auto simp: worker_step_def go_def same_element same_mutex)
  next
    case AtSignal
    then show ?thesis using step i' agree mutex
        rule [of "flags s ! i" AtUnlock "ndone s" "mutex s" "if mpc s = MWait then MRelock else mpc s"]
      by (auto simp: worker_step_def go_def same_element same_mutex split: if_splits)
  next
    case AtUnlock
    then show ?thesis using step i' agree mutex rule [of "flags s ! i" Exited "ndone s" None "mpc s"]
      by (auto simp: worker_step_def go_def same_element same_mutex)
  qed (use step i' in \<open>simp_all add: worker_step_def\<close>)
qed

text \<open>The main thread moves without touching a file: only the mutex and its place change.\<close>

lemma wt_inv_main:
  assumes inv: "wt_inv m s"
    and mx: "mx = mutex s \<or> mutex s \<in> {None, Some Main} \<and> mx \<in> {None, Some Main}"
    and mp: "main_has_mutex mp \<longleftrightarrow> mx = Some Main" "at_scan (s\<lparr>mpc := mp\<rparr>)"
    and rest: "mp = MWait \<Longrightarrow> ndone s = 0" "mp = MEnd \<Longrightarrow> nlefttoread s = 0"
      "mp \<in> {MLock, MTest, MWait, MRelock} \<Longrightarrow> nlefttoread s > 0 \<and> (nconn s \<ge> m \<or> nlefttoconn s = 0)"
  shows "wt_inv m (s\<lparr>mutex := mx, mpc := mp\<rparr>)" (is "wt_inv m ?s")
proof (rule wt_invI)
  show "has_mutex (pcs ?s ! i) \<longleftrightarrow> mutex ?s = Some (Worker i)" if "i < length (flags ?s)" for i
    using that mx wt_has_mutex [OF inv, of i] by auto
  show "i < length (flags ?s)" if "mutex ?s = Some (Worker i)" for i
    using that mx wt_worker_mutex [OF inv, of i] by auto
  show "at_scan ?s" using mp(2) by (simp add: at_scan_def split: main_pc.splits)
qed (use mp(1) rest wt_invD [OF inv] in simp_all)

lemma wt_inv_create:
  assumes inv: "wt_inv m s" and at: "mpc s = MCreate" "nconn s < m" "nlefttoconn s > 0"
  shows "wt_inv m (create_thread s)"
proof -
  define i where "i = first_new (flags s)"
  have i: "i < length (flags s)" using at(3) wt_nlefttoconn [OF inv] first_new_less unfolding i_def by simp
  then have f0: "flags s ! i = 0" unfolding i_def by (rule first_new(2))
  then have p0: "pcs s ! i = NotCreated" using wt_agree [OF inv i] by (cases "pcs s ! i") auto
  note len = wt_length [OF inv]
  note upd = file_update [OF len i]
  have main: "mutex s \<noteq> Some Main" using wt_main_mutex [OF inv] at(1) by simp
  have none: "mutex s \<noteq> Some (Worker i)" using wt_has_mutex [OF inv i] p0 by simp
  have eq: "create_thread s = s\<lparr>flags := (flags s)[i := F_CONNECTING], pcs := (pcs s)[i := AtConnect],
      nconn := nconn s + 1, nlefttoconn := nlefttoconn s - 1\<rparr>" (is "_ = ?s")
    using i by (simp add: create_thread_def Let_def flip: i_def)
  show ?thesis unfolding eq
  proof (rule wt_invI)
    show "length (pcs ?s) = length (flags ?s)" using len by simp
    show "agree (flags ?s ! j) (pcs ?s ! j)" if "j < length (flags ?s)" for j
      using that len wt_agree [OF inv, of j] by (simp add: nth_update_cases)
    show "has_mutex (pcs ?s ! j) \<longleftrightarrow> mutex ?s = Some (Worker j)" if "j < length (flags ?s)" for j
      using that len none wt_has_mutex [OF inv, of j] by (auto simp: nth_update_cases)
    show "j < length (flags ?s)" if "mutex ?s = Some (Worker j)" for j
      using that wt_worker_mutex [OF inv, of j] by simp
    show "ndone ?s = int (how_many counted (zip (flags ?s) (pcs ?s)))"
      using upd(2) [of counted F_CONNECTING AtConnect] wt_ndone [OF inv] f0 by simp
    show "nconn ?s = int (how_many (\<lambda>f. f \<noteq> 0 \<and> f \<noteq> F_JOINED) (flags ?s))"
      using upd(1) [of "\<lambda>f. f \<noteq> 0 \<and> f \<noteq> F_JOINED" 1] wt_nconn [OF inv] f0 by simp
    show "nlefttoconn ?s = int (how_many (\<lambda>f. f = 0) (flags ?s))"
      using upd(1) [of "\<lambda>f. f = 0" 1] wt_nlefttoconn [OF inv] f0 by simp
    show "nlefttoread ?s = int (how_many (\<lambda>f. f \<noteq> F_JOINED) (flags ?s))"
      using upd(1) [of "\<lambda>f. f \<noteq> F_JOINED" 1] wt_nlefttoread [OF inv] f0 by simp
  qed (use main at in \<open>simp_all add: at_scan_def\<close>)
qed

lemma wt_inv_join:
  assumes inv: "wt_inv m s" and at: "mpc s = MJoin i" "pcs s ! i = Exited"
  shows "wt_inv m (s\<lparr>flags := (flags s)[i := F_JOINED], ndone := ndone s - 1, nconn := nconn s - 1,
                    nlefttoread := nlefttoread s - 1, mpc := MScan (i + 1)\<rparr>)" (is "wt_inv m ?s")
proof (rule wt_invI)
  have i: "i < length (flags s)" and f: "flags s ! i = F_DONE" using wt_at_scan [OF inv] at(1) by (simp_all add: at_scan_def)
  note len = wt_length [OF inv]
  note upd = file_update [OF len i]
  show "length (pcs ?s) = length (flags ?s)" using len by simp
  show "agree (flags ?s ! j) (pcs ?s ! j)" if "j < length (flags ?s)" for j
    using that at(2) wt_agree [OF inv, of j] by (auto simp add: nth_update_cases)
  show "has_mutex (pcs ?s ! j) \<longleftrightarrow> mutex ?s = Some (Worker j)" if "j < length (flags ?s)" for j
    using that wt_has_mutex [OF inv, of j] by simp
  show "j < length (flags ?s)" if "mutex ?s = Some (Worker j)" for j
    using that wt_worker_mutex [OF inv, of j] by simp
  show "ndone ?s = int (how_many counted (zip (flags ?s) (pcs ?s)))"
    using upd(4) [of counted F_JOINED] wt_ndone [OF inv] f at(2) by simp
  show "nconn ?s = int (how_many (\<lambda>f. f \<noteq> 0 \<and> f \<noteq> F_JOINED) (flags ?s))"
    using upd(1) [of "\<lambda>f. f \<noteq> 0 \<and> f \<noteq> F_JOINED" F_JOINED] wt_nconn [OF inv] f by simp
  show "nlefttoconn ?s = int (how_many (\<lambda>f. f = 0) (flags ?s))"
    using upd(1) [of "\<lambda>f. f = 0" F_JOINED] wt_nlefttoconn [OF inv] f by simp
  show "nlefttoread ?s = int (how_many (\<lambda>f. f \<noteq> F_JOINED) (flags ?s))"
    using upd(1) [of "\<lambda>f. f \<noteq> F_JOINED" F_JOINED] wt_nlefttoread [OF inv] f by simp
qed (use at wt_main_mutex [OF inv] wt_nconn_le [OF inv] in \<open>simp_all add: at_scan_def\<close>)

lemma wt_inv_main_step:
  assumes inv: "wt_inv m s" and step: "main_step m s = Some s'"
  shows "wt_inv m s'"
proof -
  note rule = wt_inv_main [OF inv]
  note mutex = wt_main_mutex [OF inv]
  note conn = wt_some_conn [OF inv]
  show ?thesis
  proof (cases "mpc s")
    case MCreate
    then show ?thesis using step mutex wt_nlefttoread [OF inv] wt_nlefttoconn [OF inv] wt_inv_create [OF inv]
        rule [of "mutex s" MLock] rule [of "mutex s" MEnd]
      by (auto simp: main_step_def at_scan_def split: if_splits)
  next
    case MLock
    then show ?thesis using step mutex conn rule [of "Some Main" MTest]
      by (auto simp: main_step_def at_scan_def split: if_splits)
  next
    case MTest
    then show ?thesis using step mutex conn rule [of None MWait] rule [of "mutex s" "MScan 0"]
      by (auto simp: main_step_def at_scan_def same_mutex split: if_splits)
  next
    case MRelock
    then show ?thesis using step mutex conn rule [of "Some Main" MTest]
      by (auto simp: main_step_def at_scan_def split: if_splits)
  next
    case (MScan i)
    have "flags s ! i AND F_DONE \<noteq> 0 \<Longrightarrow> flags s ! i = F_DONE" if "i < length (flags s)"
      using agree_cases [OF wt_agree [OF inv that]] by auto
    with MScan show ?thesis
      using step mutex rule [of "mutex s" "MJoin i"] rule [of "mutex s" "MScan (i + 1)"] rule [of "mutex s" MUnlock]
      by (auto simp: main_step_def at_scan_def same_mutex split: if_splits)
  next
    case (MJoin i)
    then show ?thesis using step wt_inv_join [OF inv MJoin] by (simp add: main_step_def split: if_splits)
  next
    case MUnlock
    then show ?thesis using step mutex rule [of None MCreate] by (auto simp: main_step_def at_scan_def)
  qed (use step in \<open>simp_all add: main_step_def\<close>)
qed

lemma wt_inv_reach: "wt_reach m n s \<Longrightarrow> wt_inv m s \<and> length (flags s) = n"
proof (induction rule: wt_reach.induct)
  case wt_begin
  show ?case using wt_inv_init [of m n] by (simp add: wt_init_def)
next
  case (wt_more s s')
  from wt_more(2,3) have "length (flags s') = n"
    by (auto elim!: wt_step.cases simp: main_step_def worker_step_def go_def create_thread_def Let_def
        split: main_pc.splits worker_pc.splits if_splits)
  moreover have "wt_inv m s'" using wt_more(2)
  proof cases
    case spurious_wakeup
    with wt_more.IH show ?thesis
      using wt_inv_main [of m s "mutex s" MRelock] wt_main_mutex [of m s] wt_some_conn [of m s]
      by (auto simp: at_scan_def)
  qed (use wt_more.IH wt_inv_main_step wt_inv_worker_step in blast)+
  ultimately show ?case by simp
qed

section \<open>Progress\<close>

lemma worker_enabled:
  assumes "i < length (pcs s)" "pcs s ! i \<notin> {NotCreated, AtLock, Exited}"
  shows "worker_step True i s \<noteq> None"
  using assms by (cases "pcs s ! i") (auto simp: worker_step_def)

text \<open>If the main thread does not hold the mutex, whoever wants it gets it or its holder can move.\<close>

lemma mutex_progress:
  assumes inv: "wt_inv m s" and stuck: "stuck m s" and main: "\<not> main_has_mutex (mpc s)"
  shows "mutex s = None"
proof (rule ccontr)
  assume "mutex s \<noteq> None"
  then obtain i where i: "mutex s = Some (Worker i)"
    using wt_main_mutex [OF inv] main by (cases "mutex s"; cases "the (mutex s)") auto
  then have "i < length (pcs s)" using wt_worker_mutex [OF inv] wt_length [OF inv] by simp
  moreover have "has_mutex (pcs s ! i)" using i wt_has_mutex [OF inv, of i] wt_worker_mutex [OF inv i] by simp
  ultimately have "worker_step True i s \<noteq> None" by (intro worker_enabled) auto
  with stuck \<open>i < length (pcs s)\<close> show False by (simp add: stuck_def list_all_iff)
qed

lemma how_many_unread:
  "how_many (\<lambda>f. f \<noteq> F_JOINED) fs = how_many (\<lambda>f. f \<noteq> 0 \<and> f \<noteq> F_JOINED) fs + how_many (\<lambda>f. f = 0) fs"
  by (induction fs) auto

lemma wait_progress:
  assumes inv: "wt_inv m s" and "m > 0" and wait: "mpc s = MWait"
  shows "\<not> stuck m s"
proof
  assume stuck: "stuck m s"
  have dead: "pcs s ! i \<in> {NotCreated, AtLock, Exited}" "worker_step True i s = None" if "i < length (pcs s)" for i
    using stuck that worker_enabled [OF that] by (auto simp: stuck_def list_all_iff)
  have free: "mutex s = None" using mutex_progress [OF inv stuck] wait by simp
  have "how_many (\<lambda>f. f \<noteq> F_JOINED) (flags s) > 0" using wt_some_conn [OF inv] wt_nlefttoread [OF inv] wait by simp
  then have "how_many (\<lambda>f. f \<noteq> 0 \<and> f \<noteq> F_JOINED) (flags s) > 0"
    using how_many_unread [of "flags s"] wt_some_conn [OF inv] wt_nconn [OF inv] wt_nlefttoconn [OF inv] wait \<open>m > 0\<close> by auto
  then obtain i where i: "i < length (flags s)" "flags s ! i \<noteq> 0" "flags s ! i \<noteq> F_JOINED" by (auto simp: how_many_pos)
  then have i': "i < length (pcs s)" using wt_length [OF inv] by simp
  have "pcs s ! i = Exited" "flags s ! i = F_DONE"
    using dead [OF i'] wt_agree [OF inv i(1)] i i' free by (auto simp: worker_step_def)
  then have "how_many counted (zip (flags s) (pcs s)) > 0" using i(1) i' by (auto simp: how_many_pos intro!: exI [of _ i])
  then obtain j where "j < length (pcs s)" "pcs s ! j = AtSignal"
    using wt_waiting [OF inv wait] wt_ndone [OF inv] by auto
  then show False using dead(1) [of j] by simp
qed

text \<open>A run as a list of moves, to exhibit states.\<close>

datatype move = Main_moves | Worker_moves nat bool

fun run_moves :: "int \<Rightarrow> move list \<Rightarrow> wt \<Rightarrow> wt option" where
  "run_moves maxnconn [] s = Some s"
| "run_moves maxnconn (mv # mvs) s =
     (case (case mv of Main_moves \<Rightarrow> main_step maxnconn s | Worker_moves i eof \<Rightarrow> worker_step eof i s) of
        None \<Rightarrow> None
      | Some s' \<Rightarrow> run_moves maxnconn mvs s')"

lemma run_moves_reach: "run_moves m mvs s = Some s' \<Longrightarrow> wt_reach m n s \<Longrightarrow> wt_reach m n s'"
  by (induction mvs arbitrary: s)
    (auto split: option.splits move.splits intro: wt_more main_moves worker_moves)

text \<open>Two files, two connections. The first worker finishes and counts itself; the second has set \<^verbatim>\<open>F_DONE\<close> but has not
  taken the mutex when the main thread takes it and starts to join.\<close>

definition worker_until_done :: "nat \<Rightarrow> move list" where
  "worker_until_done i = [Worker_moves i True, Worker_moves i True, Worker_moves i True, Worker_moves i True]"

definition deadlock_run :: "move list" where
  "deadlock_run = [Main_moves, Main_moves, Main_moves] @ worker_until_done 0 @ worker_until_done 0 @ worker_until_done 1 @
     [Main_moves, Main_moves, Main_moves, Main_moves, Main_moves]"

definition deadlock_state :: wt where
  "deadlock_state = \<lparr>flags = [F_JOINED, F_DONE], pcs = [Exited, AtLock], mpc = MJoin 1, mutex = Some Main,
     ndone = 0, nconn = 1, nlefttoconn = 0, nlefttoread = 1\<rparr>"

lemma run_to_deadlock: "run_moves 2 deadlock_run (wt_init 2) = Some deadlock_state"
  by (simp add: deadlock_run_def worker_until_done_def deadlock_state_def wt_init_def main_step_def worker_step_def go_def
      create_thread_def numeral_2_eq_2 Let_def)

text \<open>In every reachable state of the threaded client, \<^verbatim>\<open>nconn\<close> is the number of threads created and not joined and never
  exceeds the limit, \<^verbatim>\<open>nlefttoconn\<close> and \<^verbatim>\<open>nlefttoread\<close> are the numbers of files not started and not joined, \<^verbatim>\<open>ndone\<close> is the
  number of workers that have counted themselves and are not joined, and the exit \<^verbatim>\<open>nothing found\<close> is not taken.\<close>

theorem web_thread_counters:
  assumes "wt_reach maxnconn nfiles s"
  shows "nconn s = int (how_many (\<lambda>f. f \<noteq> 0 \<and> f \<noteq> F_JOINED) (flags s)) \<and> nconn s \<le> max maxnconn 0 \<and>
    nlefttoconn s = int (how_many (\<lambda>f. f = 0) (flags s)) \<and>
    nlefttoread s = int (how_many (\<lambda>f. f \<noteq> F_JOINED) (flags s)) \<and>
    ndone s = int (how_many counted (zip (flags s) (pcs s))) \<and> mpc s \<noteq> MFail"
proof -
  have inv: "wt_inv maxnconn s" using wt_inv_reach [OF assms] by simp
  have "mpc s \<noteq> MFail" using wt_at_scan [OF inv] by (auto simp: at_scan_def)
  then show ?thesis
    using wt_nconn [OF inv] wt_nconn_le [OF inv] wt_nlefttoconn [OF inv] wt_nlefttoread [OF inv] wt_ndone [OF inv] by simp
qed

theorem web_thread_counters_witness: "nconn deadlock_state \<le> 2 \<and> mpc deadlock_state \<noteq> MFail"
  using web_thread_counters [OF run_moves_reach [OF run_to_deadlock wt_begin]] by simp

text \<open>C6. With a positive limit, the threaded client can stop in two ways only: the main thread has ended with every file
  joined, or it holds the mutex in \<^verbatim>\<open>pthread_join\<close> of a worker that has set \<^verbatim>\<open>F_DONE\<close> and waits for that mutex. In
  particular no wake-up is lost: the main thread never waits on the condition variable while nobody can move.\<close>

theorem web_thread_stops:
  assumes "wt_reach maxnconn nfiles s" and "maxnconn > 0" and "stuck maxnconn s"
  shows "mpc s = MEnd \<and> (\<forall>i < nfiles. flags s ! i = F_JOINED) \<or>
    (\<exists>i < nfiles. mpc s = MJoin i \<and> mutex s = Some Main \<and> flags s ! i = F_DONE \<and> pcs s ! i = AtLock)"
proof -
  have inv: "wt_inv maxnconn s" and n: "length (flags s) = nfiles" using wt_inv_reach [OF assms(1)] by simp_all
  have none: "main_step maxnconn s = None" using assms(3) by (simp add: stuck_def)
  note free = mutex_progress [OF inv assms(3)]
  show ?thesis
  proof (cases "mpc s")
    case MEnd
    then have "how_many (\<lambda>f. f \<noteq> F_JOINED) (flags s) = 0" using wt_ended [OF inv] wt_nlefttoread [OF inv] by simp
    then show ?thesis using MEnd n by (simp add: how_many_zero)
  next
    case (MJoin i)
    then have i: "i < length (flags s)" "flags s ! i = F_DONE" using wt_at_scan [OF inv] by (simp_all add: at_scan_def)
    have main: "mutex s = Some Main" using wt_main_mutex [OF inv] MJoin by simp
    have "pcs s ! i \<noteq> Exited" using none MJoin by (auto simp: main_step_def)
    moreover have "\<not> has_mutex (pcs s ! i)" using wt_has_mutex [OF inv i(1)] main by simp
    ultimately have "pcs s ! i = AtLock" using wt_agree [OF inv i(1)] i(2) by (cases "pcs s ! i") auto
    then show ?thesis using MJoin i main n by blast
  next
    case MFail
    then show ?thesis using wt_at_scan [OF inv] by (simp add: at_scan_def)
  next
    case MWait
    then show ?thesis using wait_progress [OF inv assms(2) MWait] assms(3) by simp
  qed (use none free in \<open>auto simp: main_step_def\<close>)
qed

theorem web_thread_stops_witness:
  "\<exists>i < 2. mpc deadlock_state = MJoin i \<and> mutex deadlock_state = Some Main"
proof -
  have "stuck 2 deadlock_state" by (simp add: stuck_def deadlock_state_def main_step_def worker_step_def)
  then show ?thesis
    using web_thread_stops [OF run_moves_reach [OF run_to_deadlock wt_begin]] by (auto simp: deadlock_state_def)
qed

text \<open>The second way to stop is taken: with two files and two connections there is an interleaving after which the main
  thread, holding the mutex, joins the second worker, which waits for the mutex; nobody can move and a file is never joined.\<close>

theorem web_thread_deadlocks:
  "\<exists>s. wt_reach 2 2 s \<and> stuck 2 s \<and> mpc s \<noteq> MEnd \<and> mutex s = Some Main \<and> nlefttoread s = 1"
proof (intro exI conjI)
  show "wt_reach 2 2 deadlock_state" using run_moves_reach [OF run_to_deadlock wt_begin] .
qed (simp_all add: deadlock_state_def stuck_def main_step_def worker_step_def)

end
