(* ===== verification/Thread_Pool.thy ===== *)
theory Thread_Pool
  imports CPrelude
begin

text \<open>
  The prethreaded server of \<^verbatim>\<open>unpv13e/server\<close> (\<^verbatim>\<open>serv08.c\<close>, \<^verbatim>\<open>pthread08.c\<close>): the main thread accepts connections and puts
  their descriptors into a circular buffer, from which the threads of the pool take them, under one mutex and one condition
  variable. A step is one action of one thread: \<open>acceptor_step\<close> and \<open>thread_step\<close> are \<open>None\<close> when the thread is blocked or the
  process has ended. \<^verbatim>\<open>pthread_cond_signal\<close> wakes one of the waiting threads, whichever the argument names; a wait may end
  spuriously. \<open>accepted\<close> and \<open>taken\<close> log what happened.
\<close>

section \<open>State\<close>

abbreviation (input) MAXNCLI :: nat where "MAXNCLI \<equiv> 32"

text \<open>What a thread of the pool does next; the last three have a descriptor in hand.\<close>

datatype thread_pc = TLock | TTest | TWait | TRelock | TUnlock int | TCount int | TServe int

datatype acceptor_pc = PAccept | PLock int | PPut int | PSignal | PUnlock | PQuit

datatype holder = Acceptor | Pool_thread nat

record pool =
  clifd :: "int list"
  iget :: nat
  iput :: nat
  threads :: "thread_pc list"
  thread_count :: "int list"
  acceptor :: acceptor_pc
  clifd_mutex :: "holder option"
  accepted :: "int list"
  taken :: "(nat \<times> int) list"

definition pool_init :: "nat \<Rightarrow> pool" where
  "pool_init nthreads = \<lparr>clifd = replicate MAXNCLI 0, iget = 0, iput = 0, threads = replicate nthreads TLock,
     thread_count = replicate nthreads 0, acceptor = PAccept, clifd_mutex = None, accepted = [], taken = []\<rparr>"

section \<open>Steps\<close>

definition thread_step :: "nat \<Rightarrow> pool \<Rightarrow> pool option" where
  "thread_step j s =
     (if j \<ge> length (threads s) \<or> acceptor s = PQuit then None
      else
        let at = (\<lambda>pc. (threads s)[j := pc]) in
        case threads s ! j of
          TLock \<Rightarrow>
            if clifd_mutex s = None then Some (s\<lparr>threads := at TTest, clifd_mutex := Some (Pool_thread j)\<rparr>) else None
        | TTest \<Rightarrow>
            if iget s = iput s then Some (s\<lparr>threads := at TWait, clifd_mutex := None\<rparr>)
            else
              let connfd = clifd s ! iget s in
              Some (s\<lparr>iget := (if iget s + 1 = MAXNCLI then 0 else iget s + 1), threads := at (TUnlock connfd),
                      taken := taken s @ [(j, connfd)]\<rparr>)
        | TWait \<Rightarrow> None
        | TRelock \<Rightarrow>
            if clifd_mutex s = None then Some (s\<lparr>threads := at TTest, clifd_mutex := Some (Pool_thread j)\<rparr>) else None
        | TUnlock connfd \<Rightarrow> Some (s\<lparr>threads := at (TCount connfd), clifd_mutex := None\<rparr>)
        | TCount connfd \<Rightarrow>
            Some (s\<lparr>threads := at (TServe connfd), thread_count := (thread_count s)[j := thread_count s ! j + 1]\<rparr>)
        | TServe connfd \<Rightarrow> Some (s\<lparr>threads := at TLock\<rparr>))"

definition acceptor_step :: "int \<Rightarrow> nat \<Rightarrow> pool \<Rightarrow> pool option" where
  "acceptor_step connfd wake s =
     (case acceptor s of
        PAccept \<Rightarrow> Some (s\<lparr>acceptor := PLock connfd, accepted := accepted s @ [connfd]\<rparr>)
      | PLock fd \<Rightarrow>
          if clifd_mutex s = None then Some (s\<lparr>acceptor := PPut fd, clifd_mutex := Some Acceptor\<rparr>) else None
      | PPut fd \<Rightarrow>
          let i = (if iput s + 1 = MAXNCLI then 0 else iput s + 1);
              s1 = s\<lparr>clifd := (clifd s)[iput s := fd], iput := i\<rparr> in
          Some (s1\<lparr>acceptor := (if i = iget s then PQuit else PSignal)\<rparr>)
      | PSignal \<Rightarrow>
          if TWait \<notin> set (threads s) then Some (s\<lparr>acceptor := PUnlock\<rparr>)
          else if wake < length (threads s) \<and> threads s ! wake = TWait
          then Some (s\<lparr>threads := (threads s)[wake := TRelock], acceptor := PUnlock\<rparr>)
          else None
      | PUnlock \<Rightarrow> Some (s\<lparr>acceptor := PAccept, clifd_mutex := None\<rparr>)
      | PQuit \<Rightarrow> None)"

inductive pool_step :: "pool \<Rightarrow> pool \<Rightarrow> bool" where
  acceptor_moves: "acceptor_step connfd wake s = Some s' \<Longrightarrow> pool_step s s'"
| thread_moves: "thread_step j s = Some s' \<Longrightarrow> pool_step s s'"
| pool_spurious: "j < length (threads s) \<Longrightarrow> threads s ! j = TWait \<Longrightarrow> acceptor s \<noteq> PQuit \<Longrightarrow>
    pool_step s (s\<lparr>threads := (threads s)[j := TRelock]\<rparr>)"

inductive pool_reach :: "nat \<Rightarrow> pool \<Rightarrow> bool" for nthreads where
  pool_start: "pool_reach nthreads (pool_init nthreads)"
| pool_more: "pool_reach nthreads s \<Longrightarrow> pool_step s s' \<Longrightarrow> pool_reach nthreads s'"

section \<open>The invariant\<close>

text \<open>The descriptors in the buffer, oldest first, and the one the main thread has in hand.\<close>

definition pending :: "pool \<Rightarrow> int list" where
  "pending s = slots (clifd s) (iget s) ((iput s + MAXNCLI - iget s) mod MAXNCLI)"

definition in_hand :: "acceptor_pc \<Rightarrow> int list" where
  "in_hand pc = (case pc of PLock fd \<Rightarrow> [fd] | PPut fd \<Rightarrow> [fd] | _ \<Rightarrow> [])"

fun thread_holds :: "thread_pc \<Rightarrow> bool" where
  "thread_holds TTest = True"
| "thread_holds (TUnlock _) = True"
| "thread_holds _ = False"

fun acceptor_holds :: "acceptor_pc \<Rightarrow> bool" where
  "acceptor_holds (PPut _) = True"
| "acceptor_holds PSignal = True"
| "acceptor_holds PUnlock = True"
| "acceptor_holds _ = False"

text \<open>Threads that are going to look into the buffer, and threads that have taken a descriptor but not counted it.\<close>

definition looking :: "thread_pc \<Rightarrow> bool" where
  "looking pc \<longleftrightarrow> pc = TLock \<or> pc = TRelock \<or> pc = TTest"

fun uncounted :: "thread_pc \<Rightarrow> int" where
  "uncounted (TUnlock _) = 1"
| "uncounted (TCount _) = 1"
| "uncounted _ = 0"

text \<open>The mutex and the places of its holders; the buffer; the counts; and why no wake-up is lost: as long as a thread waits, every
  descriptor in the buffer has a thread that is going to look for it, or is about to be signalled.\<close>

definition mutex_ok :: "pool \<Rightarrow> bool" where
  "mutex_ok s \<longleftrightarrow>
     (\<forall>j < length (threads s). thread_holds (threads s ! j) \<longleftrightarrow> clifd_mutex s = Some (Pool_thread j)) \<and>
     (\<forall>j. clifd_mutex s = Some (Pool_thread j) \<longrightarrow> j < length (threads s)) \<and>
     (acceptor_holds (acceptor s) \<longleftrightarrow> clifd_mutex s = Some Acceptor)"

definition buffer_ok :: "pool \<Rightarrow> bool" where
  "buffer_ok s \<longleftrightarrow> length (clifd s) = MAXNCLI \<and> iget s < MAXNCLI \<and> iput s < MAXNCLI \<and>
     accepted s = map snd (taken s) @ pending s @ in_hand (acceptor s)"

definition counts_ok :: "pool \<Rightarrow> bool" where
  "counts_ok s \<longleftrightarrow> length (thread_count s) = length (threads s) \<and>
     (\<forall>j < length (threads s). thread_count s ! j + uncounted (threads s ! j) = int (how_many (\<lambda>p. fst p = j) (taken s)))"

definition wake_ok :: "pool \<Rightarrow> bool" where
  "wake_ok s \<longleftrightarrow> TWait \<in> set (threads s) \<longrightarrow>
     length (pending s) \<le> how_many looking (threads s) + (if acceptor s = PSignal then 1 else 0)"

definition pool_ok :: "pool \<Rightarrow> bool" where
  "pool_ok s \<longleftrightarrow>
     (if acceptor s = PQuit then length (accepted s) = length (taken s) + MAXNCLI
      else mutex_ok s \<and> buffer_ok s \<and> counts_ok s \<and> wake_ok s)"

lemma pool_ok_init: "pool_ok (pool_init n)"
  by (simp add: pool_ok_def pool_init_def mutex_ok_def buffer_ok_def counts_ok_def wake_ok_def pending_def in_hand_def)

text \<open>The circular buffer.\<close>

lemma wrap32: "i < 32 \<Longrightarrow> (if i + 1 = MAXNCLI then 0 else i + 1) = (i + 1) mod 32"
  by (cases "i = 31") auto

lemma distance: "i < 32 \<Longrightarrow> p < 32 \<Longrightarrow> (p + 32 - i) mod 32 = (if i \<le> p then p - i else p + 32 - i)" for i p :: nat
proof -
  assume "i < 32" "p < 32"
  show ?thesis
  proof (cases "i \<le> p")
    case True
    then have "(p + 32 - i) mod 32 = ((p - i) + 32) mod 32" by simp
    also have "\<dots> = p - i" unfolding mod_add_self2 using \<open>p < 32\<close> by simp
    finally show ?thesis using True by simp
  qed (use \<open>i < 32\<close> in simp)
qed

lemma next32: "i < 32 \<Longrightarrow> Suc i mod 32 = (if i = 31 then 0 else Suc i)" for i :: nat
  by auto

lemma distance_get: "i < 32 \<Longrightarrow> p < 32 \<Longrightarrow> i \<noteq> p \<Longrightarrow> (p + 32 - i) mod 32 = Suc ((p + 32 - (i + 1) mod 32) mod 32)"
  for i p :: nat
  using distance [of i p] distance [of "(i + 1) mod 32" p] by (auto simp: next32 split: if_splits)

lemma distance_put: "i < 32 \<Longrightarrow> p < 32 \<Longrightarrow> (p + 1) mod 32 \<noteq> i \<Longrightarrow> ((p + 1) mod 32 + 32 - i) mod 32 = Suc ((p + 32 - i) mod 32)"
  for i p :: nat
  using distance [of i p] distance [of i "(p + 1) mod 32"] by (auto simp: next32 split: if_splits)

lemma distance_full: "i < 32 \<Longrightarrow> p < 32 \<Longrightarrow> (p + 1) mod 32 = i \<Longrightarrow> (p + 32 - i) mod 32 = 31" for i p :: nat
  using distance [of i p] by (auto simp: next32 split: if_splits)

lemma distance_add: "i < 32 \<Longrightarrow> p < 32 \<Longrightarrow> (i + (p + 32 - i) mod 32) mod 32 = p" for i p :: nat
  by (simp add: mod_simps)

lemma distance_zero: "i < 32 \<Longrightarrow> p < 32 \<Longrightarrow> (p + 32 - i) mod 32 = 0 \<longleftrightarrow> i = p" for i p :: nat
  using distance [of i p] by auto

lemma pending_get:
  assumes "length (clifd s) = MAXNCLI" "iget s < MAXNCLI" "iput s < MAXNCLI" "iget s \<noteq> iput s"
  shows "pending s = clifd s ! iget s # pending (s\<lparr>iget := (iget s + 1) mod 32\<rparr>)"
  using slots_get [of "iget s" "clifd s"] assms distance_get [of "iget s" "iput s"] by (simp add: pending_def)

lemma pending_put:
  assumes "length (clifd s) = MAXNCLI" "iget s < MAXNCLI" "iput s < MAXNCLI" "(iput s + 1) mod 32 \<noteq> iget s"
  shows "pending (s\<lparr>clifd := (clifd s)[iput s := fd], iput := (iput s + 1) mod 32\<rparr>) = pending s @ [fd]"
  using slots_put [of "(iput s + 32 - iget s) mod 32" "clifd s" "iget s" fd] assms
    distance_put [of "iget s" "iput s"] distance_add [of "iget s" "iput s"]
  by (simp add: pending_def)

lemma pending_cong: "clifd s' = clifd s \<Longrightarrow> iget s' = iget s \<Longrightarrow> iput s' = iput s \<Longrightarrow> pending s' = pending s"
  by (simp add: pending_def)

lemma length_pending: "length (pending s) = (iput s + MAXNCLI - iget s) mod MAXNCLI"
  by (simp add: pending_def)

text \<open>The threads of the pool.\<close>

lemma thread_step_mutex:
  assumes ok: "mutex_ok s" and step: "thread_step j s = Some s'"
  shows "mutex_ok s'"
proof -
  have j: "j < length (threads s)" using step by (auto simp: thread_step_def split: if_splits)
  have own: "thread_holds (threads s ! j) \<longleftrightarrow> clifd_mutex s = Some (Pool_thread j)" using ok j by (simp add: mutex_ok_def)
  define pc where "pc = threads s' ! j"
  have pc: "threads s' = (threads s)[j := pc]" "acceptor s' = acceptor s"
    "clifd_mutex s' = (if thread_holds pc then Some (Pool_thread j) else if thread_holds (threads s ! j) then None else clifd_mutex s)"
    "thread_holds pc \<Longrightarrow> clifd_mutex s = None \<or> thread_holds (threads s ! j)"
    using step own unfolding pc_def by (cases "threads s ! j"; auto simp: thread_step_def Let_def split: if_splits)+
  have "thread_holds ((threads s)[j := pc] ! i) \<longleftrightarrow> clifd_mutex s' = Some (Pool_thread i)" if "i < length (threads s)" for i
  proof -
    have "thread_holds (threads s ! i) \<longleftrightarrow> clifd_mutex s = Some (Pool_thread i)" using ok that by (simp add: mutex_ok_def)
    then show ?thesis using that own pc(3,4) by (auto simp: nth_update_cases)
  qed
  then show ?thesis using ok j own pc by (auto simp: mutex_ok_def split: if_splits)
qed

lemma thread_step_counts:
  assumes ok: "counts_ok s" and step: "thread_step j s = Some s'"
  shows "counts_ok s'"
proof -
  have j: "j < length (threads s)" using step by (auto simp: thread_step_def split: if_splits)
  have own: "thread_count s ! j + uncounted (threads s ! j) = int (how_many (\<lambda>p. fst p = j) (taken s))"
    using ok j by (simp add: counts_ok_def)
  show ?thesis
  proof (cases "threads s ! j")
    case TTest
    then show ?thesis using ok own j step
      by (auto simp: counts_ok_def thread_step_def Let_def nth_update_cases split: if_splits)
  qed (use ok own j step in \<open>auto simp: counts_ok_def thread_step_def Let_def nth_update_cases split: if_splits\<close>)
qed

lemma thread_step_buffer:
  assumes "buffer_ok s" and "thread_step j s = Some s'"
  shows "buffer_ok s' \<and> acceptor s' = acceptor s"
proof (cases "threads s ! j = TTest \<and> iget s \<noteq> iput s")
  case True
  then have "s' = s\<lparr>iget := (iget s + 1) mod 32, threads := (threads s)[j := TUnlock (clifd s ! iget s)],
      taken := taken s @ [(j, clifd s ! iget s)]\<rparr>"
    using assms wrap32 [of "iget s"] by (auto simp: thread_step_def Let_def buffer_ok_def split: if_splits)
  moreover have "pending (s\<lparr>iget := (iget s + 1) mod 32, threads := ts, taken := tk\<rparr>) =
      pending (s\<lparr>iget := (iget s + 1) mod 32\<rparr>)" for ts tk by (simp add: pending_def)
  ultimately show ?thesis using pending_get [of s] assms(1) True by (simp add: buffer_ok_def)
next
  case False
  then have "clifd s' = clifd s" "iget s' = iget s" "iput s' = iput s" "acceptor s' = acceptor s" "accepted s' = accepted s"
    "taken s' = taken s"
    using assms(2) by (auto simp: thread_step_def Let_def split: if_splits thread_pc.splits)
  then show ?thesis using assms(1) pending_cong [of s' s] by (simp add: buffer_ok_def)
qed

lemma looking_update:
  "j < length ts \<Longrightarrow> how_many looking (ts[j := pc]) + (if looking (ts ! j) then 1 else 0) =
     how_many looking ts + (if looking pc then 1 else 0)"
  by (rule how_many_update)

lemma wait_update: "TWait \<in> set (ts[j := pc]) \<Longrightarrow> pc \<noteq> TWait \<Longrightarrow> TWait \<in> set ts"
  using set_update_subset_insert [of ts j pc] by auto

lemma thread_step_wake:
  assumes wake: "wake_ok s" and buf: "buffer_ok s" and step: "thread_step j s = Some s'"
  shows "wake_ok s'"
proof -
  have j: "j < length (threads s)" using step by (auto simp: thread_step_def split: if_splits)
  note upd = looking_update [OF j]
  have acc: "acceptor s' = acceptor s" using thread_step_buffer [OF buf step] by simp
  show ?thesis
  proof (cases "threads s ! j = TTest")
    case True
    show ?thesis
    proof (cases "iget s = iput s")
      case True
      then have "length (pending s') = 0"
        using step buf \<open>threads s ! j = TTest\<close> by (auto simp: thread_step_def Let_def length_pending buffer_ok_def split: if_splits)
      then show ?thesis by (simp add: wake_ok_def)
    next
      case False
      then have s': "threads s' = (threads s)[j := TUnlock (clifd s ! iget s)]" "pending s = clifd s ! iget s # pending s'"
        using step buf pending_get [of s] wrap32 [of "iget s"] \<open>threads s ! j = TTest\<close> pending_cong [of s' "s\<lparr>iget := (iget s + 1) mod 32\<rparr>"]
        by (auto simp: thread_step_def Let_def buffer_ok_def split: if_splits)
      from this(2) have "length (pending s) = Suc (length (pending s'))" by simp
      then show ?thesis
        using wake wait_update [of "threads s" j "TUnlock (clifd s ! iget s)"] upd [of "TUnlock (clifd s ! iget s)"] True acc
        unfolding wake_ok_def s'(1) by (auto simp: looking_def)
    qed
  next
    case False
    then have "pending s' = pending s"
      using step pending_cong [of s' s] by (auto simp: thread_step_def Let_def split: if_splits thread_pc.splits)
    moreover obtain pc where "threads s' = (threads s)[j := pc]" "pc \<noteq> TWait" "looking (threads s ! j) \<Longrightarrow> looking pc"
      using step False by (cases "threads s ! j") (auto simp: thread_step_def Let_def looking_def split: if_splits)
    ultimately show ?thesis
      using wake wait_update [of "threads s" j pc] upd [of pc] acc unfolding wake_ok_def by (auto split: if_splits)
  qed
qed

text \<open>The main thread.\<close>

lemma acceptor_step_ok:
  assumes ok: "mutex_ok s" "buffer_ok s" "counts_ok s" "wake_ok s" and step: "acceptor_step connfd wake s = Some s'"
  shows "pool_ok s'"
proof (cases "acceptor s")
  case PAccept
  have "pending s' = pending s" using step PAccept by (intro pending_cong) (auto simp: acceptor_step_def)
  with PAccept step ok show ?thesis
    by (auto simp: acceptor_step_def pool_ok_def mutex_ok_def buffer_ok_def counts_ok_def wake_ok_def in_hand_def)
next
  case (PLock fd)
  have "pending s' = pending s" using step PLock by (intro pending_cong) (auto simp: acceptor_step_def split: if_splits)
  with PLock step ok show ?thesis
    by (auto simp: acceptor_step_def pool_ok_def mutex_ok_def buffer_ok_def counts_ok_def wake_ok_def in_hand_def split: if_splits)
next
  case (PPut fd)
  have buf: "length (clifd s) = MAXNCLI" "iget s < MAXNCLI" "iput s < MAXNCLI" using ok(2) by (simp_all add: buffer_ok_def)
  define i where "i = (iput s + 1) mod 32"
  have s': "s' = s\<lparr>clifd := (clifd s)[iput s := fd], iput := i, acceptor := (if i = iget s then PQuit else PSignal)\<rparr>"
    using step PPut wrap32 [OF buf(3)] by (simp add: acceptor_step_def Let_def i_def)
  show ?thesis
  proof (cases "i = iget s")
    case True
    then have "length (pending s) = 31" using distance_full [OF buf(2,3)] by (simp add: length_pending i_def)
    then show ?thesis using ok(2) PPut True by (simp add: pool_ok_def s' buffer_ok_def in_hand_def)
  next
    case False
    have "pending s' = pending s @ [fd]"
      using pending_put [OF buf, of fd] False pending_cong [of s' "s\<lparr>clifd := (clifd s)[iput s := fd], iput := i\<rparr>"]
      by (simp add: s' i_def)
    then show ?thesis using ok PPut False
      by (auto simp: pool_ok_def s' mutex_ok_def buffer_ok_def counts_ok_def wake_ok_def in_hand_def i_def)
  qed
next
  case PSignal
  have pend: "pending s' = pending s" using step PSignal by (intro pending_cong) (auto simp: acceptor_step_def split: if_splits)
  show ?thesis
  proof (cases "TWait \<in> set (threads s)")
    case False
    then show ?thesis using PSignal step ok pend
      by (auto simp: acceptor_step_def pool_ok_def mutex_ok_def buffer_ok_def counts_ok_def wake_ok_def in_hand_def)
  next
    case True
    then have w: "wake < length (threads s)" "threads s ! wake = TWait"
      and s': "s' = s\<lparr>threads := (threads s)[wake := TRelock], acceptor := PUnlock\<rparr>"
      using PSignal step by (auto simp: acceptor_step_def split: if_splits)
    have "thread_holds (threads s ! wake) = thread_holds TRelock" "uncounted (threads s ! wake) = uncounted TRelock"
      using w by simp_all
    then have "mutex_ok s'" "counts_ok s'" using ok w PSignal by (auto simp: mutex_ok_def counts_ok_def s' nth_update_cases)
    moreover have "wake_ok s'" using ok(4) looking_update [OF w(1), of TRelock] w True PSignal pend
      by (simp add: wake_ok_def s' looking_def)
    moreover have "buffer_ok s'" using ok(2) PSignal pend by (simp add: buffer_ok_def s' in_hand_def)
    ultimately show ?thesis using s' by (simp add: pool_ok_def)
  qed
next
  case PUnlock
  have "pending s' = pending s" using step PUnlock by (intro pending_cong) (auto simp: acceptor_step_def)
  with PUnlock step ok show ?thesis
    by (auto simp: acceptor_step_def pool_ok_def mutex_ok_def buffer_ok_def counts_ok_def wake_ok_def in_hand_def)
qed (use step in \<open>simp add: acceptor_step_def\<close>)

lemma spurious_ok:
  assumes ok: "mutex_ok s" "buffer_ok s" "counts_ok s" "wake_ok s"
    and j: "j < length (threads s)" "threads s ! j = TWait"
  shows "mutex_ok (s\<lparr>threads := (threads s)[j := TRelock]\<rparr>)" "buffer_ok (s\<lparr>threads := (threads s)[j := TRelock]\<rparr>)"
    "counts_ok (s\<lparr>threads := (threads s)[j := TRelock]\<rparr>)" "wake_ok (s\<lparr>threads := (threads s)[j := TRelock]\<rparr>)"
proof -
  let ?s = "s\<lparr>threads := (threads s)[j := TRelock]\<rparr>"
  have pend: "pending ?s = pending s" by (rule pending_cong) simp_all
  have "thread_holds (threads s ! j) = thread_holds TRelock" "uncounted (threads s ! j) = uncounted TRelock" using j by simp_all
  then show "mutex_ok ?s" "counts_ok ?s" using ok(1,3) j by (auto simp: mutex_ok_def counts_ok_def nth_update_cases)
  show "buffer_ok ?s" using ok(2) pend by (simp add: buffer_ok_def)
  show "wake_ok ?s" using ok(4) looking_update [OF j(1), of TRelock] wait_update [of "threads s" j TRelock] pend j
    by (auto simp: wake_ok_def looking_def)
qed

lemma pool_ok_step:
  assumes ok: "pool_ok s" and step: "pool_step s s'"
  shows "pool_ok s'"
proof -
  have "acceptor s \<noteq> PQuit" using step
    by cases (auto simp: acceptor_step_def thread_step_def split: if_splits)
  with ok have parts: "mutex_ok s" "buffer_ok s" "counts_ok s" "wake_ok s" by (simp_all add: pool_ok_def)
  from step show ?thesis
  proof cases
    case (acceptor_moves connfd wake)
    then show ?thesis using acceptor_step_ok [OF parts] by simp
  next
    case (thread_moves j)
    then show ?thesis
      using \<open>acceptor s \<noteq> PQuit\<close> thread_step_mutex [OF parts(1)] thread_step_buffer [OF parts(2)]
        thread_step_counts [OF parts(3)] thread_step_wake [OF parts(4,2)] by (simp add: pool_ok_def)
  next
    case (pool_spurious j)
    then show ?thesis using spurious_ok [OF parts] by (simp add: pool_ok_def)
  qed
qed

lemma pool_reach_ok: "pool_reach n s \<Longrightarrow> pool_ok s \<and> length (threads s) = n"
proof (induction rule: pool_reach.induct)
  case pool_start
  show ?case using pool_ok_init by (simp add: pool_init_def)
next
  case (pool_more s s')
  have "length (threads s') = length (threads s)" using pool_more(2)
    by cases (auto simp: acceptor_step_def thread_step_def Let_def split: if_splits thread_pc.splits acceptor_pc.splits)
  then show ?case using pool_more.IH pool_ok_step [OF _ pool_more(2)] by simp
qed

section \<open>Properties\<close>

text \<open>A run as a list of moves, to exhibit states.\<close>

datatype pool_move = Acceptor_moves int nat | Thread_moves nat

fun pool_run :: "pool_move list \<Rightarrow> pool \<Rightarrow> pool option" where
  "pool_run [] s = Some s"
| "pool_run (mv # mvs) s =
     (case (case mv of Acceptor_moves fd w \<Rightarrow> acceptor_step fd w s | Thread_moves j \<Rightarrow> thread_step j s) of
        None \<Rightarrow> None
      | Some s' \<Rightarrow> pool_run mvs s')"

lemma pool_run_reach: "pool_run mvs s = Some s' \<Longrightarrow> pool_reach n s \<Longrightarrow> pool_reach n s'"
proof (induction mvs arbitrary: s)
  case (Cons mv mvs)
  then obtain s1 where "pool_step s s1" "pool_run mvs s1 = Some s'"
    by (auto split: option.splits pool_move.splits intro: acceptor_moves thread_moves)
  then show ?case using Cons.IH Cons.prems(2) pool_more by blast
qed simp

text \<open>Two threads; one connection is accepted and served, then both wait again.\<close>

definition pool_example :: pool where
  "pool_example = \<lparr>clifd = 7 # replicate 31 0, iget = 1, iput = 1, threads = [TWait, TWait], thread_count = [1, 0],
     acceptor = PAccept, clifd_mutex = None, accepted = [7], taken = [(0, 7)]\<rparr>"

lemma pool_example_reach: "pool_reach 2 pool_example"
proof (rule pool_run_reach [OF _ pool_start])
  show "pool_run ([Thread_moves 0, Thread_moves 0, Thread_moves 1, Thread_moves 1] @ replicate 5 (Acceptor_moves 7 0) @
      replicate 7 (Thread_moves 0)) (pool_init 2) = Some pool_example"
    by (simp add: pool_init_def thread_step_def acceptor_step_def numeral_2_eq_2 Let_def numeral_eq_Suc pool_example_def)
qed



text \<open>C4. No wake-up is lost: when the main thread waits for a connection and no thread of the pool can move, then every one of
  them waits for the condition and the buffer is empty.\<close>

theorem pool_never_forgets:
  assumes "pool_reach nthreads s" and "nthreads > 0" and "acceptor s = PAccept" and "\<forall>j < nthreads. thread_step j s = None"
  shows "pending s = [] \<and> (\<forall>j < nthreads. threads s ! j = TWait)"
proof -
  have ok: "mutex_ok s" "wake_ok s" and n: "length (threads s) = nthreads"
    using pool_reach_ok [OF assms(1)] assms(3) by (simp_all add: pool_ok_def)
  have free: "clifd_mutex s = None"
  proof (rule ccontr)
    assume "clifd_mutex s \<noteq> None"
    then obtain j where j: "clifd_mutex s = Some (Pool_thread j)" "j < nthreads" "thread_holds (threads s ! j)"
      using ok(1) assms(3) n unfolding mutex_ok_def by (cases "clifd_mutex s"; cases "the (clifd_mutex s)") auto
    then show False using assms(3,4) n
      by (cases "threads s ! j") (auto simp: thread_step_def Let_def split: if_splits)
  qed
  have wait: "threads s ! j = TWait" if "j < nthreads" for j
    using assms(3,4) that n free by (cases "threads s ! j") (auto simp: thread_step_def Let_def split: if_splits)
  then have "TWait \<in> set (threads s)" using assms(2) n nth_mem [of 0 "threads s"] by force
  moreover have "how_many looking (threads s) = 0" using wait n by (simp add: how_many_zero looking_def)
  ultimately have "length (pending s) = 0" using ok(2) assms(3) by (simp add: wake_ok_def)
  then show ?thesis using wait by simp
qed

theorem pool_never_forgets_witness: "pending pool_example = []"
proof -
  have "\<forall>j < 2. thread_step j pool_example = None"
    by (auto simp: pool_example_def thread_step_def less_2_cases_iff Let_def)
  then show ?thesis using pool_never_forgets [OF pool_example_reach] by (simp add: pool_example_def)
qed

end
