(* ===== verification/Prefork.thy ===== *)
theory Prefork
  imports CPrelude "HOL-Library.Multiset"
begin

text \<open>
  The preforked server that passes descriptors (\<^verbatim>\<open>unpv13e/server/serv05.c\<close>, \<^verbatim>\<open>child05.c\<close>), with \<^verbatim>\<open>read_fd\<close> and \<^verbatim>\<open>write_fd\<close> of
  \<^verbatim>\<open>unpv13e/lib\<close>: the parent accepts a connection and passes its descriptor over a stream pipe to a child that is
  ready; the child serves the connection and writes a byte back. The parent's loop is one iteration (\<open>parent_iter\<close>), with what \<^verbatim>\<open>select\<close>,
  \<^verbatim>\<open>accept\<close> and \<^verbatim>\<open>read\<close> answer as an argument; a child's loop is the step \<open>child_step\<close>. \<open>kids\<close> is where each child is, \<open>passed\<close> and
  \<open>finished\<close> log the connections.
\<close>

section \<open>Passing a descriptor\<close>

abbreviation (input) SOL_SOCKET :: int where "SOL_SOCKET \<equiv> 1"
abbreviation (input) SCM_RIGHTS :: int where "SCM_RIGHTS \<equiv> 1"

definition CMSG_LEN :: "nat \<Rightarrow> nat" where
  "CMSG_LEN n = 16 + n"

record cmsghdr =
  cmsg_len :: nat
  cmsg_level :: int
  cmsg_type :: int
  cmsg_data :: int

type_synonym message = "char list \<times> cmsghdr option"

text \<open>The message \<^verbatim>\<open>write_fd\<close> gives to \<^verbatim>\<open>sendmsg\<close>, and what \<^verbatim>\<open>read_fd\<close> makes of the answer of \<^verbatim>\<open>recvmsg\<close> (\<open>None\<close> for an error): the number of
  bytes, the bytes and the value of \<open>*recvfd\<close>, which is not assigned when there is no data.\<close>

definition write_fd :: "char list \<Rightarrow> int \<Rightarrow> message" where
  "write_fd bytes sendfd =
     (bytes, Some \<lparr>cmsg_len = CMSG_LEN 4, cmsg_level = SOL_SOCKET, cmsg_type = SCM_RIGHTS, cmsg_data = sendfd\<rparr>)"

definition read_fd :: "message option \<Rightarrow> nat \<Rightarrow> (int \<times> char list \<times> int option) run" where
  "read_fd answer nbytes =
     (case answer of
        None \<Rightarrow> Ret (-1, [], None)
      | Some (bs, cm) \<Rightarrow>
          let got = take nbytes bs in
          if got = [] then Ret (0, [], None)
          else
            case cm of
              None \<Rightarrow> Ret (int (length got), got, Some (-1))
            | Some c \<Rightarrow>
                if cmsg_len c \<noteq> CMSG_LEN 4 then Ret (int (length got), got, Some (-1))
                else if cmsg_level c \<noteq> SOL_SOCKET then Exit 1
                else if cmsg_type c \<noteq> SCM_RIGHTS then Exit 1
                else Ret (int (length got), got, Some (cmsg_data c)))"

lemma read_fd_write_fd:
  "bytes \<noteq> [] \<Longrightarrow> length bytes \<le> n \<Longrightarrow> read_fd (Some (write_fd bytes fd)) n = Ret (int (length bytes), bytes, Some fd)"
  by (cases bytes) (auto simp: read_fd_def write_fd_def)

section \<open>State\<close>

record child =
  child_pid :: int
  child_pipefd :: int
  child_status :: int
  child_count :: int

text \<open>A child waits for a descriptor, has one waiting in its pipe, serves a connection, or has told the parent that it is ready
  again and the parent has not read it yet; or it has ended.\<close>

datatype kid = Idle | Given message | Serving int | Told | Dead

record prefork =
  cptr :: "child list"
  navail :: int
  masterset :: "int set"
  kids :: "kid list"
  passed :: "(nat \<times> int) list"
  finished :: "int list"

record parent_env =
  ready :: "int set"
  connfd :: int

text \<open>After \<^verbatim>\<open>child_make\<close> has been called for every child: process ids and pipes are those the kernel gave.\<close>

definition child_make :: "int \<times> int \<Rightarrow> child" where
  "child_make pp = \<lparr>child_pid = fst pp, child_pipefd = snd pp, child_status = 0, child_count = 0\<rparr>"

definition prefork_init :: "int \<Rightarrow> (int \<times> int) list \<Rightarrow> prefork c_value" where
  "prefork_init listenfd pps =
     (if list_all (\<lambda>fd. 0 \<le> fd \<and> fd < int FD_SETSIZE) (listenfd # map snd pps) then
        Val \<lparr>cptr = map child_make pps, navail = int (length pps), masterset = insert listenfd (set (map snd pps)),
          kids = replicate (length pps) Idle, passed = [], finished = []\<rparr>
      else UB)"

section \<open>The parent\<close>

fun first_ready :: "child list \<Rightarrow> nat" where
  "first_ready [] = 0"
| "first_ready (c # cs) = (if child_status c = 0 then 0 else Suc (first_ready cs))"

definition pass_connection :: "int \<Rightarrow> prefork \<Rightarrow> prefork run" where
  "pass_connection fd s =
     (if fd < 0 then Exit 1
      else
        let i = first_ready (cptr s) in
        if i = length (cptr s) then Exit 1
        else
          let c = cptr s ! i in
          Ret (s\<lparr>cptr := (cptr s)[i := c\<lparr>child_status := 1, child_count := child_count c + 1\<rparr>], navail := navail s - 1,
                 kids := (kids s)[i := Given (write_fd [CHR 0x00] fd)], passed := passed s @ [(i, fd)]\<rparr>))"

text \<open>\<^verbatim>\<open>read\<close> from the pipe of a child returns the byte it wrote, or 0 when the child has ended.\<close>

fun collect_ready :: "int set \<Rightarrow> nat list \<Rightarrow> int \<Rightarrow> prefork \<Rightarrow> prefork run" where
  "collect_ready rset [] nsel s = Ret s"
| "collect_ready rset (i # is) nsel s =
     (if child_pipefd (cptr s ! i) \<in> rset then
        if kids s ! i = Dead then Exit 1
        else
          let s' = s\<lparr>cptr := (cptr s)[i := (cptr s ! i)\<lparr>child_status := 0\<rparr>], navail := navail s + 1,
                     kids := (kids s)[i := Idle]\<rparr> in
          if nsel - 1 = 0 then Ret s' else collect_ready rset is (nsel - 1) s'
      else collect_ready rset is nsel s)"

definition parent_iter :: "int \<Rightarrow> parent_env \<Rightarrow> prefork \<Rightarrow> prefork run" where
  "parent_iter listenfd env s =
     (let rset = ready env \<inter> (if navail s \<le> 0 then masterset s - {listenfd} else masterset s);
          nsel = int (card rset) in
      if listenfd \<in> rset then
        (case pass_connection (connfd env) s of
           Exit c \<Rightarrow> Exit c
         | Ret s' \<Rightarrow>
             if nsel - 1 = 0 then Ret s' else collect_ready rset [0..<length (cptr s')] (nsel - 1) s')
      else collect_ready rset [0..<length (cptr s)] nsel s)"

section \<open>A child\<close>

definition child_step :: "nat \<Rightarrow> prefork \<Rightarrow> prefork option" where
  "child_step i s =
     (if i \<ge> length (kids s) then None
      else case kids s ! i of
        Given m \<Rightarrow>
          (case read_fd (Some m) 1 of
             Exit c \<Rightarrow> Some (s\<lparr>kids := (kids s)[i := Dead]\<rparr>)
           | Ret (n, bs, fd) \<Rightarrow>
               Some (s\<lparr>kids := (kids s)[i := if n = 0 \<or> the fd < 0 then Dead else Serving (the fd)]\<rparr>))
      | Serving fd \<Rightarrow> Some (s\<lparr>kids := (kids s)[i := Told], finished := finished s @ [fd]\<rparr>)
      | _ \<Rightarrow> None)"

text \<open>The pipe of a child is readable only when there is something to read or the child has ended, and a descriptor that
  \<^verbatim>\<open>accept\<close> returns is not negative.\<close>

definition kernel_ok :: "int \<Rightarrow> parent_env \<Rightarrow> prefork \<Rightarrow> bool" where
  "kernel_ok listenfd env s \<longleftrightarrow> 0 \<le> connfd env \<and>
     list_all (\<lambda>i. child_pipefd (cptr s ! i) \<in> ready env \<longrightarrow> kids s ! i = Told \<or> kids s ! i = Dead) [0..<length (cptr s)]"

inductive prefork_reach :: "int \<Rightarrow> (int \<times> int) list \<Rightarrow> prefork \<Rightarrow> bool" for listenfd pps where
  prefork_start: "prefork_init listenfd pps = Val s \<Longrightarrow> prefork_reach listenfd pps s"
| parent_moves: "prefork_reach listenfd pps s \<Longrightarrow> kernel_ok listenfd env s \<Longrightarrow> parent_iter listenfd env s = Ret s' \<Longrightarrow>
    prefork_reach listenfd pps s'"
| child_moves: "prefork_reach listenfd pps s \<Longrightarrow> child_step i s = Some s' \<Longrightarrow> prefork_reach listenfd pps s'"

section \<open>The invariant\<close>

text \<open>The connections a child has in hand.\<close>

fun kid_conn :: "kid \<Rightarrow> int list" where
  "kid_conn (Given (bs, Some c)) = [cmsg_data c]"
| "kid_conn (Serving fd) = [fd]"
| "kid_conn _ = []"

fun kid_ok :: "int \<Rightarrow> kid \<Rightarrow> bool" where
  "kid_ok st Idle \<longleftrightarrow> st = 0"
| "kid_ok st (Given m) \<longleftrightarrow> st = 1 \<and> (case m of (bs, Some c) \<Rightarrow> 0 \<le> cmsg_data c \<and> m = write_fd [CHR 0x00] (cmsg_data c) | _ \<Rightarrow> False)"
| "kid_ok st (Serving fd) \<longleftrightarrow> st = 1"
| "kid_ok st Told \<longleftrightarrow> st = 1"
| "kid_ok st Dead \<longleftrightarrow> False"

definition in_progress :: "kid list \<Rightarrow> int multiset" where
  "in_progress ks = mset (concat (map kid_conn ks))"

definition prefork_ok :: "int \<Rightarrow> prefork \<Rightarrow> bool" where
  "prefork_ok listenfd s \<longleftrightarrow>
     length (kids s) = length (cptr s) \<and>
     (\<forall>i < length (cptr s). kid_ok (child_status (cptr s ! i)) (kids s ! i)) \<and>
     navail s = int (how_many (\<lambda>c. child_status c = 0) (cptr s)) \<and>
     (\<forall>i < length (cptr s). child_count (cptr s ! i) = int (how_many (\<lambda>p. fst p = i) (passed s))) \<and>
     mset (map snd (passed s)) = mset (finished s) + in_progress (kids s)"

lemma prefork_okD:
  assumes "prefork_ok listenfd s"
  shows pf_length: "length (kids s) = length (cptr s)"
    and pf_kid: "i < length (cptr s) \<Longrightarrow> kid_ok (child_status (cptr s ! i)) (kids s ! i)"
    and pf_navail: "navail s = int (how_many (\<lambda>c. child_status c = 0) (cptr s))"
    and pf_count: "i < length (cptr s) \<Longrightarrow> child_count (cptr s ! i) = int (how_many (\<lambda>p. fst p = i) (passed s))"
    and pf_passed: "mset (map snd (passed s)) = mset (finished s) + in_progress (kids s)"
  using assms unfolding prefork_ok_def by blast+

lemma in_progress_update:
  "i < length ks \<Longrightarrow> in_progress (ks[i := k]) + mset (kid_conn (ks ! i)) = in_progress ks + mset (kid_conn k)"
  unfolding in_progress_def
proof (induction ks arbitrary: i)
  case (Cons y ys)
  show ?case
  proof (cases i)
    case (Suc j)
    with Cons.IH [of j] Cons.prems show ?thesis by (simp add: ac_simps)
  qed simp
qed simp

lemma first_ready: "how_many (\<lambda>c. child_status c = 0) cs > 0 \<Longrightarrow>
    first_ready cs < length cs \<and> child_status (cs ! first_ready cs) = 0"
  by (induction cs) (auto split: if_splits)

lemma prefork_ok_init: "prefork_init listenfd pps = Val s \<Longrightarrow> prefork_ok listenfd s"
proof -
  assume "prefork_init listenfd pps = Val s"
  then have s: "s = \<lparr>cptr = map child_make pps, navail = int (length pps), masterset = insert listenfd (set (map snd pps)),
      kids = replicate (length pps) Idle, passed = [], finished = []\<rparr>"
    by (auto simp: prefork_init_def split: if_splits)
  have "how_many (\<lambda>c. child_status c = 0) (map child_make pps) = length pps"
    by (induction pps) (simp_all add: child_make_def)
  moreover have "in_progress (replicate n Idle) = {#}" for n by (induction n) (simp_all add: in_progress_def)
  ultimately show ?thesis by (simp add: prefork_ok_def s child_make_def)
qed

lemma pass_connection_ok:
  assumes ok: "prefork_ok listenfd s" and "0 \<le> fd" and "navail s > 0"
  shows "\<exists>s' i. pass_connection fd s = Ret s' \<and> prefork_ok listenfd s' \<and> i < length (cptr s) \<and> kids s ! i = Idle \<and>
    length (cptr s') = length (cptr s) \<and> kids s' = (kids s)[i := Given (write_fd [CHR 0x00] fd)] \<and>
    map child_pipefd (cptr s') = map child_pipefd (cptr s) \<and> masterset s' = masterset s"
proof -
  define i where "i = first_ready (cptr s)"
  have i: "i < length (cptr s)" "child_status (cptr s ! i) = 0"
    using first_ready [of "cptr s"] assms(3) pf_navail [OF ok] by (simp_all add: i_def)
  have idle: "kids s ! i = Idle" using pf_kid [OF ok i(1)] i(2) by (cases "kids s ! i") auto
  define c where "c = (cptr s ! i)\<lparr>child_status := 1, child_count := child_count (cptr s ! i) + 1\<rparr>"
  define s' where "s' = s\<lparr>cptr := (cptr s)[i := c], navail := navail s - 1,
    kids := (kids s)[i := Given (write_fd [CHR 0x00] fd)], passed := passed s @ [(i, fd)]\<rparr>"
  have run: "pass_connection fd s = Ret s'"
    using assms(2) i(1) by (simp add: pass_connection_def Let_def s'_def c_def flip: i_def)
  have len: "length (kids s) = length (cptr s)" using pf_length [OF ok] .
  have "prefork_ok listenfd s'"
    unfolding prefork_ok_def
  proof (intro conjI allI impI)
    show "length (kids s') = length (cptr s')" using len by (simp add: s'_def)
    show "kid_ok (child_status (cptr s' ! j)) (kids s' ! j)" if "j < length (cptr s')" for j
      using that pf_kid [OF ok, of j] len assms(2) by (auto simp: s'_def c_def nth_update_cases write_fd_def)
    show "navail s' = int (how_many (\<lambda>c. child_status c = 0) (cptr s'))"
      using how_many_update [OF i(1), of "\<lambda>c. child_status c = 0" c] i(2) pf_navail [OF ok] by (simp add: s'_def c_def)
    show "child_count (cptr s' ! j) = int (how_many (\<lambda>p. fst p = j) (passed s'))" if "j < length (cptr s')" for j
      using that pf_count [OF ok, of j] by (auto simp: s'_def c_def nth_update_cases)
    show "mset (map snd (passed s')) = mset (finished s') + in_progress (kids s')"
      using in_progress_update [of i "kids s" "Given (write_fd [CHR 0x00] fd)"] i(1) len idle pf_passed [OF ok]
      by (simp add: s'_def write_fd_def)
  qed
  moreover have "map child_pipefd (cptr s') = map child_pipefd (cptr s)"
    using i(1) by (auto simp: s'_def c_def list_eq_iff_nth_eq nth_update_cases)
  ultimately show ?thesis using run i(1) idle by (intro exI [of _ s'] exI [of _ i]) (auto simp: s'_def)
qed

lemma collect_one_ok:
  assumes ok: "prefork_ok listenfd s" and i: "i < length (cptr s)" "kids s ! i = Told"
  shows "prefork_ok listenfd (s\<lparr>cptr := (cptr s)[i := (cptr s ! i)\<lparr>child_status := 0\<rparr>], navail := navail s + 1,
    kids := (kids s)[i := Idle]\<rparr>)" (is "prefork_ok _ ?s")
  unfolding prefork_ok_def
proof (intro conjI allI impI)
  have len: "length (kids s) = length (cptr s)" using pf_length [OF ok] .
  have st: "child_status (cptr s ! i) = 1" using pf_kid [OF ok i(1)] i(2) by simp
  show "length (kids ?s) = length (cptr ?s)" using len by simp
  show "kid_ok (child_status (cptr ?s ! j)) (kids ?s ! j)" if "j < length (cptr ?s)" for j
    using that pf_kid [OF ok, of j] len by (auto simp: nth_update_cases)
  show "navail ?s = int (how_many (\<lambda>c. child_status c = 0) (cptr ?s))"
    using how_many_update [OF i(1), of "\<lambda>c. child_status c = 0" "(cptr s ! i)\<lparr>child_status := 0\<rparr>"] st pf_navail [OF ok] by simp
  show "child_count (cptr ?s ! j) = int (how_many (\<lambda>p. fst p = j) (passed ?s))" if "j < length (cptr ?s)" for j
    using that pf_count [OF ok, of j] by (auto simp: nth_update_cases)
  show "mset (map snd (passed ?s)) = mset (finished ?s) + in_progress (kids ?s)"
    using in_progress_update [of i "kids s" Idle] i len pf_passed [OF ok] by simp
qed

lemma collect_ready_ok:
  assumes "prefork_ok listenfd s" and "distinct is"
    and "\<forall>i \<in> set is. i < length (cptr s) \<and> (child_pipefd (cptr s ! i) \<in> rset \<longrightarrow> kids s ! i = Told)"
  shows "\<exists>s'. collect_ready rset is nsel s = Ret s' \<and> prefork_ok listenfd s' \<and> length (cptr s') = length (cptr s)"
  using assms
proof (induction "is" arbitrary: nsel s)
  case (Cons i "is")
  define s1 where "s1 = s\<lparr>cptr := (cptr s)[i := (cptr s ! i)\<lparr>child_status := 0\<rparr>], navail := navail s + 1, kids := (kids s)[i := Idle]\<rparr>"
  show ?case
  proof (cases "child_pipefd (cptr s ! i) \<in> rset")
    case True
    then have i: "i < length (cptr s)" "kids s ! i = Told" using Cons.prems(3) by auto
    have ok: "prefork_ok listenfd s1" unfolding s1_def by (rule collect_one_ok [OF Cons.prems(1) i])
    have rest: "\<forall>j \<in> set is. j < length (cptr s1) \<and> (child_pipefd (cptr s1 ! j) \<in> rset \<longrightarrow> kids s1 ! j = Told)"
      using Cons.prems(2,3) by (auto simp: s1_def nth_list_update)
    have "length (cptr s1) = length (cptr s)" by (simp add: s1_def)
    then show ?thesis using Cons.IH [OF ok _ rest, of "nsel - 1"] Cons.prems(2) ok True i
      by (auto simp: Let_def simp flip: s1_def)
  next
    case False
    then show ?thesis using Cons.IH [of s nsel] Cons.prems by auto
  qed
qed simp

lemma parent_iter_ok:
  assumes ok: "prefork_ok listenfd s" and kernel: "kernel_ok listenfd env s"
  shows "\<exists>s'. parent_iter listenfd env s = Ret s' \<and> prefork_ok listenfd s'"
proof -
  define rset where "rset = ready env \<inter> (if navail s \<le> 0 then masterset s - {listenfd} else masterset s)"
  have told: "kids s ! i = Told" if "i < length (cptr s)" "child_pipefd (cptr s ! i) \<in> rset" for i
    using kernel that pf_kid [OF ok that(1)] by (auto simp: kernel_ok_def list_all_iff rset_def)
  show ?thesis
  proof (cases "listenfd \<in> rset")
    case True
    then have avail: "navail s > 0" by (auto simp: rset_def split: if_splits)
    have fd: "0 \<le> connfd env" using kernel by (simp add: kernel_ok_def)
    from pass_connection_ok [OF ok fd avail] obtain s1 i where s1: "pass_connection (connfd env) s = Ret s1"
      "prefork_ok listenfd s1" "i < length (cptr s)" "kids s ! i = Idle" "length (cptr s1) = length (cptr s)"
      "kids s1 = (kids s)[i := Given (write_fd [CHR 0x00] (connfd env))]" "map child_pipefd (cptr s1) = map child_pipefd (cptr s)"
      by blast
    have pipe: "child_pipefd (cptr s1 ! j) = child_pipefd (cptr s ! j)" if "j < length (cptr s)" for j
      using that s1(5,7) by (metis nth_map)
    have "\<forall>j \<in> set [0..<length (cptr s1)]. j < length (cptr s1) \<and> (child_pipefd (cptr s1 ! j) \<in> rset \<longrightarrow> kids s1 ! j = Told)"
      using told s1(3-6) pipe pf_length [OF ok] by (auto simp: nth_list_update)
    from collect_ready_ok [OF s1(2) distinct_upt this] show ?thesis
      using True s1(1,2) by (simp add: parent_iter_def Let_def flip: rset_def) blast
  next
    case False
    from collect_ready_ok [OF ok distinct_upt, of 0 "length (cptr s)" rset] told show ?thesis
      using False by (auto simp: parent_iter_def Let_def simp flip: rset_def)
  qed
qed

lemma child_step_ok:
  assumes ok: "prefork_ok listenfd s" and step: "child_step i s = Some s'"
  shows "prefork_ok listenfd s'"
proof -
  have i: "i < length (kids s)" using step by (auto simp: child_step_def split: if_splits)
  note len = pf_length [OF ok]
  obtain k where k: "s' = s\<lparr>kids := (kids s)[i := k], finished := finished s @ (if k = Told then kid_conn (kids s ! i) else [])\<rparr>"
    "kid_ok (child_status (cptr s ! i)) k" "k \<noteq> Told \<Longrightarrow> kid_conn k = kid_conn (kids s ! i)"
  proof (cases "kids s ! i")
    case (Given m)
    then obtain fd where fd: "0 \<le> fd" "m = write_fd [CHR 0x00] fd" "child_status (cptr s ! i) = 1"
      using pf_kid [OF ok, of i] i len by (auto split: prod.splits option.splits)
    then have "read_fd (Some m) 1 = Ret (1, [CHR 0x00], Some fd)" by (simp add: read_fd_write_fd)
    then show ?thesis using that [of "Serving fd"] Given step i fd by (simp add: child_step_def write_fd_def)
  next
    case (Serving fd)
    then show ?thesis using that [of Told] step i pf_kid [OF ok, of i] len by (simp add: child_step_def)
  qed (use step i in \<open>simp_all add: child_step_def\<close>)
  show ?thesis unfolding prefork_ok_def
  proof (intro conjI allI impI)
    show "length (kids s') = length (cptr s')" using len by (simp add: k)
    show "kid_ok (child_status (cptr s' ! j)) (kids s' ! j)" if "j < length (cptr s')" for j
      using that pf_kid [OF ok, of j] len k(2) by (auto simp: k(1) nth_update_cases)
    show "mset (map snd (passed s')) = mset (finished s') + in_progress (kids s')"
      using in_progress_update [OF i, of k] pf_passed [OF ok] k(3) by (auto simp: k(1) ac_simps)
  qed (use pf_navail [OF ok] pf_count [OF ok] in \<open>simp_all add: k(1)\<close>)
qed

lemma prefork_reach_ok: "prefork_reach listenfd pps s \<Longrightarrow> prefork_ok listenfd s"
proof (induction rule: prefork_reach.induct)
  case (parent_moves s env s')
  then show ?case using parent_iter_ok [of listenfd s env] by auto
qed (auto intro: prefork_ok_init child_step_ok)

section \<open>Properties\<close>



end
