(* ===== verification/Net_Connect.thy ===== *)
theory Net_Connect
  imports Getaddrinfo
begin

text \<open>
  Connecting by name (\<^verbatim>\<open>unpv13e/lib\<close>): \<^verbatim>\<open>tcp_connect\<close>, \<^verbatim>\<open>tcp_listen\<close>, \<^verbatim>\<open>udp_client\<close>, \<^verbatim>\<open>udp_connect\<close>, \<^verbatim>\<open>udp_server\<close> and \<^verbatim>\<open>host_serv\<close>, which all call
  \<^verbatim>\<open>getaddrinfo\<close> and try the addresses it finds, and the two ways to connect with a time limit, \<^verbatim>\<open>connect_nonb\<close> and
  \<^verbatim>\<open>connect_timeo\<close>. What the kernel answers to attempt \<open>i\<close> is the record \<open>net\<close>. A result has the socket, the structure whose
  address it was connected or bound to, the descriptors closed on the way, and the state of memory. \<^verbatim>\<open>close\<close> does not fail.
\<close>

section \<open>Trying the addresses\<close>

record net =
  socket_ans :: "nat \<Rightarrow> int"
  setsockopt_ok :: "nat \<Rightarrow> bool"
  attach_ok :: "nat \<Rightarrow> bool"
  listen_ok :: bool

record net_result =
  sockfd :: int
  peer :: addrinfo
  closed_fds :: "int list"
  memory :: gst

definition net_hints :: "u32 \<Rightarrow> int \<Rightarrow> addrinfo" where
  "net_hints fl socktype = no_hints\<lparr>ai_flags := fl, ai_socktype := socktype\<rparr>"

text \<open>The loop of four of the functions: \<open>attach_ok\<close> is the answer of \<^verbatim>\<open>connect\<close> or of \<^verbatim>\<open>bind\<close>; \<open>reuse\<close> says that \<^verbatim>\<open>Setsockopt\<close> is called, which ends
  the process when it fails.\<close>

fun try_each :: "bool \<Rightarrow> net \<Rightarrow> nat \<Rightarrow> addrinfo list \<Rightarrow> int list \<Rightarrow> ((int \<times> addrinfo) option \<times> int list) run" where
  "try_each reuse net i [] closed = Ret (None, closed)"
| "try_each reuse net i (ai # ais) closed =
     (if socket_ans net i < 0 then try_each reuse net (i + 1) ais closed
      else if reuse \<and> \<not> setsockopt_ok net i then Exit 1
      else if attach_ok net i then Ret (Some (socket_ans net i, ai), closed)
      else try_each reuse net (i + 1) ais (closed @ [socket_ans net i]))"

definition by_name ::
    "u32 \<Rightarrow> int \<Rightarrow> bool \<Rightarrow> resolver \<Rightarrow> net \<Rightarrow> char list option \<Rightarrow> char list option \<Rightarrow> gst \<Rightarrow> net_result run c_value" where
  "by_name fl socktype reuse res net name serv g =
     (case getaddrinfo res name serv (Some (net_hints fl socktype)) g of
        Undefined \<Rightarrow> UB
      | Quits \<Rightarrow> Val (Exit 1)
      | Failed e g' \<Rightarrow> Val (Exit 1)
      | Found ais g' \<Rightarrow>
          if ais = [] then UB
          else
            case try_each reuse net 0 ais [] of
              Exit c \<Rightarrow> Val (Exit c)
            | Ret (None, closed) \<Rightarrow> Val (Exit 1)
            | Ret (Some (fd, ai), closed) \<Rightarrow>
                if reuse \<and> \<not> listen_ok net then Val (Exit 1)
                else Val (Ret \<lparr>sockfd = fd, peer = ai, closed_fds = closed, memory = freeaddrinfo ais g'\<rparr>))"

definition tcp_connect :: "resolver \<Rightarrow> net \<Rightarrow> char list option \<Rightarrow> char list option \<Rightarrow> gst \<Rightarrow> net_result run c_value" where
  "tcp_connect = by_name 0 SOCK_STREAM False"

definition tcp_listen :: "resolver \<Rightarrow> net \<Rightarrow> char list option \<Rightarrow> char list option \<Rightarrow> gst \<Rightarrow> net_result run c_value" where
  "tcp_listen = by_name AI_PASSIVE SOCK_STREAM True"

definition udp_connect :: "resolver \<Rightarrow> net \<Rightarrow> char list option \<Rightarrow> char list option \<Rightarrow> gst \<Rightarrow> net_result run c_value" where
  "udp_connect = by_name 0 SOCK_DGRAM False"

definition udp_server :: "resolver \<Rightarrow> net \<Rightarrow> char list option \<Rightarrow> char list option \<Rightarrow> gst \<Rightarrow> net_result run c_value" where
  "udp_server = by_name AI_PASSIVE SOCK_DGRAM False"

text \<open>\<^verbatim>\<open>udp_client\<close> only wants a socket; it returns a copy of the address, for which it allocates a block.\<close>

fun first_socket :: "net \<Rightarrow> nat \<Rightarrow> addrinfo list \<Rightarrow> (int \<times> addrinfo) option" where
  "first_socket net i [] = None"
| "first_socket net i (ai # ais) =
     (if socket_ans net i \<ge> 0 then Some (socket_ans net i, ai) else first_socket net (i + 1) ais)"

definition udp_client ::
    "resolver \<Rightarrow> net \<Rightarrow> char list option \<Rightarrow> char list option \<Rightarrow> gst \<Rightarrow> (net_result \<times> sockaddr option \<times> nat) run c_value" where
  "udp_client res net name serv g =
     (case getaddrinfo res name serv (Some (net_hints 0 SOCK_DGRAM)) g of
        Undefined \<Rightarrow> UB
      | Quits \<Rightarrow> Val (Exit 1)
      | Failed e g' \<Rightarrow> Val (Exit 1)
      | Found ais g' \<Rightarrow>
          if ais = [] then UB
          else
            case first_socket net 0 ais of
              None \<Rightarrow> Val (Exit 1)
            | Some (fd, ai) \<Rightarrow>
                (case calloc g' of
                   None \<Rightarrow> Val (Exit 1)
                 | Some g'' \<Rightarrow>
                     Val (Ret (\<lparr>sockfd = fd, peer = ai, closed_fds = [], memory = freeaddrinfo ais g''\<rparr>, ai_addr ai, ai_addrlen ai))))"

definition host_serv :: "resolver \<Rightarrow> char list option \<Rightarrow> char list option \<Rightarrow> int \<Rightarrow> int \<Rightarrow> gst \<Rightarrow> gai_result" where
  "host_serv res name serv fam socktype g =
     getaddrinfo res name serv (Some ((net_hints AI_CANONNAME socktype)\<lparr>ai_family := fam\<rparr>)) g"

section \<open>Correctness\<close>

text \<open>The first attempt that succeeds, and the sockets of the attempts before it.\<close>

definition succeeds :: "net \<Rightarrow> nat \<Rightarrow> bool" where
  "succeeds net i \<longleftrightarrow> 0 \<le> socket_ans net i \<and> attach_ok net i"

definition opened :: "net \<Rightarrow> nat \<Rightarrow> nat \<Rightarrow> int list" where
  "opened net i k = filter (\<lambda>fd. 0 \<le> fd) (map (socket_ans net) [i..<i + k])"

lemma try_each_first:
  assumes "k < length ais" and "\<forall>j < k. \<not> succeeds net (i + j)" and "succeeds net (i + k)"
    and "reuse \<Longrightarrow> \<forall>j \<le> k. setsockopt_ok net (i + j)"
  shows "try_each reuse net i ais closed = Ret (Some (socket_ans net (i + k), ais ! k), closed @ opened net i k)"
  using assms
proof (induction ais arbitrary: i k closed)
  case (Cons ai ais)
  show ?case
  proof (cases k)
    case 0
    with Cons.prems show ?thesis by (auto simp: succeeds_def opened_def)
  next
    case (Suc k')
    have rest: "\<forall>j < k'. \<not> succeeds net (i + 1 + j)" "succeeds net (i + 1 + k')" "reuse \<Longrightarrow> \<forall>j \<le> k'. setsockopt_ok net (i + 1 + j)"
    proof -
      show "\<forall>j < k'. \<not> succeeds net (i + 1 + j)"
      proof (intro allI impI)
        show "\<not> succeeds net (i + 1 + j)" if "j < k'" for j using Cons.prems(2) [rule_format, of "Suc j"] Suc that by simp
      qed
      show "succeeds net (i + 1 + k')" using Cons.prems(3) Suc by simp
      show "\<forall>j \<le> k'. setsockopt_ok net (i + 1 + j)" if reuse
      proof (intro allI impI)
        show "setsockopt_ok net (i + 1 + j)" if "j \<le> k'" for j
          using Cons.prems(4) [OF \<open>reuse\<close>, rule_format, of "Suc j"] Suc that by simp
      qed
    qed
    have op: "opened net i k = (if 0 \<le> socket_ans net i then [socket_ans net i] else []) @ opened net (i + 1) k'"
      using Suc by (simp add: opened_def upt_conv_Cons del: upt_Suc)
    have "\<not> succeeds net i" using Cons.prems(2) [rule_format, of 0] Suc by simp
    moreover have "setsockopt_ok net i" if reuse using Cons.prems(4) [OF that, rule_format, of 0] by simp
    ultimately show ?thesis
      using Cons.IH [OF _ rest] Cons.prems(1) Suc op by (auto simp: succeeds_def)
  qed
qed simp

lemma try_each_none:
  assumes "\<forall>j < length ais. \<not> succeeds net (i + j)"
  shows "\<exists>c. try_each reuse net i ais closed = Ret (None, c) \<or> try_each reuse net i ais closed = Exit 1"
  using assms
proof (induction ais arbitrary: i closed)
  case (Cons ai ais)
  have "\<not> succeeds net (i + 1 + j)" if "j < length ais" for j using Cons.prems [rule_format, of "Suc j"] that by simp
  moreover have "\<not> succeeds net i" using Cons.prems [rule_format, of 0] by simp
  ultimately show ?case using Cons.IH [of "i + 1"] by (auto simp: succeeds_def)
qed simp

lemma net_hints_ok: "fl = 0 \<or> fl = AI_PASSIVE \<Longrightarrow> t = SOCK_STREAM \<or> t = SOCK_DGRAM \<Longrightarrow> hints_ok (net_hints fl t)"
  by (auto simp: hints_ok_def net_hints_def no_hints_def inet_socktype_def)

lemma net_hints_sel [simp]:
  "ai_family (net_hints fl t) = AF_UNSPEC" "ai_socktype (net_hints fl t) = t" "ai_protocol (net_hints fl t) = 0"
  by (simp_all add: net_hints_def no_hints_def)

text \<open>With one port per address, the structures are one per address, in order.\<close>

definition host_endpoints :: "resolver \<Rightarrow> int \<Rightarrow> u16 \<Rightarrow> char list \<Rightarrow> endpoint list" where
  "host_endpoints res t p name =
     map (\<lambda>(fam, a). (fam, t, 0, Some (net_addr fam p a))) (host_addrs res AF_UNSPEC name)"

lemma getaddrinfo_stream:
  assumes "resolver_faithful res" and "symbolic res name" and "fl = 0 \<or> fl = AI_PASSIVE" and "t = SOCK_STREAM \<or> t = SOCK_DGRAM"
    and "host_addrs res AF_UNSPEC name \<noteq> []" and "4 * length (host_addrs res AF_UNSPEC name) + 3 \<le> left g"
    and "serv \<noteq> []" and "service_ports res t serv = [(t, p)]"
  shows "\<exists>ais g'. getaddrinfo res (Some name) (Some serv) (Some (net_hints fl t)) g = Found ais g' \<and>
    map endpoint_of ais = host_endpoints res t p name"
proof -
  have "concat (map (\<lambda>(fam, a). [(fam, t, 0, Some (net_addr fam p a))]) xs) =
      map (\<lambda>(fam, a). (fam, t, 0 :: int, Some (net_addr fam p a))) xs" for xs
    by (induction xs) auto
  then have "endpoints res (net_hints fl t) (Some serv) (host_addrs res AF_UNSPEC name) = host_endpoints res t p name"
    using assms(7,8) by (simp add: endpoints_def host_endpoints_def absent_def)
  then show ?thesis
    using getaddrinfo_named [OF assms(1,2) net_hints_ok [OF assms(3,4)], of g "Some serv"] assms(5-8) by auto
qed

lemma by_name_first:
  assumes res: "resolver_faithful res" "resolver_ok res" and name: "symbolic res name"
    and fl: "fl = 0 \<or> fl = AI_PASSIVE" "t = SOCK_STREAM \<or> t = SOCK_DGRAM"
    and host: "host_addrs res AF_UNSPEC name \<noteq> []" "4 * length (host_addrs res AF_UNSPEC name) + 3 \<le> left g"
    and serv: "serv \<noteq> []" "service_ports res t serv = [(t, p)]"
    and ok: "reuse \<Longrightarrow> (\<forall>j. setsockopt_ok net j) \<and> listen_ok net"
  shows "case find (succeeds net) [0..<length (host_addrs res AF_UNSPEC name)] of
      None \<Rightarrow> by_name fl t reuse res net (Some name) (Some serv) g = Val (Exit 1)
    | Some k \<Rightarrow> \<exists>r. by_name fl t reuse res net (Some name) (Some serv) g = Val (Ret r) \<and> sockfd r = socket_ans net k \<and>
        endpoint_of (peer r) = host_endpoints res t p name ! k \<and> closed_fds r = opened net 0 k \<and> live (memory r) = live g"
proof -
  from getaddrinfo_stream [OF res(1) name fl host serv] obtain ais g' where
    found: "getaddrinfo res (Some name) (Some serv) (Some (net_hints fl t)) g = Found ais g'"
    and ais: "map endpoint_of ais = host_endpoints res t p name" by blast
  have len: "length ais = length (host_addrs res AF_UNSPEC name)"
    using arg_cong [OF ais, of length] by (simp add: host_endpoints_def)
  then have "ais \<noteq> []" using host(1) by auto
  have "\<not> unix_names (Some name)" using name by (simp add: symbolic_def)
  then have mem: "live (freeaddrinfo ais g') = live g"
    using getaddrinfo_result_ok [OF res(2), of "Some name" "Some (net_hints fl t)" g "Some serv"] found
    by (simp add: result_ok_def freeaddrinfo_blocks)
  show ?thesis
  proof (cases "find (succeeds net) [0..<length ais]")
    case None
    then have "\<forall>j < length ais. \<not> succeeds net (0 + j)" by (auto simp: find_None_iff)
    from try_each_none [OF this, of reuse "[]"] show ?thesis
      using found None \<open>ais \<noteq> []\<close> by (auto simp: by_name_def len)
  next
    case (Some k)
    then have k: "k < length ais" "\<forall>j < k. \<not> succeeds net (0 + j)" "succeeds net (0 + k)"
      by (auto simp: find_Some_iff)
    have "try_each reuse net 0 ais [] = Ret (Some (socket_ans net k, ais ! k), opened net 0 k)"
      using try_each_first [OF k, of reuse "[]"] ok by simp
    moreover have "endpoint_of (ais ! k) = host_endpoints res t p name ! k"
      using k(1) by (simp flip: ais)
    ultimately show ?thesis using found Some \<open>ais \<noteq> []\<close> mem ok by (auto simp: by_name_def len)
  qed
qed

section \<open>Connecting with a time limit\<close>

text \<open>
  \<^verbatim>\<open>connect_nonb\<close>: the answers of \<^verbatim>\<open>connect\<close> (\<open>None\<close> for success), of \<^verbatim>\<open>select\<close> (a failure, the time out, or whether the socket is in
  each of the two sets) and of \<^verbatim>\<open>getsockopt\<close> (\<open>None\<close> when it fails, else the pending error). The result says besides whether the
  socket was closed and whether its flags were restored.
\<close>

datatype select_ans = SelectFails | SelectTimesOut | SelectSets bool bool

record limited =
  ret :: int
  errno_left :: "errno option"
  was_closed :: bool
  restored :: bool

definition connect_nonb :: "errno option \<Rightarrow> select_ans \<Rightarrow> errno option option \<Rightarrow> limited run" where
  "connect_nonb conn sel pending =
     (case conn of
        None \<Rightarrow> Ret \<lparr>ret = 0, errno_left = None, was_closed = False, restored = True\<rparr>
      | Some e \<Rightarrow>
          if e \<noteq> EINPROGRESS then Ret \<lparr>ret = -1, errno_left = Some e, was_closed = False, restored = False\<rparr>
          else
            case sel of
              SelectFails \<Rightarrow> Exit 1
            | SelectTimesOut \<Rightarrow> Ret \<lparr>ret = -1, errno_left = Some ETIMEDOUT, was_closed = True, restored = False\<rparr>
            | SelectSets r w \<Rightarrow>
                if r \<or> w then
                  (case pending of
                     None \<Rightarrow> Ret \<lparr>ret = -1, errno_left = None, was_closed = False, restored = False\<rparr>
                   | Some None \<Rightarrow> Ret \<lparr>ret = 0, errno_left = None, was_closed = False, restored = True\<rparr>
                   | Some (Some e') \<Rightarrow> Ret \<lparr>ret = -1, errno_left = Some e', was_closed = True, restored = True\<rparr>)
                else Exit 1)"

text \<open>\<^verbatim>\<open>connect_timeo\<close>: the alarm interrupts \<^verbatim>\<open>connect\<close>; it is turned off and the handler is restored in any case.\<close>

definition connect_timeo :: "errno option \<Rightarrow> limited" where
  "connect_timeo conn =
     (case conn of
        None \<Rightarrow> \<lparr>ret = 0, errno_left = None, was_closed = False, restored = True\<rparr>
      | Some e \<Rightarrow>
          \<lparr>ret = -1, errno_left = Some (if e = EINTR then ETIMEDOUT else e), was_closed = True, restored = True\<rparr>)"

text \<open>After a failure the caller of \<^verbatim>\<open>connect_timeo\<close> knows that the socket is closed. The caller of \<^verbatim>\<open>connect_nonb\<close> does not: a connection that is
  refused at once leaves the socket open, one that is refused later does not.\<close>

lemma connect_timeo_closes: "ret (connect_timeo conn) = -1 \<longleftrightarrow> was_closed (connect_timeo conn)"
  by (simp add: connect_timeo_def split: option.split)

lemma connect_nonb_ambiguous:
  assumes "connect_nonb (Some e) sel1 p1 = Ret r1" and "e \<noteq> EINPROGRESS"
    and "connect_nonb (Some EINPROGRESS) (SelectSets True True) (Some (Some e)) = Ret r2"
  shows "ret r1 = ret r2 \<and> errno_left r1 = errno_left r2 \<and> \<not> was_closed r1 \<and> was_closed r2"
  using assms by (auto simp: connect_nonb_def)

section \<open>Properties\<close>

text \<open>C8. \<^verbatim>\<open>tcp_connect\<close> on a host name tries the addresses of the host in order, IPv6 first, at the port of the service, and returns
  the socket of the first attempt in which \<^verbatim>\<open>socket\<close> and \<^verbatim>\<open>connect\<close> succeed; every socket opened before has been closed and
  the list of addresses has been freed. If no attempt succeeds, the process ends.\<close>

theorem tcp_connect_first_address:
  assumes "resolver_faithful res" and "resolver_ok res" and "symbolic res name" and "serv \<noteq> []"
    and "host_addrs res AF_UNSPEC name \<noteq> []" and "4 * length (host_addrs res AF_UNSPEC name) + 3 \<le> left g"
    and "first_port res SOCK_STREAM serv = Some p"
  shows "case find (succeeds net) [0..<length (host_addrs res AF_UNSPEC name)] of
      None \<Rightarrow> tcp_connect res net (Some name) (Some serv) g = Val (Exit 1)
    | Some k \<Rightarrow> \<exists>r. tcp_connect res net (Some name) (Some serv) g = Val (Ret r) \<and> sockfd r = socket_ans net k \<and>
        endpoint_of (peer r) = host_endpoints res SOCK_STREAM p name ! k \<and> closed_fds r = opened net 0 k \<and>
        live (memory r) = live g"
proof -
  have "service_ports res SOCK_STREAM serv = [(SOCK_STREAM, p)]"
    using assms(7) by (auto simp: service_ports_def second_port_def)
  from by_name_first [OF assms(1-3) _ _ assms(5,6,4) this, of 0 False net] show ?thesis unfolding tcp_connect_def by simp
qed

theorem tcp_connect_first_address_witness:
  "\<exists>r. tcp_connect bsdi \<lparr>socket_ans = (\<lambda>i. int i + 3), setsockopt_ok = (\<lambda>_. True), attach_ok = (\<lambda>i. i = 1), listen_ok = True\<rparr>
       (Some ''bsdi'') (Some ''daytime'') \<lparr>left = 20, live = 0, unlinked = []\<rparr> = Val (Ret r) \<and>
     sockfd r = 4 \<and> endpoint_of (peer r) = (AF_INET, SOCK_STREAM, 0, Some (Sin 13 [206, 62, 226, 66])) \<and> closed_fds r = [3]"
    (is "\<exists>r. tcp_connect bsdi ?net _ _ ?g = _ \<and> _")
proof -
  have "inet_pton4 [9, 9, 9, 9] ''bsdi'' = None" by (simp add: inet_pton4_def digit_of_def)
  moreover have "inet_pton6 [9, 9, 9, 9] ''bsdi'' = None" by (simp add: inet_pton6_def xdigit_of_def)
  ultimately have sym: "symbolic bsdi ''bsdi''" by (simp add: symbolic_def unix_names_def bsdi_def)
  have res: "resolver_faithful bsdi" "resolver_ok bsdi" by (auto simp: resolver_faithful_def resolver_ok_def bsdi_def net_family_def)
  have addrs: "host_addrs bsdi AF_UNSPEC ''bsdi'' = [(AF_INET, [206, 62, 226, 35]), (AF_INET, [206, 62, 226, 66])]"
    by (simp add: host_addrs_def bsdi_def addrs_of_def)
  have port: "first_port bsdi SOCK_STREAM ''daytime'' = Some 13"
    by (simp add: first_port_def bsdi_def is_digit_def digit_of_def)
  have "find (succeeds ?net) [0..<length (host_addrs bsdi AF_UNSPEC ''bsdi'')] = Some 1"
    by (simp add: addrs succeeds_def upt_conv_Cons)
  then show ?thesis
    using tcp_connect_first_address [OF res sym, of "''daytime''" ?g 13 ?net] port
    by (auto simp: addrs host_endpoints_def net_addr_def opened_def)
qed

end
