(* ===== verification/Sock_Addr.thy ===== *)
theory Sock_Addr
  imports Getaddrinfo
begin

text \<open>
  The protocol-independent operations on socket addresses of \<^verbatim>\<open>unpv13e/lib\<close> (\<^verbatim>\<open>sock_cmp_addr.c\<close>, \<^verbatim>\<open>sock_cmp_port.c\<close>, \<^verbatim>\<open>sock_get_port.c\<close>,
  \<^verbatim>\<open>sock_set_port.c\<close>, \<^verbatim>\<open>sock_set_addr.c\<close>, \<^verbatim>\<open>sock_set_wild.c\<close>, \<^verbatim>\<open>sock_ntop.c\<close>, \<^verbatim>\<open>sock_ntop_host.c\<close>, \<^verbatim>\<open>sock_bind_wild.c\<close>, \<^verbatim>\<open>sockfd_to_family.c\<close>), compiled with
  \<^verbatim>\<open>IPV6\<close>, over the socket addresses of \<open>Getaddrinfo\<close>. A port is its number; the byte order of the field does not matter,
  because ports are only copied, compared with each other and with 0, and converted for printing.
\<close>

section \<open>Fields\<close>

fun sa_family :: "sockaddr \<Rightarrow> int" where
  "sa_family (Sin _ _) = AF_INET"
| "sa_family (Sin6 _ _) = AF_INET6"
| "sa_family (Sun _) = AF_LOCAL"

fun memcmp :: "nat list \<Rightarrow> nat list \<Rightarrow> int" where
  "memcmp (x # xs) (y # ys) = (if x = y then memcmp xs ys else int x - int y)"
| "memcmp _ _ = 0"

fun strcmp :: "nat list \<Rightarrow> nat list \<Rightarrow> int" where
  "strcmp [] [] = 0"
| "strcmp (x # xs) [] = int x"
| "strcmp [] (y # ys) = - int y"
| "strcmp (x # xs) (y # ys) = (if x = y then strcmp xs ys else int x - int y)"

fun sock_cmp_addr :: "sockaddr \<Rightarrow> sockaddr \<Rightarrow> int" where
  "sock_cmp_addr (Sin _ a) (Sin _ b) = memcmp (take 4 a) (take 4 b)"
| "sock_cmp_addr (Sin6 _ a) (Sin6 _ b) = memcmp (take 16 a) (take 16 b)"
| "sock_cmp_addr (Sun a) (Sun b) = strcmp a b"
| "sock_cmp_addr _ _ = -1"

fun sock_cmp_port :: "sockaddr \<Rightarrow> sockaddr \<Rightarrow> int" where
  "sock_cmp_port (Sin p _) (Sin q _) = (if p = q then 1 else 0)"
| "sock_cmp_port (Sin6 p _) (Sin6 q _) = (if p = q then 1 else 0)"
| "sock_cmp_port _ _ = -1"

fun sock_get_port :: "sockaddr \<Rightarrow> int" where
  "sock_get_port (Sin p _) = uint p"
| "sock_get_port (Sin6 p _) = uint p"
| "sock_get_port (Sun _) = -1"

fun sock_set_port :: "sockaddr \<Rightarrow> int \<Rightarrow> sockaddr" where
  "sock_set_port (Sin _ a) port = Sin (of_int port) a"
| "sock_set_port (Sin6 _ a) port = Sin6 (of_int port) a"
| "sock_set_port (Sun path) port = Sun path"

fun sock_set_addr :: "sockaddr \<Rightarrow> nat list \<Rightarrow> sockaddr" where
  "sock_set_addr (Sin p _) addr = Sin p (take 4 addr)"
| "sock_set_addr (Sin6 p _) addr = Sin6 p (take 16 addr)"
| "sock_set_addr (Sun path) addr = Sun path"

definition sock_set_wild :: "sockaddr \<Rightarrow> sockaddr" where
  "sock_set_wild sa =
     (case sa of
        Sin _ _ \<Rightarrow> sock_set_addr sa (replicate 4 0)
      | Sin6 _ _ \<Rightarrow> sock_set_addr sa (replicate 16 0)
      | Sun _ \<Rightarrow> sa)"

text \<open>\<open>bound\<close> is what \<^verbatim>\<open>getsockname\<close> answers after \<^verbatim>\<open>bind\<close>, \<open>None\<close> for a failure of either.\<close>

definition sock_bind_wild :: "int \<Rightarrow> sockaddr option \<Rightarrow> int" where
  "sock_bind_wild fam bound =
     (if fam = AF_INET \<or> fam = AF_INET6 then
        (case bound of
           None \<Rightarrow> -1
         | Some sa \<Rightarrow> sock_get_port sa)
      else -1)"

definition sockfd_to_family :: "sockaddr option \<Rightarrow> int" where
  "sockfd_to_family bound = (case bound of None \<Rightarrow> -1 | Some sa \<Rightarrow> sa_family sa)"

section \<open>Text\<close>

text \<open>The array \<^verbatim>\<open>str\<close> has 128 bytes and \<^verbatim>\<open>portstr\<close> has 8; \<open>None\<close> is \<^verbatim>\<open>NULL\<close>.\<close>

fun sock_ntop :: "sockaddr \<Rightarrow> char list option" where
  "sock_ntop (Sin p a) =
     (case inet_ntop AF_INET a 128 of
        Inl _ \<Rightarrow> None
      | Inr str \<Rightarrow> Some (str @ (if p \<noteq> 0 then snprintf_s 8 (CHR '':'' # show_base 10 (unat p)) else [])))"
| "sock_ntop (Sin6 p a) =
     (case inet_ntop AF_INET6 a 127 of
        Inl _ \<Rightarrow> None
      | Inr str \<Rightarrow>
          Some (if p \<noteq> 0 then CHR ''['' # str @ snprintf_s 8 (CHR '']'' # CHR '':'' # show_base 10 (unat p)) else str))"
| "sock_ntop (Sun path) = Some (if path = [] then ''(no pathname bound)'' else snprintf_s 128 (map char_of path))"

fun sock_ntop_host :: "sockaddr \<Rightarrow> char list option" where
  "sock_ntop_host (Sin p a) = (case inet_ntop AF_INET a 128 of Inl _ \<Rightarrow> None | Inr str \<Rightarrow> Some str)"
| "sock_ntop_host (Sin6 p a) = (case inet_ntop AF_INET6 a 128 of Inl _ \<Rightarrow> None | Inr str \<Rightarrow> Some str)"
| "sock_ntop_host (Sun path) = Some (if path = [] then ''(no pathname bound)'' else snprintf_s 128 (map char_of path))"

section \<open>Comparing and setting\<close>

fun inet_sockaddr :: "sockaddr \<Rightarrow> bool" where
  "inet_sockaddr (Sin p a) \<longleftrightarrow> length a = 4 \<and> list_all (\<lambda>b. b < 256) a"
| "inet_sockaddr (Sin6 p a) \<longleftrightarrow> length a = 16 \<and> list_all (\<lambda>b. b < 256) a"
| "inet_sockaddr (Sun path) \<longleftrightarrow> False"

lemma memcmp_zero: "length xs = length ys \<Longrightarrow> memcmp xs ys = 0 \<longleftrightarrow> xs = ys"
  by (induction xs ys rule: memcmp.induct) auto

text \<open>The two comparisons report equality in opposite ways.\<close>

lemma sock_cmp_exact:
  assumes "inet_sockaddr sa" "inet_sockaddr sb"
  shows "sa = sb \<longleftrightarrow> sock_cmp_addr sa sb = 0 \<and> sock_cmp_port sa sb = 1"
  using assms by (cases sa; cases sb) (auto simp: memcmp_zero)

lemma sock_set_get:
  assumes "inet_sockaddr sa" and "0 \<le> port" "port < 65536"
  shows "sock_get_port (sock_set_port sa port) = port \<and> sock_cmp_addr (sock_set_port sa port) sa = 0 \<and>
    inet_sockaddr (sock_set_port sa port) \<and> inet_sockaddr (sock_set_wild sa)"
proof -
  have "uint (of_int port :: u16) = port" using assms(2,3) by (simp add: uint_word_of_int)
  then show ?thesis using assms(1) by (cases sa) (auto simp: sock_set_wild_def memcmp_zero list_all_iff)
qed

section \<open>Reading the text\<close>

lemma pton4_loop_chars:
  "inet_pton4_loop src saw octets tp tmp = Some r \<Longrightarrow> \<forall>c \<in> set src. digit_of c \<noteq> None \<or> c = CHR ''.''"
  by (induction src saw octets tp tmp rule: inet_pton4_loop.induct)
    (auto simp: Let_def split: option.splits if_splits)

lemma digit_xdigit: "digit_of c \<noteq> None \<Longrightarrow> xdigit_of c \<noteq> None"
  by (auto simp: digit_of_def xdigit_of_def Let_def split: if_splits)

definition v6_char :: "char \<Rightarrow> bool" where
  "v6_char c \<longleftrightarrow> xdigit_of c \<noteq> None \<or> c = CHR '':'' \<or> c = CHR ''.''"

lemma pton6_loop_chars:
  "inet_pton6_loop junk src curtok tp tmp colonp val saw = Some st \<Longrightarrow> set src \<subseteq> set curtok \<Longrightarrow> \<forall>c \<in> set src. v6_char c"
proof (induction junk src curtok tp tmp colonp val saw rule: inet_pton6_loop.induct)
  case (2 junk ch src curtok tp tmp colonp val saw)
  show ?case
  proof (cases "ch = CHR ''.'' \<and> xdigit_of ch = None")
    case True
    then obtain bs where "inet_pton4 junk curtok = Some bs"
      using 2(4) by (auto split: if_splits option.splits)
    then have "\<forall>c \<in> set curtok. v6_char c"
      using pton4_loop_chars digit_xdigit unfolding inet_pton4_def v6_char_def by blast
    then show ?thesis using 2(5) by blast
  next
    case False
    then show ?thesis using 2 by (auto simp: v6_char_def Let_def split: option.splits if_splits)
  qed
qed simp

lemma pton6_start:
  assumes "inet_pton6 junk t = Some a"
  shows "\<exists>s st. (s = t \<and> (t = [] \<or> hd t \<noteq> CHR '':'') \<or> t = CHR '':'' # s) \<and>
    inet_pton6_loop junk s s 0 (replicate 16 0) None 0 False = Some st \<and> inet_pton6_finish st = Some a"
proof (cases t)
  case Nil
  then show ?thesis using assms by (auto simp: inet_pton6_def split: option.splits)
next
  case (Cons c s)
  have "\<exists>u st. (if c = CHR '':'' then u = s else u = t) \<and>
      inet_pton6_loop junk u u 0 (replicate 16 0) None 0 False = Some st \<and> inet_pton6_finish st = Some a"
    using assms Cons unfolding inet_pton6_def Let_def by (auto split: option.splits if_splits simp del: inet_pton6_loop.simps split_paired_Ex)
  then show ?thesis using Cons by (cases "c = CHR '':''") auto
qed

lemma pton6_chars: "inet_pton6 junk t = Some a \<Longrightarrow> \<forall>c \<in> set t. v6_char c"
  using pton6_start [of junk t a] pton6_loop_chars [OF _ subset_refl] by (fastforce simp: v6_char_def)

lemma pton6_loop_dot:
  "inet_pton6_loop junk src curtok 0 tmp None val saw = Some st \<Longrightarrow> CHR ''.'' \<in> set (takeWhile (\<lambda>c. c \<noteq> CHR '':'') src) \<Longrightarrow>
     \<exists>tmp' val'. st = (4, tmp', None, val', False)"
proof (induction src arbitrary: val saw)
  case (Cons ch src)
  then show ?case by (auto simp: Let_def split: option.splits if_splits)
qed simp

lemma pton6_dot: "inet_pton6 junk t = Some a \<Longrightarrow> CHR ''.'' \<notin> set (takeWhile (\<lambda>c. c \<noteq> CHR '':'') t)"
proof
  assume t: "inet_pton6 junk t = Some a" "CHR ''.'' \<in> set (takeWhile (\<lambda>c. c \<noteq> CHR '':'') t)"
  then have "\<not> (\<exists>s. t = CHR '':'' # s)" by auto
  then obtain st where st: "inet_pton6_loop junk t t 0 (replicate 16 0) None 0 False = Some st" "inet_pton6_finish st = Some a"
    using pton6_start [OF t(1)] by blast
  from pton6_loop_dot [OF st(1) t(2)] st(2) show False by (auto simp: inet_pton6_finish_def)
qed

text \<open>The text of the address part.\<close>

lemma inet_ntop_4:
  assumes "length a = 4" "list_all (\<lambda>b. b < 256) a"
  shows "inet_ntop AF_INET a 128 = Inr (show_quad a) \<and> inet_pton4 [0, 0, 0, 0] (show_quad a) = Some a \<and>
    CHR ''.'' \<in> set (show_quad a) \<and> (\<forall>c \<in> set (show_quad a). digit_of c \<noteq> None \<or> c = CHR ''.'') \<and> show_quad a \<noteq> []"
proof -
  have a: "\<forall>b\<in>set a. b < 256" using assms(2) by (simp add: list_all_iff)
  have again: "inet_pton4 [0, 0, 0, 0] (show_quad a) = Some a" using inet_pton4_show_quad [OF assms(1) a] by simp
  then have "\<forall>c \<in> set (show_quad a). digit_of c \<noteq> None \<or> c = CHR ''.''" using pton4_loop_chars unfolding inet_pton4_def by blast
  moreover have "inet_ntop AF_INET a 128 = Inr (show_quad a)"
    using length_show_quad [OF assms(1) a] by (simp add: inet_ntop_def inet_ntop4_def Let_def)
  ultimately show ?thesis using again by (simp add: show_quad_def)
qed

lemma inet_ntop_6:
  assumes "length a = 16" "list_all (\<lambda>b. b < 256) a"
  shows "\<exists>t. inet_ntop AF_INET6 a 127 = Inr t \<and> inet_pton6 [0, 0, 0, 0] t = Some a \<and> (\<forall>c \<in> set t. v6_char c) \<and> t \<noteq> [] \<and>
    CHR ''.'' \<notin> set (takeWhile (\<lambda>c. c \<noteq> CHR '':'') t)"
proof -
  have "octets_ok a" using assms by (simp add: octets_ok_def)
  from inet6_reads_back [OF this, of "[0, 0, 0, 0]"] obtain t where
    t: "inet_ntop6_text a = Inr t" "inet_pton6 [0, 0, 0, 0] t = Some a" "length t \<le> 39" by (auto simp: reads_back_def)
  then have "inet_ntop AF_INET6 a 127 = Inr t" by (simp add: inet_ntop_def inet_ntop6_def)
  then show ?thesis using pton6_chars [OF t(2)] pton6_dot [OF t(2)] inet6_text_colon [OF t(1)] t(2) by blast
qed

definition port_text :: "u16 \<Rightarrow> char list" where
  "port_text p = show_base 10 (unat p)"

lemma port_text_inj: "port_text p = port_text q \<Longrightarrow> p = q"
  unfolding port_text_def using dec_value_show [of "unat p"] dec_value_show [of "unat q"] by (metis word_unat_eq_iff)

lemma length_port_text: "length (port_text p) \<le> 5"
proof -
  have "unat p < 65536" using unsigned_less [of p] by simp
  then show ?thesis using length_show_base [of 10 "unat p" 4] by (simp add: port_text_def)
qed

lemma sock_ntop_4:
  assumes "inet_sockaddr (Sin p a)"
  shows "sock_ntop (Sin p a) = Some (show_quad a @ (if p \<noteq> 0 then CHR '':'' # port_text p else []))"
  using inet_ntop_4 [of a] assms length_port_text [of p] by (simp add: snprintf_s_def port_text_def)

lemma sock_ntop_6:
  assumes "inet_sockaddr (Sin6 p a)"
  shows "\<exists>t. sock_ntop (Sin6 p a) = Some (if p \<noteq> 0 then CHR ''['' # t @ CHR '']'' # CHR '':'' # port_text p else t) \<and>
    inet_pton6 [0, 0, 0, 0] t = Some a \<and> (\<forall>c \<in> set t. v6_char c) \<and> t \<noteq> [] \<and> CHR ''.'' \<notin> set (takeWhile (\<lambda>c. c \<noteq> CHR '':'') t)"
proof -
  from inet_ntop_6 [of a] assms obtain t where t: "inet_ntop AF_INET6 a 127 = Inr t" "inet_pton6 [0, 0, 0, 0] t = Some a"
    "\<forall>c \<in> set t. v6_char c" "t \<noteq> []" "CHR ''.'' \<notin> set (takeWhile (\<lambda>c. c \<noteq> CHR '':'') t)" by auto
  have "sock_ntop (Sin6 p a) = Some (if p \<noteq> 0 then CHR ''['' # t @ CHR '']'' # CHR '':'' # port_text p else t)"
    using t(1) length_port_text [of p] by (simp add: snprintf_s_def port_text_def)
  with t(2-5) show ?thesis by blast
qed

lemma brackets: "\<not> v6_char (CHR ''['')" "\<not> v6_char (CHR '']'')" "digit_of (CHR '':'') = None" "digit_of (CHR ''['') = None"
  by (simp_all add: v6_char_def xdigit_of_def digit_of_def)

lemma split_at:
  assumes "x \<notin> set t" "x \<notin> set u" "t @ s = u @ r" "s = [] \<or> hd s = x" "r = [] \<or> hd r = x"
  shows "t = u \<and> s = r"
proof -
  have tw: "takeWhile (\<lambda>c. c \<noteq> x) (t @ s) = t" if "x \<notin> set t" "s = [] \<or> hd s = x" for t s
    using that by (cases s) (auto simp: takeWhile_append takeWhile_eq_all_conv)
  from tw [of t s] tw [of u r] assms have "t = u" by metis
  then show ?thesis using assms(3) by simp
qed

lemma sock_ntop_4_6:
  assumes "inet_sockaddr (Sin p a)" "inet_sockaddr (Sin6 q b)"
  shows "sock_ntop (Sin p a) \<noteq> sock_ntop (Sin6 q b)"
proof
  let ?s = "if p \<noteq> 0 then CHR '':'' # port_text p else []"
  assume eq: "sock_ntop (Sin p a) = sock_ntop (Sin6 q b)"
  have quad: "CHR ''.'' \<in> set (show_quad a)" "show_quad a \<noteq> []" "CHR '':'' \<notin> set (show_quad a)" "CHR ''['' \<notin> set (show_quad a)"
    using inet_ntop_4 [of a] assms(1) brackets by auto
  obtain t where t: "sock_ntop (Sin6 q b) = Some (if q \<noteq> 0 then CHR ''['' # t @ CHR '']'' # CHR '':'' # port_text q else t)"
    "CHR ''.'' \<notin> set (takeWhile (\<lambda>c. c \<noteq> CHR '':'') t)" using sock_ntop_6 [OF assms(2)] by blast
  have "takeWhile (\<lambda>c. c \<noteq> CHR '':'') (show_quad a @ ?s) = show_quad a"
    using quad(3) by (auto simp: takeWhile_append takeWhile_eq_all_conv)
  then show False
    using eq t quad unfolding sock_ntop_4 [OF assms(1)] by (cases "q = 0"; cases "show_quad a") auto
qed

lemma sock_ntop_inj_4:
  assumes "inet_sockaddr (Sin p a)" "inet_sockaddr (Sin q b)" "sock_ntop (Sin p a) = sock_ntop (Sin q b)"
  shows "p = q \<and> a = b"
proof -
  have quads: "CHR '':'' \<notin> set (show_quad a)" "CHR '':'' \<notin> set (show_quad b)"
    using inet_ntop_4 [of a] inet_ntop_4 [of b] assms(1,2) brackets by auto
  have "show_quad a @ (if p \<noteq> 0 then CHR '':'' # port_text p else []) = show_quad b @ (if q \<noteq> 0 then CHR '':'' # port_text q else [])"
    using assms(3) unfolding sock_ntop_4 [OF assms(1)] sock_ntop_4 [OF assms(2)] by simp
  from split_at [OF quads this] have eq: "show_quad a = show_quad b"
    "(if p \<noteq> 0 then CHR '':'' # port_text p else []) = (if q \<noteq> 0 then CHR '':'' # port_text q else [])" by auto
  have "inet_pton4 [0, 0, 0, 0] (show_quad a) = Some a" "inet_pton4 [0, 0, 0, 0] (show_quad b) = Some b"
    using inet_ntop_4 [of a] inet_ntop_4 [of b] assms(1,2) by auto
  then have "a = b" unfolding eq(1) by simp
  moreover have "p = q" using eq(2) port_text_inj [of p q] by (auto split: if_splits)
  ultimately show ?thesis by simp
qed

lemma sock_ntop_inj_6:
  assumes "inet_sockaddr (Sin6 p a)" "inet_sockaddr (Sin6 q b)" "sock_ntop (Sin6 p a) = sock_ntop (Sin6 q b)"
  shows "p = q \<and> a = b"
proof -
  obtain t where t: "sock_ntop (Sin6 p a) = Some (if p \<noteq> 0 then CHR ''['' # t @ CHR '']'' # CHR '':'' # port_text p else t)"
    "inet_pton6 [0, 0, 0, 0] t = Some a" "\<forall>c \<in> set t. v6_char c" "t \<noteq> []" using sock_ntop_6 [OF assms(1)] by blast
  obtain u where u: "sock_ntop (Sin6 q b) = Some (if q \<noteq> 0 then CHR ''['' # u @ CHR '']'' # CHR '':'' # port_text q else u)"
    "inet_pton6 [0, 0, 0, 0] u = Some b" "\<forall>c \<in> set u. v6_char c" "u \<noteq> []" using sock_ntop_6 [OF assms(2)] by blast
  have no: "CHR ''['' \<notin> set t" "CHR ''['' \<notin> set u" "CHR '']'' \<notin> set t" "CHR '']'' \<notin> set u" using t(3) u(3) brackets by auto
  have eq: "(if p \<noteq> 0 then CHR ''['' # t @ CHR '']'' # CHR '':'' # port_text p else t) =
      (if q \<noteq> 0 then CHR ''['' # u @ CHR '']'' # CHR '':'' # port_text q else u)"
    using assms(3) unfolding t(1) u(1) by simp
  have "(p = 0) = (q = 0)" using eq no(1,2) by (cases "p = 0"; cases "q = 0") auto
  moreover have "t = u \<and> p = q" if "p \<noteq> 0" "q \<noteq> 0"
    using split_at [OF no(3,4), of "CHR '']'' # CHR '':'' # port_text p" "CHR '']'' # CHR '':'' # port_text q"] eq that
      port_text_inj [of p q] by simp
  moreover have "t = u" if "p = 0" "q = 0" using eq that by simp
  ultimately have "p = q \<and> t = u" by auto
  then show ?thesis using t(2) u(2) by simp
qed

section \<open>Properties\<close>

text \<open>C36. The presentation form of a socket address determines it: \<^verbatim>\<open>sock_ntop\<close> never fails for an IPv4 or IPv6 address, its text fits the static
  buffer, and two addresses with the same text have the same family, the same address and the same port.\<close>

theorem sock_ntop_determines:
  assumes "inet_sockaddr sa" and "inet_sockaddr sb"
  shows "sock_ntop sa \<noteq> None \<and> length (the (sock_ntop sa)) < 128 \<and> (sock_ntop sa = sock_ntop sb \<longleftrightarrow> sa = sb)"
proof -
  have fits: "sock_ntop sa \<noteq> None \<and> length (the (sock_ntop sa)) < 128"
  proof (cases sa)
    case (Sin p a)
    then show ?thesis using assms(1) sock_ntop_4 [of p a] length_show_quad [of a] length_port_text [of p] by (auto simp: list_all_iff)
  next
    case (Sin6 p a)
    then have "octets_ok a" using assms(1) by (simp add: octets_ok_def)
    from inet6_reads_back [OF this, of "[0, 0, 0, 0]"] obtain t where "inet_ntop AF_INET6 a 127 = Inr t" "length t \<le> 39"
      by (auto simp: reads_back_def inet_ntop_def inet_ntop6_def)
    then show ?thesis using Sin6 by (auto simp: snprintf_s_def)
  qed (use assms(1) in simp)
  have "sa = sb" if "sock_ntop sa = sock_ntop sb"
  proof (cases sa)
    case (Sin p a)
    note sa = this
    show ?thesis
    proof (cases sb)
      case (Sin q b)
      then show ?thesis using sock_ntop_inj_4 [of p a q b] assms that sa by simp
    next
      case (Sin6 q b)
      then show ?thesis using sock_ntop_4_6 [of p a q b] assms that sa by simp
    qed (use assms in simp)
  next
    case (Sin6 p a)
    note sa = this
    show ?thesis
    proof (cases sb)
      case (Sin q b)
      then show ?thesis using sock_ntop_4_6 [of q b p a] assms that sa by simp
    next
      case (Sin6 q b)
      then show ?thesis using sock_ntop_inj_6 [of p a q b] assms that sa by simp
    qed (use assms in simp)
  qed (use assms in simp)
  then show ?thesis using fits by blast
qed

theorem sock_ntop_determines_witness:
  "sock_ntop (Sin 80 [10, 0, 0, 1]) \<noteq> None \<and> sock_ntop (Sin 80 [10, 0, 0, 1]) \<noteq> sock_ntop (Sin6 80 (replicate 15 0 @ [1]))"
  using sock_ntop_determines [of "Sin 80 [10, 0, 0, 1]" "Sin6 80 (replicate 15 0 @ [1])"] by (simp add: list_all_iff)

end
