(* ===== verification/Packet.thy ===== *)
theory Packet
  imports Inet_Addr
begin

text \<open>
  What the programs that look into packets share (\<^verbatim>\<open>icmpd\<close>, \<^verbatim>\<open>ping\<close>, \<^verbatim>\<open>traceroute\<close>, \<^verbatim>\<open>udpcksum\<close>): packets as lists of
  octets, numbers in network order and in the order of a little-endian host, the Internet checksum of a packet, and times
  (\<^verbatim>\<open>struct timeval\<close>) with \<^verbatim>\<open>tv_sub\<close>. How wide a \<^verbatim>\<open>long\<close> is in a \<^verbatim>\<open>struct timeval\<close> put into a packet, 4 or 8 octets, is the argument \<open>w\<close>.
\<close>

section \<open>Octets\<close>

definition octets :: "nat list \<Rightarrow> nat \<Rightarrow> nat \<Rightarrow> nat list c_value" where
  "octets buf off len = (if off + len \<le> length buf then Val (take len (drop off buf)) else UB)"

definition be16 :: "nat list \<Rightarrow> nat" where
  "be16 bs = bs ! 0 * 256 + bs ! 1"

definition put_be16 :: "nat \<Rightarrow> nat list" where
  "put_be16 x = [x div 256 mod 256, x mod 256]"

definition le16 :: "nat list \<Rightarrow> nat" where
  "le16 bs = bs ! 0 + 256 * bs ! 1"

definition put_le16 :: "nat \<Rightarrow> nat list" where
  "put_le16 x = [x mod 256, x div 256 mod 256]"

definition is_octets :: "nat list \<Rightarrow> bool" where
  "is_octets bs \<longleftrightarrow> list_all (\<lambda>b. b < 256) bs"

abbreviation (input) IPPROTO_ICMP :: nat where "IPPROTO_ICMP \<equiv> 1"
abbreviation (input) IPPROTO_UDP :: nat where "IPPROTO_UDP \<equiv> 17"
abbreviation (input) ICMP_ECHOREPLY :: nat where "ICMP_ECHOREPLY \<equiv> 0"
abbreviation (input) ICMP_UNREACH :: nat where "ICMP_UNREACH \<equiv> 3"
abbreviation (input) ICMP_SOURCEQUENCH :: nat where "ICMP_SOURCEQUENCH \<equiv> 4"
abbreviation (input) ICMP_ECHO :: nat where "ICMP_ECHO \<equiv> 8"
abbreviation (input) ICMP_TIMXCEED :: nat where "ICMP_TIMXCEED \<equiv> 11"

lemma length_put16 [simp]: "length (put_le16 x) = 2" "length (put_be16 x) = 2"
  by (simp_all add: put_le16_def put_be16_def)

lemma le16_put_le16 [simp]: "x < 65536 \<Longrightarrow> le16 (put_le16 x) = x"
  by (simp add: le16_def put_le16_def)

lemma be16_put_be16 [simp]: "x < 65536 \<Longrightarrow> be16 (put_be16 x) = x"
  by (simp add: be16_def put_be16_def)

lemma is_octets_simps [simp]:
  "is_octets []" "is_octets (b # bs) \<longleftrightarrow> b < 256 \<and> is_octets bs" "is_octets (bs @ cs) \<longleftrightarrow> is_octets bs \<and> is_octets cs"
  "is_octets (put_le16 x)" "is_octets (put_be16 x)" "is_octets (replicate n b) \<longleftrightarrow> n = 0 \<or> b < 256"
  by (auto simp: is_octets_def put_le16_def put_be16_def list_all_iff)

lemma octets_append:
  "octets (as @ bs) off len = (if length as \<le> off then octets bs (off - length as) len else octets (as @ bs) off len)"
  by (auto simp: octets_def)

lemma octets_at: "length as = off \<Longrightarrow> length bs = len \<Longrightarrow> octets (as @ bs @ cs) off len = Val bs"
  by (simp add: octets_def)

section \<open>The checksum of a packet\<close>

text \<open>The 16-bit words of a packet as a little-endian host loads them, and the odd octet at the end.\<close>

fun words :: "nat list \<Rightarrow> u16 list" where
  "words (a # b # bs) = word_of_nat (a + 256 * b) # words bs"
| "words bs = []"

fun odd_octet :: "nat list \<Rightarrow> u8 option" where
  "odd_octet (a # b # bs) = odd_octet bs"
| "odd_octet [a] = Some (word_of_nat a)"
| "odd_octet [] = None"

definition cksum :: "nat list \<Rightarrow> nat" where
  "cksum bs = unat (in_cksum (words bs) (odd_octet bs))"

definition packet_sum :: "nat list \<Rightarrow> nat" where
  "packet_sum bs = word_sum (words bs) + byte_value (odd_octet bs)"

lemma words_append: "even (length as) \<Longrightarrow> words (as @ bs) = words as @ words bs \<and> odd_octet (as @ bs) = odd_octet bs \<and> odd_octet as = None"
  by (induction as rule: words.induct) auto

lemma packet_sum_append: "even (length as) \<Longrightarrow> packet_sum (as @ bs) = packet_sum as + packet_sum bs"
  by (simp add: packet_sum_def words_append word_sum_def byte_value_def)

lemma packet_sum_put [simp]: "x < 65536 \<Longrightarrow> packet_sum (put_le16 x) = x"
  by (simp add: packet_sum_def put_le16_def word_sum_def byte_value_def unat_of_nat take_bit_eq_mod)

lemma length_words: "length (words bs) = length bs div 2"
  by (induction bs rule: words.induct) auto

lemma cksum_value: "length bs \<le> 65536 \<Longrightarrow> cksum bs = 65535 - fold_nat (packet_sum bs)"
  by (simp add: cksum_def packet_sum_def unat_in_cksum length_words)

lemma cksum_bound: "cksum bs < 65536"
  using unsigned_less [of "in_cksum (words bs) (odd_octet bs)"] by (simp add: cksum_def)

lemma packet_sum_bound: "length bs \<le> 65536 \<Longrightarrow> packet_sum bs < 2 ^ 32 - 65535"
proof -
  assume "length bs \<le> 65536"
  then have "word_sum (words bs) \<le> 65535 * 32768"
    using word_sum_bound [of "words bs"] length_words [of bs] by linarith
  with byte_value_bound [of "odd_octet bs"] show ?thesis by (simp add: packet_sum_def)
qed

lemma cksum_zero_iff:
  assumes "length bs \<le> 65536"
  shows "cksum bs = 0 \<longleftrightarrow> packet_sum bs mod 65535 = 0 \<and> packet_sum bs \<noteq> 0"
proof -
  have small: "packet_sum bs < 2 ^ 32" using packet_sum_bound [OF assms] by simp
  have "cksum bs = 0 \<longleftrightarrow> fold_nat (packet_sum bs) = 65535"
    using fold_nat_bounds [of "packet_sum bs"] cksum_value [OF assms] by auto
  also have "\<dots> \<longleftrightarrow> fold_nat (packet_sum bs) mod 65535 = 0 \<and> fold_nat (packet_sum bs) \<noteq> 0"
  proof -
    consider "fold_nat (packet_sum bs) < 65535" | "fold_nat (packet_sum bs) = 65535"
      using fold_nat_bounds [of "packet_sum bs"] by linarith
    then show ?thesis by cases auto
  qed
  finally show ?thesis using fold_nat_mod [OF small] by simp
qed

text \<open>A packet verifies after its checksum, or \<open>0xffff\<close> for a checksum of 0, has been put into the field that was 0.\<close>

lemma cksum_filled:
  assumes "even (length pre)" and "length (pre @ [0, 0] @ post) \<le> 65536"
    and "x = cksum (pre @ [0, 0] @ post) \<or> cksum (pre @ [0, 0] @ post) = 0 \<and> x = 65535"
  shows "cksum (pre @ put_le16 x @ post) = 0"
proof -
  let ?s = "packet_sum (pre @ [0, 0] @ post)"
  have x: "x < 65536" using assms(3) cksum_bound [of "pre @ [0, 0] @ post"] by auto
  have zero: "packet_sum ([0, 0] @ cs) = packet_sum cs" for cs
    using packet_sum_append [of "[0, 0]" cs] packet_sum_put [of 0] by (simp add: put_le16_def)
  have "packet_sum (put_le16 x @ post) = x + packet_sum post" using x by (simp add: packet_sum_append)
  then have sum: "packet_sum (pre @ put_le16 x @ post) = ?s + x" using assms(1) zero by (simp add: packet_sum_append)
  have small: "?s < 2 ^ 32 - 65535" by (rule packet_sum_bound [OF assms(2)])
  have mods: "(?s + x) mod 65535 = 0 \<and> ?s + x \<noteq> 0"
    using assms(3)
  proof
    assume "x = cksum (pre @ [0, 0] @ post)"
    then have "x = 65535 - fold_nat ?s" using cksum_value [OF assms(2)] by simp
    with small x have "fold_nat (?s + x) = 65535" by (intro fold_nat_complement) auto
    then show ?thesis using fold_nat_mod [of "?s + x"] small x by auto
  next
    assume "cksum (pre @ [0, 0] @ post) = 0 \<and> x = 65535"
    then show ?thesis using cksum_zero_iff [OF assms(2)] by auto
  qed
  have "length (pre @ put_le16 x @ post) \<le> 65536" using assms(2) by simp
  from cksum_zero_iff [OF this] sum mods show ?thesis by simp
qed

section \<open>Times\<close>

record timeval =
  tv_sec :: int
  tv_usec :: int

definition tv_sub :: "timeval \<Rightarrow> timeval \<Rightarrow> timeval" where
  "tv_sub out inn =
     (let usec = tv_usec out - tv_usec inn in
      if usec < 0 then \<lparr>tv_sec = tv_sec out - 1 - tv_sec inn, tv_usec = usec + 1000000\<rparr>
      else \<lparr>tv_sec = tv_sec out - tv_sec inn, tv_usec = usec\<rparr>)"

definition micros :: "timeval \<Rightarrow> int" where
  "micros t = tv_sec t * 1000000 + tv_usec t"

definition tv_ok :: "timeval \<Rightarrow> bool" where
  "tv_ok t \<longleftrightarrow> 0 \<le> tv_usec t \<and> tv_usec t < 1000000"

lemma tv_sub_exact: "micros (tv_sub a b) = micros a - micros b"
  by (simp add: tv_sub_def micros_def Let_def algebra_simps)

lemma tv_sub_ok: "tv_ok a \<Longrightarrow> tv_ok b \<Longrightarrow> tv_ok (tv_sub a b)"
  by (auto simp: tv_sub_def tv_ok_def Let_def)

lemma micros_inj: "tv_ok a \<Longrightarrow> tv_ok b \<Longrightarrow> micros a = micros b \<longleftrightarrow> a = b"
proof -
  assume ok: "tv_ok a" "tv_ok b"
  have "t = \<lparr>tv_sec = micros t div 1000000, tv_usec = micros t mod 1000000\<rparr>" if "tv_ok t" for t
    using that by (intro timeval.equality) (simp_all add: micros_def tv_ok_def)
  with ok show ?thesis by metis
qed

text \<open>A \<^verbatim>\<open>struct timeval\<close> in memory: two numbers of \<open>w\<close> octets each.\<close>

fun put_le :: "nat \<Rightarrow> nat \<Rightarrow> nat list" where
  "put_le 0 x = []"
| "put_le (Suc n) x = x mod 256 # put_le n (x div 256)"

fun get_le :: "nat list \<Rightarrow> nat" where
  "get_le [] = 0"
| "get_le (b # bs) = b + 256 * get_le bs"

definition put_tv :: "nat \<Rightarrow> timeval \<Rightarrow> nat list" where
  "put_tv w t = put_le w (nat (tv_sec t)) @ put_le w (nat (tv_usec t))"

definition get_tv :: "nat \<Rightarrow> nat list \<Rightarrow> timeval" where
  "get_tv w bs = \<lparr>tv_sec = int (get_le (take w bs)), tv_usec = int (get_le (take w (drop w bs)))\<rparr>"

lemma length_put_le [simp]: "length (put_le n x) = n"
  by (induction n arbitrary: x) auto

lemma is_octets_put_le [simp]: "is_octets (put_le n x)"
  by (induction n arbitrary: x) auto

lemma get_put_le: "x < 256 ^ n \<Longrightarrow> get_le (put_le n x) = x"
  by (induction n arbitrary: x) (auto simp: less_mult_imp_div_less mult.commute)

lemma length_put_tv [simp]: "length (put_tv w t) = 2 * w" "is_octets (put_tv w t)"
  by (simp_all add: put_tv_def)

lemma get_put_tv:
  assumes "tv_ok t" and "0 \<le> tv_sec t" "tv_sec t < 256 ^ w" and "3 \<le> w"
  shows "get_tv w (put_tv w t) = t"
proof -
  have "(1000000 :: int) \<le> 256 ^ w" using power_increasing [OF assms(4), of "256 :: int"] by simp
  then have "nat (tv_usec t) < 256 ^ w" using assms(1) by (simp add: tv_ok_def nat_less_iff)
  moreover have "nat (tv_sec t) < 256 ^ w" using assms(2,3) by (simp add: nat_less_iff)
  ultimately show ?thesis
    using assms(1,2) by (simp add: put_tv_def get_tv_def get_put_le tv_ok_def)
qed

end
