(* ===== verification/Icmpd.thy ===== *)
theory Icmpd
  imports Sock_Addr Packet Prefork Select_Server
begin

text \<open>
  The daemon of \<^verbatim>\<open>unpv13e/icmpd\<close> that tells the processes registered with it about the ICMP errors their datagrams caused: \<^verbatim>\<open>icmpd.c\<close>,
  \<^verbatim>\<open>readable_listen.c\<close>, \<^verbatim>\<open>readable_conn.c\<close>, \<^verbatim>\<open>readable_v4.c\<close>, \<^verbatim>\<open>readable_v6.c\<close>, compiled with \<^verbatim>\<open>IPV6\<close>. A client connects, passes its UDP
  socket, and is told of every ICMP error about a datagram from the port of that socket. A packet is the list of its octets; what lies behind it in
  the buffer is indeterminate, so that using it is undefined. \<open>notices\<close>, \<open>answers\<close> and \<open>gone\<close> log the error notices, the one-byte answers and the
  descriptors closed. \<^verbatim>\<open>Write\<close> and \<^verbatim>\<open>Close\<close> do not fail.
\<close>

section \<open>State\<close>

datatype icmp_errno = EHOSTUNREACH | ECONNREFUSED | EMSGSIZE

record icmpd_err =
  icmpd_errno :: icmp_errno
  icmpd_type :: nat
  icmpd_code :: nat
  icmpd_len :: nat
  icmpd_dest :: sockaddr

record icmp_client =
  connfd :: int
  family :: int
  lport :: int

record icmpd =
  clients :: "icmp_client list"
  maxi :: int
  maxfd :: int
  allset :: "int set"
  notices :: "(int \<times> icmpd_err) list"
  answers :: "(int \<times> char) list"
  gone :: "int list"

text \<open>\<^verbatim>\<open>main\<close> up to its loop; the array is a global one, so that its fields are 0 except \<^verbatim>\<open>connfd\<close>.\<close>

definition icmpd_init :: "int \<Rightarrow> int \<Rightarrow> int \<Rightarrow> icmpd" where
  "icmpd_init fd4 fd6 listenfd =
     \<lparr>clients = replicate FD_SETSIZE \<lparr>connfd = -1, family = 0, lport = 0\<rparr>, maxi = -1, maxfd = max (max fd4 fd6) listenfd,
      allset = {fd4, fd6, listenfd}, notices = [], answers = [], gone = []\<rparr>"

section \<open>Connections\<close>

definition readable_listen :: "int \<Rightarrow> icmpd \<Rightarrow> icmpd run c_value" where
  "readable_listen fd s =
     (if fd < 0 then Val (Exit 1)
      else
        let i = first_free (map connfd (clients s)) in
        if i = FD_SETSIZE then Val (Ret (s\<lparr>gone := gone s @ [fd]\<rparr>))
        else
          case FD_SET fd (allset s) of
            UB \<Rightarrow> UB
          | Val st \<Rightarrow>
              Val (Ret (s\<lparr>clients := (clients s)[i := (clients s ! i)\<lparr>connfd := fd\<rparr>], allset := st,
                maxfd := (if fd > maxfd s then fd else maxfd s), maxi := (if int i > maxi s then int i else maxi s)\<rparr>)))"

text \<open>What the kernel answers about the descriptor received: \<^verbatim>\<open>recvmsg\<close>, \<^verbatim>\<open>getsockname\<close>, and \<^verbatim>\<open>getsockname\<close> after \<^verbatim>\<open>bind\<close>.\<close>

record conn_env =
  received_msg :: "message option"
  bound_to :: "sockaddr option"
  bound_wild :: "sockaddr option"

definition drop_client :: "nat \<Rightarrow> int option \<Rightarrow> icmpd \<Rightarrow> icmpd" where
  "drop_client i recvfd s =
     (let c = clients s ! i in
      s\<lparr>gone := gone s @ connfd c # (case recvfd of None \<Rightarrow> [] | Some fd \<Rightarrow> [fd]),
        allset := allset s - {connfd c}, clients := (clients s)[i := c\<lparr>connfd := -1\<rparr>]\<rparr>)"

definition register :: "nat \<Rightarrow> int \<Rightarrow> conn_env \<Rightarrow> icmpd \<Rightarrow> icmpd" where
  "register i recvfd env s =
     (let unixfd = connfd (clients s ! i) in
      case bound_to env of
        None \<Rightarrow> drop_client i (Some recvfd) (s\<lparr>answers := answers s @ [(unixfd, CHR ''0'')]\<rparr>)
      | Some sa \<Rightarrow>
          let fam = sa_family sa;
              port = (if sock_get_port sa = 0 then sock_bind_wild fam (bound_wild env) else sock_get_port sa);
              s1 = s\<lparr>clients := (clients s)[i := (clients s ! i)\<lparr>family := fam, lport := port\<rparr>]\<rparr> in
          if sock_get_port sa = 0 \<and> port \<le> 0 then
            drop_client i (Some recvfd) (s1\<lparr>answers := answers s @ [(unixfd, CHR ''0'')]\<rparr>)
          else s1\<lparr>answers := answers s @ [(unixfd, CHR ''1'')], gone := gone s @ [recvfd]\<rparr>)"

definition readable_conn :: "nat \<Rightarrow> conn_env \<Rightarrow> icmpd \<Rightarrow> icmpd run" where
  "readable_conn i env s =
     (case read_fd (received_msg env) 1 of
        Exit c \<Rightarrow> Exit c
      | Ret (n, bs, fd) \<Rightarrow>
          if n < 0 then Exit 1
          else if n = 0 then Ret (drop_client i None s)
          else
            case fd of
              None \<Rightarrow> Ret (drop_client i None (s\<lparr>answers := answers s @ [(connfd (clients s ! i), CHR ''0'')]\<rparr>))
            | Some recvfd \<Rightarrow>
                if recvfd < 0
                then Ret (drop_client i None (s\<lparr>answers := answers s @ [(connfd (clients s ! i), CHR ''0'')]\<rparr>))
                else Ret (register i recvfd env s))"

section \<open>ICMP messages\<close>

definition matching :: "int \<Rightarrow> nat \<Rightarrow> icmpd \<Rightarrow> icmp_client list" where
  "matching fam sport s =
     filter (\<lambda>c. 0 \<le> connfd c \<and> family c = fam \<and> lport c = int sport) (take (nat (maxi s + 1)) (clients s))"

definition notify :: "icmp_client list \<Rightarrow> icmpd_err \<Rightarrow> icmpd \<Rightarrow> icmpd" where
  "notify cs err s = s\<lparr>notices := notices s @ map (\<lambda>c. (connfd c, err)) cs\<rparr>"

definition v4_errno :: "nat \<Rightarrow> nat \<Rightarrow> icmp_errno" where
  "v4_errno typ code =
     (if typ = ICMP_UNREACH then if code = 3 then ECONNREFUSED else if code = 4 then EMSGSIZE else EHOSTUNREACH
      else EHOSTUNREACH)"

definition readable_v4 :: "nat list \<Rightarrow> icmpd \<Rightarrow> icmpd run c_value" where
  "readable_v4 buf s =
     (case octets buf 0 1 of
        UB \<Rightarrow> UB
      | Val h \<Rightarrow>
          let hlen1 = hd h mod 16 * 4; icmplen = int (length buf) - int hlen1 in
          if icmplen < 8 then Val (Exit 1)
          else
            let typ = buf ! hlen1; code = buf ! (hlen1 + 1) in
            if typ = ICMP_UNREACH \<or> typ = ICMP_TIMXCEED \<or> typ = ICMP_SOURCEQUENCH then
              if icmplen < 36 then Val (Exit 1)
              else
                let hip = hlen1 + 8; hlen2 = buf ! hip mod 16 * 4 in
                if buf ! (hip + 9) = IPPROTO_UDP then
                  (case octets buf (hip + hlen2) 2 of
                     UB \<Rightarrow> UB
                   | Val sport \<Rightarrow>
                       let cs = matching AF_INET (be16 sport) s in
                       if cs = [] then Val (Ret s)
                       else
                         case octets buf (hip + hlen2 + 2) 2 of
                           UB \<Rightarrow> UB
                         | Val dport \<Rightarrow>
                             Val (Ret (notify cs \<lparr>icmpd_errno = v4_errno typ code, icmpd_type = typ, icmpd_code = code, icmpd_len = 16,
                               icmpd_dest = Sin (of_nat (be16 dport)) (take 4 (drop (hip + 16) buf))\<rparr> s)))
                else Val (Ret s)
            else Val (Ret s))"

definition v6_errno :: "nat \<Rightarrow> nat \<Rightarrow> icmp_errno" where
  "v6_errno typ code =
     (if typ = 2 then EMSGSIZE else if typ = 1 \<and> code = 4 then ECONNREFUSED else EHOSTUNREACH)"

text \<open>The header of the packet in error is printed, so that it is used in any case.\<close>

definition readable_v6 :: "nat list \<Rightarrow> icmpd \<Rightarrow> icmpd run c_value" where
  "readable_v6 buf s =
     (if length buf < 8 then Val (Exit 1)
      else
        let typ = buf ! 0; code = buf ! 1 in
        if typ = 1 \<or> typ = 2 \<or> typ = 3 then
          if length buf < 16 then Val (Exit 1)
          else
            case octets buf 8 40 of
              UB \<Rightarrow> UB
            | Val hip6 \<Rightarrow>
                if hip6 ! 6 = IPPROTO_UDP then
                  (case octets buf 48 2 of
                     UB \<Rightarrow> UB
                   | Val sport \<Rightarrow>
                       let cs = matching AF_INET6 (be16 sport) s in
                       if cs = [] then Val (Ret s)
                       else
                         case octets buf 50 2 of
                           UB \<Rightarrow> UB
                         | Val dport \<Rightarrow>
                             Val (Ret (notify cs \<lparr>icmpd_errno = v6_errno typ code, icmpd_type = typ, icmpd_code = code, icmpd_len = 28,
                               icmpd_dest = Sin6 (of_nat (be16 dport)) (drop 24 hip6)\<rparr> s)))
                else Val (Ret s)
        else Val (Ret s))"

section \<open>The main loop\<close>

record icmpd_env =
  icmp_rset :: "int set"
  accept_ans :: int
  packet4 :: "nat list"
  packet6 :: "nat list"
  conn_ans :: "nat \<Rightarrow> conn_env"

fun conn_loop :: "icmpd_env \<Rightarrow> nat list \<Rightarrow> int \<Rightarrow> icmpd \<Rightarrow> icmpd run" where
  "conn_loop env [] nready s = Ret s"
| "conn_loop env (i # is) nready s =
     (let fd = connfd (clients s ! i) in
      if fd < 0 \<or> fd \<notin> icmp_rset env then conn_loop env is nready s
      else
        case readable_conn i (conn_ans env i) s of
          Exit c \<Rightarrow> Exit c
        | Ret s' \<Rightarrow> if nready - 1 \<le> 0 then Ret s' else conn_loop env is (nready - 1) s')"

text \<open>One of the tests of the loop: call the function if the descriptor is ready, and go on unless that was the last one.\<close>

definition when_ready ::
    "bool \<Rightarrow> (icmpd \<Rightarrow> icmpd run c_value) \<Rightarrow> (int \<Rightarrow> icmpd \<Rightarrow> icmpd run c_value) \<Rightarrow> int \<Rightarrow> icmpd \<Rightarrow> icmpd run c_value" where
  "when_ready b f k nready s =
     (if b then
        case f s of
          UB \<Rightarrow> UB
        | Val (Exit c) \<Rightarrow> Val (Exit c)
        | Val (Ret s') \<Rightarrow> if nready - 1 \<le> 0 then Val (Ret s') else k (nready - 1) s'
      else k nready s)"

definition icmpd_iter :: "int \<Rightarrow> int \<Rightarrow> int \<Rightarrow> icmpd_env \<Rightarrow> icmpd \<Rightarrow> icmpd run c_value" where
  "icmpd_iter fd4 fd6 listenfd env s =
     (let rset = icmp_rset env; nready = int (card rset) in
      when_ready (listenfd \<in> rset) (readable_listen (accept_ans env))
        (when_ready (fd4 \<in> rset) (readable_v4 (packet4 env))
          (when_ready (fd6 \<in> rset) (readable_v6 (packet6 env))
            (\<lambda>nready s. Val (conn_loop env [0..<nat (maxi s + 1)] nready s)))) nready s)"

section \<open>The invariant\<close>

text \<open>The descriptors of the connected clients are distinct, \<^verbatim>\<open>maxi\<close> covers them, and \<^verbatim>\<open>allset\<close> is made of them and the three sockets of the daemon.\<close>

definition conns :: "icmpd \<Rightarrow> int list" where
  "conns s = filter (\<lambda>fd. 0 \<le> fd) (map connfd (clients s))"

definition icmpd_ok :: "int set \<Rightarrow> icmpd \<Rightarrow> bool" where
  "icmpd_ok own s \<longleftrightarrow> length (clients s) = FD_SETSIZE \<and> maxi s < int FD_SETSIZE \<and>
     (\<forall>i < FD_SETSIZE. 0 \<le> connfd (clients s ! i) \<longrightarrow> int i \<le> maxi s) \<and>
     allset s = own \<union> set (conns s) \<and> distinct (conns s) \<and> own \<inter> set (conns s) = {}"

lemma icmpd_ok_init: "icmpd_ok {fd4, fd6, listenfd} (icmpd_init fd4 fd6 listenfd)"
  by (auto simp: icmpd_ok_def icmpd_init_def conns_def filter_empty_conv map_replicate_const)

lemma icmpd_ok_cong:
  assumes "icmpd_ok own s" and "map connfd (clients s') = map connfd (clients s)" "maxi s' = maxi s" "allset s' = allset s"
  shows "icmpd_ok own s'"
proof -
  have len: "length (clients s') = length (clients s)" using arg_cong [OF assms(2), of length] by simp
  have "connfd (clients s' ! i) = connfd (clients s ! i)" if "i < length (clients s)" for i
    using assms(2) len that by (metis nth_map)
  then show ?thesis using assms len by (simp add: icmpd_ok_def conns_def)
qed

lemma first_free_le: "first_free cs \<le> length cs"
  by (induction cs) auto

lemma listen_ok:
  assumes ok: "icmpd_ok own s" and run: "readable_listen fd s = Val (Ret s')" and fresh: "fd \<notin> allset s"
  shows "icmpd_ok own s'"
proof -
  define i where "i = first_free (map connfd (clients s))"
  show ?thesis
  proof (cases "i = FD_SETSIZE")
    case True
    then show ?thesis using run ok icmpd_ok_cong [OF ok, of s'] by (auto simp: readable_listen_def Let_def i_def split: if_splits)
  next
    case False
    have len: "length (clients s) = FD_SETSIZE" using ok by (simp add: icmpd_ok_def)
    have "i \<le> FD_SETSIZE" using first_free_le [of "map connfd (clients s)"] len by (simp add: i_def)
    with False have i: "i < length (map connfd (clients s))" using len by simp
    then have free: "\<not> 0 \<le> map connfd (clients s) ! i" using first_free_props [of "map connfd (clients s)"] by (auto simp: i_def)
    have s': "s' = s\<lparr>clients := (clients s)[i := (clients s ! i)\<lparr>connfd := fd\<rparr>], allset := insert fd (allset s),
        maxfd := (if fd > maxfd s then fd else maxfd s), maxi := (if int i > maxi s then int i else maxi s)\<rparr>" and fd: "0 \<le> fd"
      using run False by (auto simp: readable_listen_def Let_def FD_SET_def simp flip: i_def split: if_splits)
    from filter_update_new [OF i, of "\<lambda>fd. 0 \<le> fd" fd] free fd obtain us vs where
      uv: "conns s = us @ vs" "conns s' = us @ fd # vs" by (auto simp: conns_def s' map_update)
    show ?thesis
      using ok fresh uv i len by (auto simp: icmpd_ok_def s' nth_list_update)
  qed
qed

lemma drop_ok:
  assumes ok: "icmpd_ok own s" and i: "i < length (clients s)" "0 \<le> connfd (clients s ! i)"
  shows "icmpd_ok own (drop_client i recvfd s)"
proof -
  let ?cs = "map connfd (clients s)" and ?s = "drop_client i recvfd s"
  have same: "?cs[i := connfd (clients s ! i)] = ?cs" using i by (metis list_update_id nth_map)
  have "\<not> 0 \<le> (?cs[i := -1]) ! i" "0 \<le> ?cs ! i" "i < length (?cs[i := -1])" using i by simp_all
  from filter_update_new [of i "?cs[i := -1]" "\<lambda>fd. 0 \<le> fd" "?cs ! i", OF this(3,1,2)] obtain us vs where
    "conns ?s = us @ vs" "conns s = us @ connfd (clients s ! i) # vs"
    using i by (auto simp: conns_def drop_client_def Let_def map_update same)
  then show ?thesis using ok i by (auto simp: icmpd_ok_def drop_client_def Let_def nth_list_update)
qed

lemma register_ok:
  assumes ok: "icmpd_ok own s" and i: "i < length (clients s)" "0 \<le> connfd (clients s ! i)"
  shows "icmpd_ok own (register i recvfd env s)"
proof -
  have logs: "icmpd_ok own (s\<lparr>answers := a\<rparr>)" for a using icmpd_ok_cong [OF ok] by simp
  have same: "(map connfd (clients s))[i := connfd (clients s ! i)] = map connfd (clients s)" using i by (metis list_update_id nth_map)
  have reg: "icmpd_ok own (s\<lparr>clients := (clients s)[i := (clients s ! i)\<lparr>family := fam, lport := port\<rparr>], answers := a\<rparr>)" for fam port a
    using icmpd_ok_cong [OF ok] same by (simp add: map_update)
  have reg': "icmpd_ok own (s\<lparr>clients := (clients s)[i := (clients s ! i)\<lparr>family := fam, lport := port\<rparr>], answers := a, gone := b\<rparr>)"
    for fam port a b using icmpd_ok_cong [OF reg] by simp
  show ?thesis using drop_ok [OF logs] drop_ok [OF reg] reg' i
    by (auto simp: register_def Let_def split: option.split)
qed

lemma readable_conn_ok:
  assumes ok: "icmpd_ok own s" and i: "i < length (clients s)" "0 \<le> connfd (clients s ! i)" and run: "readable_conn i env s = Ret s'"
  shows "icmpd_ok own s' \<and> length (clients s') = length (clients s)"
proof -
  have logs: "icmpd_ok own (s\<lparr>answers := a\<rparr>)" for a using icmpd_ok_cong [OF ok] by simp
  have "icmpd_ok own s'"
    using run drop_ok [OF ok i] drop_ok [OF logs] register_ok [OF ok i] i
    by (auto simp: readable_conn_def split: run.splits prod.splits if_splits option.splits)
  then show ?thesis using ok by (simp add: icmpd_ok_def)
qed

lemma conn_loop_ok:
  assumes "icmpd_ok own s" "\<forall>i \<in> set is. i < FD_SETSIZE" "conn_loop env is nready s = Ret s'"
  shows "icmpd_ok own s'"
  using assms
proof (induction "is" arbitrary: nready s)
  case (Cons i "is")
  show ?case
  proof (cases "connfd (clients s ! i) < 0 \<or> connfd (clients s ! i) \<notin> icmp_rset env")
    case True
    then have "conn_loop env is nready s = Ret s'" using Cons.prems(3) by simp
    then show ?thesis using Cons.IH Cons.prems(1,2) by simp
  next
    case False
    have len: "length (clients s) = FD_SETSIZE" using Cons.prems(1) by (simp add: icmpd_ok_def)
    from False Cons.prems(3) obtain s1 where s1: "readable_conn i (conn_ans env i) s = Ret s1"
      "s' = s1 \<or> conn_loop env is (nready - 1) s1 = Ret s'"
      by (auto simp: Let_def split: run.splits if_splits)
    have "icmpd_ok own s1" using readable_conn_ok [OF Cons.prems(1) _ _ s1(1)] False Cons.prems(2) len by simp
    then show ?thesis using s1(2) Cons.IH Cons.prems(2) by auto
  qed
qed simp

lemma notify_ok: "icmpd_ok own s \<Longrightarrow> icmpd_ok own (notify cs err s)"
  by (erule icmpd_ok_cong) (simp_all add: notify_def)

lemma readable_v4_ok: "icmpd_ok own s \<Longrightarrow> readable_v4 buf s = Val (Ret s') \<Longrightarrow> icmpd_ok own s'"
  by (auto simp: readable_v4_def Let_def notify_ok split: c_value.splits if_splits)

lemma readable_v6_ok: "icmpd_ok own s \<Longrightarrow> readable_v6 buf s = Val (Ret s') \<Longrightarrow> icmpd_ok own s'"
  by (auto simp: readable_v6_def Let_def notify_ok split: c_value.splits if_splits)

lemma when_ready_ok:
  assumes "icmpd_ok own s" and "when_ready b f k nready s = Val (Ret s')"
    and "\<And>s'. b \<Longrightarrow> f s = Val (Ret s') \<Longrightarrow> icmpd_ok own s'"
    and "\<And>n s1. icmpd_ok own s1 \<Longrightarrow> k n s1 = Val (Ret s') \<Longrightarrow> icmpd_ok own s'"
  shows "icmpd_ok own s'"
proof (cases b)
  case True
  then obtain s1 where "f s = Val (Ret s1)" "s' = s1 \<or> k (nready - 1) s1 = Val (Ret s')"
    using assms(2) by (auto simp: when_ready_def split: c_value.splits run.splits if_splits)
  then show ?thesis using assms(3) [OF True] assms(4) by blast
qed (use assms(1,2,4) in \<open>auto simp: when_ready_def\<close>)

lemma icmpd_iter_ok:
  assumes ok: "icmpd_ok own s" and run: "icmpd_iter fd4 fd6 listenfd env s = Val (Ret s')"
    and fresh: "listenfd \<in> icmp_rset env \<Longrightarrow> accept_ans env \<notin> allset s"
  shows "icmpd_ok own s'"
proof -
  have loop: "icmpd_ok own s'" if "icmpd_ok own t" "Val (conn_loop env [0..<nat (maxi t + 1)] n t) = Val (Ret s')" for n t
  proof -
    have "maxi t < int FD_SETSIZE" using that(1) by (simp add: icmpd_ok_def)
    then have "\<forall>i \<in> set [0..<nat (maxi t + 1)]. i < FD_SETSIZE" by auto
    from conn_loop_ok [OF that(1) this] that(2) show ?thesis by simp
  qed
  have v6: "icmpd_ok own s'"
    if "icmpd_ok own t" "when_ready b (readable_v6 p) (\<lambda>nready s. Val (conn_loop env [0..<nat (maxi s + 1)] nready s)) n t = Val (Ret s')"
    for b p n t
    using when_ready_ok [OF that] readable_v6_ok [OF that(1)] loop by blast
  have v4: "icmpd_ok own s'"
    if "icmpd_ok own t" "when_ready c (readable_v4 q) (when_ready b (readable_v6 p)
      (\<lambda>nready s. Val (conn_loop env [0..<nat (maxi s + 1)] nready s))) n t = Val (Ret s')" for b c p q n t
    using when_ready_ok [OF that] readable_v4_ok [OF that(1)] v6 by blast
  show ?thesis
    using run unfolding icmpd_iter_def Let_def
    by (rule when_ready_ok [OF ok]) (use listen_ok [OF ok] fresh v4 in blast)+
qed

inductive icmpd_reach :: "int \<Rightarrow> int \<Rightarrow> int \<Rightarrow> icmpd \<Rightarrow> bool" for fd4 fd6 listenfd where
  icmpd_start: "icmpd_reach fd4 fd6 listenfd (icmpd_init fd4 fd6 listenfd)"
| icmpd_more: "icmpd_reach fd4 fd6 listenfd s \<Longrightarrow> (listenfd \<in> icmp_rset env \<Longrightarrow> accept_ans env \<notin> allset s) \<Longrightarrow>
    icmpd_iter fd4 fd6 listenfd env s = Val (Ret s') \<Longrightarrow> icmpd_reach fd4 fd6 listenfd s'"

lemma icmpd_reach_ok: "icmpd_reach fd4 fd6 listenfd s \<Longrightarrow> icmpd_ok {fd4, fd6, listenfd} s"
proof (induction rule: icmpd_reach.induct)
  case icmpd_start
  show ?case by (rule icmpd_ok_init)
next
  case (icmpd_more s env s')
  then show ?case using icmpd_iter_ok by blast
qed

section \<open>Properties\<close>

definition interested :: "int \<Rightarrow> nat \<Rightarrow> icmpd \<Rightarrow> icmp_client list" where
  "interested fam port s = filter (\<lambda>c. 0 \<le> connfd c \<and> family c = fam \<and> lport c = int port) (clients s)"

lemma matching_all:
  assumes "icmpd_ok own s"
  shows "matching fam port s = interested fam port s"
proof -
  let ?P = "\<lambda>c. 0 \<le> connfd c \<and> family c = fam \<and> lport c = int port" and ?n = "nat (maxi s + 1)"
  have "\<not> ?P c" if "c \<in> set (drop ?n (clients s))" for c
  proof -
    from that obtain k where k: "k < length (drop ?n (clients s))" "c = drop ?n (clients s) ! k" by (auto simp: in_set_conv_nth)
    then have c: "?n + k < FD_SETSIZE" "c = clients s ! (?n + k)" using assms by (auto simp: icmpd_ok_def)
    have "\<forall>i < FD_SETSIZE. 0 \<le> connfd (clients s ! i) \<longrightarrow> int i \<le> maxi s" using assms by (simp add: icmpd_ok_def)
    then have "0 \<le> connfd c \<longrightarrow> int (?n + k) \<le> maxi s" using c by blast
    then show ?thesis by linarith
  qed
  then have "filter ?P (drop ?n (clients s)) = []" by (auto simp: filter_empty_conv)
  then have "filter ?P (take ?n (clients s) @ drop ?n (clients s)) = filter ?P (take ?n (clients s))"
    by (simp only: filter_append append_Nil2)
  then show ?thesis by (simp add: matching_def interested_def)
qed

text \<open>An ICMPv4 error: the IP header, the ICMP header, the IP header of the datagram in error and the beginning of that datagram.\<close>

definition icmp4_error :: "nat list \<Rightarrow> nat list \<Rightarrow> nat list \<Rightarrow> nat list \<Rightarrow> bool" where
  "icmp4_error h1 ic h2 udp \<longleftrightarrow> h1 \<noteq> [] \<and> length h1 = hd h1 mod 16 * 4 \<and> length ic = 8 \<and>
     (ic ! 0 = ICMP_UNREACH \<or> ic ! 0 = ICMP_TIMXCEED \<or> ic ! 0 = ICMP_SOURCEQUENCH) \<and>
     length h2 = hd h2 mod 16 * 4 \<and> 20 \<le> length h2 \<and> h2 ! 9 = IPPROTO_UDP \<and> 8 \<le> length udp"

definition v4_notice :: "nat list \<Rightarrow> nat list \<Rightarrow> nat list \<Rightarrow> icmpd_err" where
  "v4_notice ic h2 udp = \<lparr>icmpd_errno = v4_errno (ic ! 0) (ic ! 1), icmpd_type = ic ! 0, icmpd_code = ic ! 1, icmpd_len = 16,
     icmpd_dest = Sin (of_nat (be16 (drop 2 udp))) (take 4 (drop 16 h2))\<rparr>"

lemma readable_v4_error:
  assumes "icmp4_error h1 ic h2 udp"
  shows "readable_v4 (h1 @ ic @ h2 @ udp) s = Val (Ret (notify (matching AF_INET (be16 udp) s) (v4_notice ic h2 udp) s))"
proof -
  let ?b = "h1 @ ic @ h2 @ udp"
  note e = assms [unfolded icmp4_error_def]
  have h1: "hd ?b mod 16 * 4 = length h1" using e by (simp add: hd_append)
  have ic: "?b ! length h1 = ic ! 0" "?b ! (length h1 + 1) = ic ! 1" using e by (simp_all add: nth_append)
  have h2: "h2 \<noteq> []" using e by auto
  have hip: "?b ! (length h1 + 8) = hd h2" "?b ! (length h1 + 8 + 9) = h2 ! 9"
    using e h2 by (simp_all add: nth_append hd_conv_nth)
  have d: "drop (length h1 + 8 + 16) ?b = drop 16 h2 @ udp" "drop (length h1 + 8 + length h2) ?b = udp"
    "drop (length h1 + 8 + length h2 + 2) ?b = drop 2 udp" using e by simp_all
  have o: "octets ?b 0 1 = Val [hd ?b]" "octets ?b (length h1 + 8 + length h2) 2 = Val (take 2 udp)"
    "octets ?b (length h1 + 8 + length h2 + 2) 2 = Val (take 2 (drop 2 udp))"
    using e d(2,3) by (auto simp: octets_def take_Suc neq_Nil_conv)
  have be: "be16 (take 2 xs) = be16 xs" if "2 \<le> length xs" for xs using that by (simp add: be16_def)
  have len: "int (length ?b) - int (length h1) \<ge> 36" using e by simp
  have h2len: "hd h2 mod 16 * 4 = length h2" using e by simp
  have take4: "take 4 (drop 16 h2 @ udp) = take 4 (drop 16 h2)" using e by simp
  have bes: "be16 (take 2 udp) = be16 udp" "be16 (take 2 (drop 2 udp)) = be16 (drop 2 udp)"
    using e be [of udp] be [of "drop 2 udp"] by auto
  have n: "\<not> int (length ?b) - int (length h1) < 8" "\<not> int (length ?b) - int (length h1) < 36" using len by linarith+
  have kinds: "(ic ! 0 = ICMP_UNREACH \<or> ic ! 0 = ICMP_TIMXCEED \<or> ic ! 0 = ICMP_SOURCEQUENCH) = True" "(h2 ! 9 = IPPROTO_UDP) = True"
    using e by simp_all
  show ?thesis
    unfolding readable_v4_def o(1) c_value.case Let_def list.sel(1) h1 ic hip h2len o(2,3) d(1) take4 bes if_not_P [OF n(1)]
      if_not_P [OF n(2)] kinds if_True v4_notice_def
    by (simp add: notify_def)
qed

text \<open>C9. In every state the daemon gets into, an ICMP error about an IPv4 UDP datagram is reported to exactly the connected clients whose socket has
  the source port of the datagram, once each, with the destination of the datagram and the matching error number; nothing
  else changes.\<close>

theorem icmpd_notifies:
  assumes "icmpd_reach fd4 fd6 listenfd s" and "icmp4_error h1 ic h2 udp"
  shows "readable_v4 (h1 @ ic @ h2 @ udp) s =
    Val (Ret (s\<lparr>notices := notices s @ map (\<lambda>c. (connfd c, v4_notice ic h2 udp)) (interested AF_INET (be16 udp) s)\<rparr>))"
  using readable_v4_error [OF assms(2), of s] matching_all [OF icmpd_reach_ok [OF assms(1)]] by (simp add: notify_def)

theorem icmpd_notifies_witness:
  "readable_v4 (69 # replicate 19 0 @ [3, 3, 0, 0, 0, 0, 0, 0] @ (69 # replicate 8 0 @ [17] @ replicate 6 0 @ [10, 0, 0, 1]) @ [4, 0, 0, 7, 0, 8, 0, 0])
     (icmpd_init 3 4 5) = Val (Ret (icmpd_init 3 4 5))"
proof -
  have "icmp4_error (69 # replicate 19 0) [3, 3, 0, 0, 0, 0, 0, 0] (69 # replicate 8 0 @ [17] @ replicate 6 0 @ [10, 0, 0, 1]) [4, 0, 0, 7, 0, 8, 0, 0]"
    by (simp add: icmp4_error_def nth_append)
  from icmpd_notifies [OF icmpd_start this, of 3 4 5] show ?thesis
    by (simp add: interested_def icmpd_init_def filter_empty_conv)
qed

text \<open>A registration outlives its client: when a client that had registered an IPv4 port ends and another process connects, it gets
  the same entry, and until it passes a descriptor of its own it is sent the notices for the port of the first one.\<close>

theorem icmpd_stale_registration:
  assumes "icmpd_reach fd4 fd6 listenfd s" and "i < FD_SETSIZE" "0 \<le> connfd (clients s ! i)"
    and "family (clients s ! i) = AF_INET" "lport (clients s ! i) = int port"
    and "\<forall>j < i. 0 \<le> connfd (clients s ! j)" and "0 \<le> fd" "fd < int FD_SETSIZE"
  shows "\<exists>s'. readable_listen fd (drop_client i None s) = Val (Ret s') \<and> fd \<in> connfd ` set (interested AF_INET port s')"
proof -
  have len: "length (clients s) = FD_SETSIZE" using icmpd_reach_ok [OF assms(1)] by (simp add: icmpd_ok_def)
  let ?s = "drop_client i None s"
  have ff: "first_free cs = i" if "i < length cs" "cs ! i < 0" "\<forall>j < i. 0 \<le> cs ! j" for cs :: "int list"
    using that
  proof (induction cs arbitrary: i)
    case (Cons c cs)
    show ?case
    proof (cases i)
      case (Suc k)
      have "\<forall>j < k. 0 \<le> cs ! j"
      proof (intro allI impI)
        show "0 \<le> cs ! j" if "j < k" for j using Cons.prems(3) [rule_format, of "Suc j"] Suc that by simp
      qed
      moreover have "0 \<le> c" using Cons.prems(3) [rule_format, of 0] Suc by simp
      ultimately show ?thesis using Cons.IH [of k] Cons.prems(1,2) Suc by simp
    qed (use Cons.prems in simp)
  qed simp
  have "first_free (map connfd (clients ?s)) = i"
    using assms(2,6) len by (intro ff) (auto simp: drop_client_def Let_def nth_list_update)
  then have run: "\<exists>s'. readable_listen fd ?s = Val (Ret s') \<and> clients s' = (clients s)[i := (clients s ! i)\<lparr>connfd := fd\<rparr>]"
    using assms(2,7,8) len by (simp add: readable_listen_def FD_SET_def drop_client_def Let_def)
  then obtain s' where s': "readable_listen fd ?s = Val (Ret s')" "clients s' = (clients s)[i := (clients s ! i)\<lparr>connfd := fd\<rparr>]" by blast
  have "(clients s ! i)\<lparr>connfd := fd\<rparr> \<in> set (clients s')" using assms(2) len by (simp add: s'(2) set_update_memI)
  then have "(clients s ! i)\<lparr>connfd := fd\<rparr> \<in> set (interested AF_INET port s')" using assms(4,5,7) by (simp add: interested_def)
  then show ?thesis using s'(1) by force
qed

text \<open>A client connects and registers port 1024.\<close>

definition example_env :: "int set \<Rightarrow> icmpd_env" where
  "example_env fds = \<lparr>icmp_rset = fds, accept_ans = 6, packet4 = [], packet6 = [],
     conn_ans = (\<lambda>_. \<lparr>received_msg = Some (write_fd ''1'' 9), bound_to = Some (Sin 1024 [0, 0, 0, 0]), bound_wild = None\<rparr>)\<rparr>"

lemma icmpd_example:
  "\<exists>s. icmpd_reach 3 4 5 s \<and> connfd (clients s ! 0) = 6 \<and> family (clients s ! 0) = AF_INET \<and> lport (clients s ! 0) = 1024"
proof -
  let ?c = "\<lparr>connfd = -1, family = 0, lport = 0\<rparr>"
  have ff: "first_free (map connfd (replicate FD_SETSIZE ?c)) = 0"
  proof -
    have "first_free (map connfd (replicate (Suc n) ?c)) = 0" for n by simp
    from this [of 1023] show ?thesis by simp
  qed
  define s1 where "s1 = (icmpd_init 3 4 5)\<lparr>clients := (replicate FD_SETSIZE ?c)[0 := ?c\<lparr>connfd := 6\<rparr>], allset := {6, 3, 4, 5}, maxfd := 6, maxi := 0\<rparr>"
  have "icmpd_iter 3 4 5 (example_env {5}) (icmpd_init 3 4 5) = Val (Ret s1)"
    using ff by (simp add: icmpd_iter_def when_ready_def example_env_def readable_listen_def icmpd_init_def FD_SET_def s1_def)
  then have r1: "icmpd_reach 3 4 5 s1"
    by (rule icmpd_more [OF icmpd_start, rotated]) (simp add: example_env_def icmpd_init_def)
  have c1: "clients s1 ! 0 = ?c\<lparr>connfd := 6\<rparr>" by (simp add: s1_def)
  have len: "length (clients s1) = FD_SETSIZE" by (simp add: s1_def)
  have "readable_conn 0 (conn_ans (example_env {6}) 0) s1 = Ret (register 0 9 (conn_ans (example_env {6}) 0) s1)"
    by (simp add: readable_conn_def example_env_def read_fd_write_fd)
  then have "icmpd_iter 3 4 5 (example_env {6}) s1 = Val (Ret (register 0 9 (conn_ans (example_env {6}) 0) s1))"
    using c1 by (simp add: icmpd_iter_def when_ready_def example_env_def s1_def)
  then have "icmpd_reach 3 4 5 (register 0 9 (conn_ans (example_env {6}) 0) s1)"
    by (rule icmpd_more [OF r1, rotated]) (simp add: example_env_def)
  moreover have "clients (register 0 9 (conn_ans (example_env {6}) 0) s1) ! 0 = \<lparr>connfd = 6, family = AF_INET, lport = 1024\<rparr>"
    using c1 len by (simp add: register_def example_env_def)
  ultimately show ?thesis by (metis icmp_client.select_convs)
qed

theorem icmpd_stale_registration_witness:
  "\<exists>s s'. icmpd_reach 3 4 5 s \<and> readable_listen 7 (drop_client 0 None s) = Val (Ret s') \<and> 7 \<in> connfd ` set (interested AF_INET 1024 s')"
proof -
  obtain s where "icmpd_reach 3 4 5 s" "connfd (clients s ! 0) = 6" "family (clients s ! 0) = AF_INET" "lport (clients s ! 0) = 1024"
    using icmpd_example by blast
  then show ?thesis using icmpd_stale_registration [of 3 4 5 s 0 1024 7] by auto
qed

text \<open>The length of an ICMPv6 message is only tested against 16, although 48 octets are used.\<close>

lemma readable_v6_short:
  assumes "16 \<le> length buf" "length buf < 48" "buf ! 0 = 1 \<or> buf ! 0 = 2 \<or> buf ! 0 = 3"
  shows "readable_v6 buf s = UB"
  using assms by (auto simp: readable_v6_def octets_def Let_def)

text \<open>A message about a packet with IP options may end before the ports.\<close>

lemma readable_v4_short:
  assumes "length h1 = 20" "hd h1 = 69" "length ic = 8" "ic ! 0 = ICMP_UNREACH" "length h2 = 28" "hd h2 = 79" "h2 ! 9 = IPPROTO_UDP"
  shows "readable_v4 (h1 @ ic @ h2) s = UB"
proof -
  have "h1 \<noteq> []" "h2 \<noteq> []" using assms(1,5) by auto
  then have "hd (h1 @ ic @ h2) = 69" "(h1 @ ic @ h2) ! 28 = 79" using assms by (simp_all add: nth_append hd_conv_nth)
  moreover have "octets (h1 @ ic @ h2) 0 1 = Val [hd (h1 @ ic @ h2)]"
    using \<open>h1 \<noteq> []\<close> by (auto simp: octets_def take_Suc neq_Nil_conv)
  ultimately show ?thesis using assms by (simp add: readable_v4_def Let_def nth_append octets_def)
qed

end
