(* ===== verification/Poll_Server.thy ===== *)
theory Poll_Server
  imports Select_Server
begin

text \<open>
  The single-process servers on \<^verbatim>\<open>poll\<close> and \<^verbatim>\<open>epoll\<close>: \<^verbatim>\<open>unpv13e/tcpcliserv/tcpservpoll01.c\<close>, \<^verbatim>\<open>socket/poll_server.c\<close>
  and \<^verbatim>\<open>socket/epoll_server.c\<close>.

  The array of \<^verbatim>\<open>struct pollfd\<close> is not initialised beyond the descriptors, so \<^verbatim>\<open>events\<close> and \<^verbatim>\<open>revents\<close> are \<open>None\<close>
  until they are written; using them before is undefined. \<^verbatim>\<open>poll\<close> writes \<^verbatim>\<open>revents\<close> of the entries it is given only, and 0 for a
  negative descriptor. One iteration of a server takes what the kernel answers in it (\<open>poll_env\<close>). The
  field \<open>opened\<close> records the descriptors the process holds.
\<close>

unbundle bit_operations_syntax

section \<open>State\<close>

record pollfd =
  pfd :: int
  events :: "u16 option"
  revents :: "u16 option"

record poll_srv =
  pclient :: "pollfd list"
  pmaxi :: nat
  echoed :: "(int \<times> char list) list"
  opened :: "int set"

record poll_env =
  poll_ok :: bool
  poll_ans :: "int \<Rightarrow> u16"
  connection :: int
  reads :: "int \<Rightarrow> rd"
  can_write :: "int \<Rightarrow> bool"

abbreviation (input) POLLRDNORM :: u16 where "POLLRDNORM \<equiv> 0x40"
abbreviation (input) POLLERR :: u16 where "POLLERR \<equiv> 0x8"

definition unused :: pollfd where
  "unused = \<lparr>pfd = -1, events = None, revents = None\<rparr>"

definition poll_init :: "nat \<Rightarrow> int \<Rightarrow> poll_srv" where
  "poll_init open_max listenfd =
     \<lparr>pclient = \<lparr>pfd = listenfd, events = Some POLLRDNORM, revents = None\<rparr> # replicate (open_max - 1) unused,
      pmaxi = 0, echoed = [], opened = {listenfd}\<rparr>"

definition own_poll_init :: "nat \<Rightarrow> int \<Rightarrow> poll_srv" where
  "own_poll_init = poll_init"

section \<open>The system call\<close>

definition polled :: "poll_env \<Rightarrow> pollfd \<Rightarrow> pollfd" where
  "polled env p = p\<lparr>revents := Some (if pfd p < 0 then 0 else poll_ans env (pfd p))\<rparr>"

definition poll :: "poll_env \<Rightarrow> nat \<Rightarrow> pollfd list \<Rightarrow> (int \<times> pollfd list) c_value" where
  "poll env n ps =
     (if list_ex (\<lambda>p. 0 \<le> pfd p \<and> events p = None) (take n ps) then UB
      else if \<not> poll_ok env then Val (-1, ps)
      else let qs = map (polled env) (take n ps) in
        Val (int (how_many (\<lambda>p. revents p \<noteq> Some 0) qs), qs @ drop n ps))"

section \<open>A new connection\<close>

text \<open>The entry used for it, or the size of the array.\<close>

definition free_entry :: "pollfd list \<Rightarrow> nat" where
  "free_entry ps = Suc (first_free (map pfd (tl ps)))"

definition add_client :: "nat \<Rightarrow> int \<Rightarrow> poll_srv \<Rightarrow> poll_srv" where
  "add_client i fd s =
     s\<lparr>pclient := (pclient s)[i := (pclient s ! i)\<lparr>pfd := fd, events := Some POLLRDNORM\<rparr>],
       pmaxi := (if i > pmaxi s then i else pmaxi s)\<rparr>"

definition accepted_fd :: "int \<Rightarrow> poll_srv \<Rightarrow> poll_srv" where
  "accepted_fd fd s = (if 0 \<le> fd then s\<lparr>opened := insert fd (opened s)\<rparr> else s)"

definition close_fd :: "int \<Rightarrow> poll_srv \<Rightarrow> poll_srv" where
  "close_fd fd s = s\<lparr>opened := opened s - {fd}\<rparr>"

section \<open>The connected clients\<close>

definition forget :: "nat \<Rightarrow> poll_srv \<Rightarrow> poll_srv" where
  "forget i s = s\<lparr>pclient := (pclient s)[i := (pclient s ! i)\<lparr>pfd := -1\<rparr>]\<rparr>"

definition poll_serve :: "poll_env \<Rightarrow> nat \<Rightarrow> poll_srv \<Rightarrow> poll_srv run" where
  "poll_serve env i s =
     (let fd = pfd (pclient s ! i) in
      case reads env fd of
        RdErr e \<Rightarrow> if e = ECONNRESET then Ret (forget i (close_fd fd s)) else Exit 1
      | RdOk bs \<Rightarrow>
          if bs = [] then Ret (forget i (close_fd fd s))
          else if can_write env fd then Ret (s\<lparr>echoed := echoed s @ [(fd, bs)]\<rparr>) else Exit 1)"

text \<open>The loop of \<^verbatim>\<open>tcpservpoll01.c\<close> over the entries.\<close>

fun poll_clients :: "poll_env \<Rightarrow> nat list \<Rightarrow> int \<Rightarrow> poll_srv \<Rightarrow> poll_srv run c_value" where
  "poll_clients env [] nready s = Val (Ret s)"
| "poll_clients env (i # is) nready s =
     (let p = pclient s ! i in
      if pfd p < 0 then poll_clients env is nready s
      else case revents p of
        None \<Rightarrow> UB
      | Some r \<Rightarrow>
          if r AND (POLLRDNORM OR POLLERR) \<noteq> 0 then
            (case poll_serve env i s of
               Exit c \<Rightarrow> Val (Exit c)
             | Ret s' \<Rightarrow> if nready - 1 \<le> 0 then Val (Ret s') else poll_clients env is (nready - 1) s')
          else poll_clients env is nready s)"

text \<open>
  The loop of \<^verbatim>\<open>poll_server.c\<close> looks at every entry. At the end of file it first overwrites the descriptor and then closes
  what it has just written, -1.
\<close>

definition own_poll_serve :: "poll_env \<Rightarrow> nat \<Rightarrow> poll_srv \<Rightarrow> poll_srv" where
  "own_poll_serve env i s =
     (let fd = pfd (pclient s ! i) in
      case reads env fd of
        RdErr e \<Rightarrow> if e = ECONNRESET then forget i (close_fd fd s) else s
      | RdOk bs \<Rightarrow>
          if bs = [] then (let s' = forget i s in close_fd (pfd (pclient s' ! i)) s')
          else if can_write env fd then s\<lparr>echoed := echoed s @ [(fd, bs)]\<rparr> else s)"

fun own_poll_clients :: "poll_env \<Rightarrow> nat list \<Rightarrow> poll_srv \<Rightarrow> poll_srv c_value" where
  "own_poll_clients env [] s = Val s"
| "own_poll_clients env (i # is) s =
     (case revents (pclient s ! i) of
        None \<Rightarrow> UB
      | Some r \<Rightarrow> own_poll_clients env is (if r AND (POLLRDNORM OR POLLERR) \<noteq> 0 then own_poll_serve env i s else s))"

section \<open>One iteration\<close>

definition poll_iter :: "int \<Rightarrow> poll_env \<Rightarrow> poll_srv \<Rightarrow> poll_srv run c_value" where
  "poll_iter listenfd env s =
     (case poll env (pmaxi s + 1) (pclient s) of
        UB \<Rightarrow> UB
      | Val (nready, ps) \<Rightarrow>
          if nready < 0 then Val (Exit 1)
          else let s1 = s\<lparr>pclient := ps\<rparr> in
          case revents (ps ! 0) of
            None \<Rightarrow> UB
          | Some r \<Rightarrow>
              if r AND POLLRDNORM \<noteq> 0 then
                let fd = connection env; i = free_entry ps in
                if fd < 0 \<or> i = length ps then Val (Exit 1)
                else let s2 = add_client i fd (accepted_fd fd s1) in
                  if nready - 1 \<le> 0 then Val (Ret s2)
                  else poll_clients env [1..<pmaxi s2 + 1] (nready - 1) s2
              else poll_clients env [1..<pmaxi s1 + 1] nready s1)"

definition own_poll_iter :: "int \<Rightarrow> poll_env \<Rightarrow> poll_srv \<Rightarrow> poll_srv c_value" where
  "own_poll_iter listenfd env s =
     (case poll env (pmaxi s + 1) (pclient s) of
        UB \<Rightarrow> UB
      | Val (nready, ps) \<Rightarrow>
          let s1 = s\<lparr>pclient := ps\<rparr> in
          case revents (ps ! 0) of
            None \<Rightarrow> UB
          | Some r \<Rightarrow>
              if r AND POLLRDNORM \<noteq> 0 then
                let fd = connection env; i = free_entry ps; sa = accepted_fd fd s1 in
                if i = length ps then Val (close_fd fd sa)
                else let s2 = add_client i fd sa in
                  if nready - 1 \<le> 0 then Val s2
                  else own_poll_clients env [1..<pmaxi s2 + 1] s2
              else own_poll_clients env [1..<pmaxi s1 + 1] s1)"

section \<open>Serving every ready client\<close>

definition ready :: "u16 \<Rightarrow> bool" where
  "ready r \<longleftrightarrow> r AND (POLLRDNORM OR POLLERR) \<noteq> 0"

definition flagged :: "pollfd \<Rightarrow> bool" where
  "flagged p \<longleftrightarrow> 0 \<le> pfd p \<and> (case revents p of None \<Rightarrow> False | Some r \<Rightarrow> ready r)"

text \<open>What a client sent; nothing when it has gone.\<close>

definition sent :: "poll_env \<Rightarrow> int \<Rightarrow> char list" where
  "sent env fd = (case reads env fd of RdOk bs \<Rightarrow> bs | RdErr _ \<Rightarrow> [])"

definition fine :: "poll_env \<Rightarrow> int \<Rightarrow> bool" where
  "fine env fd \<longleftrightarrow> (reads env fd = RdErr ECONNRESET \<or> reads env fd = RdOk (sent env fd) \<and> can_write env fd)"

definition served_one :: "poll_env \<Rightarrow> nat \<Rightarrow> poll_srv \<Rightarrow> poll_srv" where
  "served_one env i s =
     (let fd = pfd (pclient s ! i) in
      if sent env fd = [] then forget i (close_fd fd s) else s\<lparr>echoed := echoed s @ [(fd, sent env fd)]\<rparr>)"

fun serve_all :: "poll_env \<Rightarrow> nat list \<Rightarrow> poll_srv \<Rightarrow> poll_srv" where
  "serve_all env [] s = s"
| "serve_all env (i # is) s = serve_all env is (if flagged (pclient s ! i) then served_one env i s else s)"

lemma poll_serve_fine:
  "fine env (pfd (pclient s ! i)) \<Longrightarrow> poll_serve env i s = Ret (served_one env i s)"
  by (auto simp: fine_def poll_serve_def served_one_def Let_def sent_def split: rd.splits)

lemma served_one_other: "j \<noteq> i \<Longrightarrow> pclient (served_one env i s) ! j = pclient s ! j"
  by (simp add: served_one_def Let_def forget_def close_fd_def)

lemma served_one_fields [simp]:
  "pmaxi (served_one env i s) = pmaxi s" "length (pclient (served_one env i s)) = length (pclient s)"
  by (simp_all add: served_one_def Let_def forget_def close_fd_def)

text \<open>
  The loop may stop as soon as it has served as many clients as \<^verbatim>\<open>poll\<close> counted: it never looks at entries \<open>js\<close> after the
  last ready one when the count is exact.
\<close>

lemma poll_clients_serve_all:
  assumes "distinct is" and "\<forall>i \<in> set is. 0 \<le> pfd (pclient s ! i) \<longrightarrow> revents (pclient s ! i) \<noteq> None"
    and "\<forall>i \<in> set is. flagged (pclient s ! i) \<longrightarrow> fine env (pfd (pclient s ! i))"
    and "int (how_many (\<lambda>i. flagged (pclient s ! i)) is) \<le> nready"
    and "js = [] \<or> 0 < nready \<and> int (how_many (\<lambda>i. flagged (pclient s ! i)) is) = nready"
  shows "poll_clients env (is @ js) nready s = Val (Ret (serve_all env is s))"
  using assms
proof (induction "is" arbitrary: nready s)
  case (Cons i "is")
  let ?p = "pclient s ! i"
  show ?case
  proof (cases "flagged ?p")
    case True
    let ?s = "served_one env i s"
    have same: "pclient ?s ! j = pclient s ! j" if "j \<in> set is" for j
      using that Cons.prems(1) by (auto intro: served_one_other)
    have many: "how_many (\<lambda>i. flagged (pclient ?s ! i)) is = how_many (\<lambda>i. flagged (pclient s ! i)) is"
      by (rule how_many_cong) (simp add: same)
    have run: "poll_serve env i s = Ret ?s" using Cons.prems(3) True by (simp add: poll_serve_fine)
    have idle: "serve_all env is t = t" if "how_many (\<lambda>i. flagged (pclient t ! i)) is = 0" for t
      using that by (induction "is") (auto split: if_splits)
    have rest: "poll_clients env (is @ js) (nready - 1) ?s = Val (Ret (serve_all env is ?s))" if "0 < nready - 1"
      using Cons.prems True that by (intro Cons.IH) (auto simp: same many)
    have "how_many (\<lambda>i. flagged (pclient ?s ! i)) is = 0" if "nready - 1 \<le> 0"
      using that Cons.prems(4) True by (simp add: many)
    then have stop: "serve_all env is ?s = ?s" if "nready - 1 \<le> 0" using that by (intro idle)
    from True obtain r where "revents ?p = Some r" "0 \<le> pfd ?p" "ready r" by (auto simp: flagged_def split: option.splits)
    with True run rest stop show ?thesis by (auto simp: ready_def)
  next
    case False
    have "poll_clients env (is @ js) nready s = Val (Ret (serve_all env is s))"
      using Cons.prems False by (intro Cons.IH) auto
    with False Cons.prems(2) show ?thesis by (auto simp: flagged_def ready_def Let_def split: option.splits)
  qed
qed auto

text \<open>The effect of serving the clients of distinct entries.\<close>

definition gone :: "poll_env \<Rightarrow> pollfd \<Rightarrow> bool" where
  "gone env p \<longleftrightarrow> flagged p \<and> sent env (pfd p) = []"

definition echo_of :: "poll_env \<Rightarrow> pollfd \<Rightarrow> (int \<times> char list) list" where
  "echo_of env p = (if flagged p \<and> sent env (pfd p) \<noteq> [] then [(pfd p, sent env (pfd p))] else [])"

lemma serve_all_effect:
  assumes "distinct is" and "\<forall>i \<in> set is. i < length (pclient s)"
  shows "pclient (serve_all env is s) ! j = (if j \<in> set is \<and> gone env (pclient s ! j) then (pclient s ! j)\<lparr>pfd := -1\<rparr> else pclient s ! j) \<and>
    length (pclient (serve_all env is s)) = length (pclient s) \<and> pmaxi (serve_all env is s) = pmaxi s \<and>
    echoed (serve_all env is s) = echoed s @ concat (map (\<lambda>i. echo_of env (pclient s ! i)) is) \<and>
    opened (serve_all env is s) = opened s - {pfd (pclient s ! i) |i. i \<in> set is \<and> gone env (pclient s ! i)}"
  using assms
proof (induction "is" arbitrary: s)
  case (Cons i "is")
  define t where "t = (if flagged (pclient s ! i) then served_one env i s else s)"
  have same: "pclient t ! k = pclient s ! k" if "k \<noteq> i" for k
    using that by (simp add: t_def served_one_other)
  have t: "length (pclient t) = length (pclient s)" "pmaxi t = pmaxi s" by (simp_all add: t_def)
  have at: "pclient t ! i = (if gone env (pclient s ! i) then (pclient s ! i)\<lparr>pfd := -1\<rparr> else pclient s ! i)"
    "echoed t = echoed s @ echo_of env (pclient s ! i)"
    "opened t = (if gone env (pclient s ! i) then opened s - {pfd (pclient s ! i)} else opened s)"
    using Cons.prems(2) by (simp_all add: t_def served_one_def gone_def echo_of_def forget_def close_fd_def Let_def)
  have nin: "i \<notin> set is" using Cons.prems(1) by simp
  have maps: "map (\<lambda>i. echo_of env (pclient t ! i)) is = map (\<lambda>i. echo_of env (pclient s ! i)) is"
    using nin by (intro map_cong refl) (metis same)
  have sets: "{pfd (pclient t ! k) |k. k \<in> set is \<and> gone env (pclient t ! k)} =
      {pfd (pclient s ! k) |k. k \<in> set is \<and> gone env (pclient s ! k)}"
    using nin by (intro Collect_cong ex_cong1) (metis same)
  have ih: "pclient (serve_all env is t) ! j = (if j \<in> set is \<and> gone env (pclient t ! j) then (pclient t ! j)\<lparr>pfd := -1\<rparr> else pclient t ! j)"
    "length (pclient (serve_all env is t)) = length (pclient t)" "pmaxi (serve_all env is t) = pmaxi t"
    "echoed (serve_all env is t) = echoed t @ concat (map (\<lambda>i. echo_of env (pclient t ! i)) is)"
    "opened (serve_all env is t) = opened t - {pfd (pclient t ! i) |i. i \<in> set is \<and> gone env (pclient t ! i)}"
    using Cons.IH [of t] Cons.prems t by auto
  have step: "serve_all env (i # is) s = serve_all env is t" by (simp add: t_def)
  have "pclient (serve_all env (i # is) s) ! j =
      (if j \<in> set (i # is) \<and> gone env (pclient s ! j) then (pclient s ! j)\<lparr>pfd := -1\<rparr> else pclient s ! j)"
    using nin same [of j] at(1) unfolding step ih by (cases "j = i") auto
  moreover have "opened (serve_all env (i # is) s) = opened s - {pfd (pclient s ! k) |k. k \<in> set (i # is) \<and> gone env (pclient s ! k)}"
    unfolding step ih sets at(3) by auto
  ultimately show ?case using t at(2) ih(2-4) maps by (simp add: step del: serve_all.simps)
qed simp

section \<open>Invariant\<close>

definition pconnected :: "poll_srv \<Rightarrow> int list" where
  "pconnected s = filter (\<lambda>fd. 0 \<le> fd) (map pfd (tl (pclient s)))"

text \<open>
  The array is as large as at the start, its first entry listens, every entry in use is within \<^verbatim>\<open>maxi\<close>, has its events set and a
  descriptor of its own.
\<close>

definition table_ok :: "nat \<Rightarrow> int \<Rightarrow> poll_srv \<Rightarrow> bool" where
  "table_ok open_max listenfd s \<longleftrightarrow>
     length (pclient s) = open_max \<and> pmaxi s < open_max \<and> 0 \<le> listenfd \<and>
     pfd (pclient s ! 0) = listenfd \<and> events (pclient s ! 0) \<noteq> None \<and>
     (\<forall>j < open_max. 0 < j \<longrightarrow> 0 \<le> pfd (pclient s ! j) \<longrightarrow> j \<le> pmaxi s \<and> events (pclient s ! j) \<noteq> None) \<and>
     (\<forall>i < open_max. \<forall>j < open_max. 0 \<le> pfd (pclient s ! i) \<longrightarrow> pfd (pclient s ! i) = pfd (pclient s ! j) \<longrightarrow> i = j) \<and>
     (\<forall>j < open_max. pmaxi s < j \<longrightarrow> revents (pclient s ! j) = None)"

lemma table_okD:
  assumes "table_ok open_max listenfd s"
  shows table_len: "length (pclient s) = open_max" and table_maxi: "pmaxi s < open_max"
    and table_listen: "pfd (pclient s ! 0) = listenfd" "0 \<le> listenfd" "events (pclient s ! 0) \<noteq> None"
    and table_used: "\<And>j. j < open_max \<Longrightarrow> 0 < j \<Longrightarrow> 0 \<le> pfd (pclient s ! j) \<Longrightarrow> j \<le> pmaxi s \<and> events (pclient s ! j) \<noteq> None"
    and table_inj: "\<And>i j. i < open_max \<Longrightarrow> j < open_max \<Longrightarrow> 0 \<le> pfd (pclient s ! i) \<Longrightarrow> pfd (pclient s ! i) = pfd (pclient s ! j) \<Longrightarrow> i = j"
    and table_beyond: "\<And>j. j < open_max \<Longrightarrow> pmaxi s < j \<Longrightarrow> revents (pclient s ! j) = None"
  using assms unfolding table_ok_def by blast+

lemma table_ok_init: "0 < open_max \<Longrightarrow> 0 \<le> listenfd \<Longrightarrow> table_ok open_max listenfd (poll_init open_max listenfd)"
  by (auto simp: table_ok_def poll_init_def unused_def nth_Cons split: nat.splits)

text \<open>What is kept when only \<^verbatim>\<open>revents\<close> change.\<close>

lemma table_ok_cong:
  assumes "table_ok open_max listenfd s" and "length (pclient t) = length (pclient s)" and "pmaxi t = pmaxi s"
    and "\<And>j. j < length (pclient s) \<Longrightarrow> pfd (pclient t ! j) = pfd (pclient s ! j) \<and> events (pclient t ! j) = events (pclient s ! j)"
    and "\<And>j. j < length (pclient s) \<Longrightarrow> pmaxi s < j \<Longrightarrow> revents (pclient t ! j) = revents (pclient s ! j)"
  shows "table_ok open_max listenfd t"
proof -
  have len: "length (pclient s) = open_max" by (rule table_len [OF assms(1)])
  have "0 < open_max" using table_maxi [OF assms(1)] by simp
  with assms(4) len have "pfd (pclient t ! 0) = pfd (pclient s ! 0)" "events (pclient t ! 0) = events (pclient s ! 0)" by simp_all
  with assms len show ?thesis by (simp add: table_ok_def)
qed

lemma table_ok_shrink:
  assumes ok: "table_ok open_max listenfd t" and u: "length (pclient u) = length (pclient t)" "pmaxi u = pmaxi t"
    and pfds: "\<And>j. j < length (pclient t) \<Longrightarrow> pfd (pclient u ! j) = pfd (pclient t ! j) \<or> 0 < j \<and> pfd (pclient u ! j) = -1"
    and same: "\<And>j. j < length (pclient t) \<Longrightarrow> events (pclient u ! j) = events (pclient t ! j)"
      "\<And>j. j < length (pclient t) \<Longrightarrow> revents (pclient u ! j) = revents (pclient t ! j)"
  shows "table_ok open_max listenfd u"
  unfolding table_ok_def u
proof (intro conjI allI impI)
  have len: "length (pclient t) = open_max" and mx: "pmaxi t < open_max" using table_len [OF ok] table_maxi [OF ok] by simp_all
  show "length (pclient t) = open_max" "pmaxi t < open_max" "0 \<le> listenfd" using len mx table_listen [OF ok] by simp_all
  show "pfd (pclient u ! 0) = listenfd" "events (pclient u ! 0) \<noteq> None"
    using pfds [of 0] same(1) [of 0] len mx table_listen [OF ok] by simp_all
  show "j \<le> pmaxi t" "events (pclient u ! j) \<noteq> None" if "j < open_max" "0 < j" "0 \<le> pfd (pclient u ! j)" for j
    using pfds [of j] same(1) [of j] len table_used [OF ok that(1,2)] that by auto
  show "i = j" if "i < open_max" "j < open_max" "0 \<le> pfd (pclient u ! i)" "pfd (pclient u ! i) = pfd (pclient u ! j)" for i j
  proof -
    have "pfd (pclient t ! i) = pfd (pclient u ! i)" "pfd (pclient t ! j) = pfd (pclient u ! j)"
      using pfds [of i] pfds [of j] len that by auto
    then show ?thesis using table_inj [OF ok that(1,2)] that(3,4) by metis
  qed
  show "revents (pclient u ! j) = None" if "j < open_max" "pmaxi t < j" for j
    using same(2) [of j] table_beyond [OF ok that] len that by simp
qed

lemma connected_set:
  "pclient s \<noteq> [] \<Longrightarrow> set (pconnected s) = {fd. 0 \<le> fd \<and> (\<exists>j. 0 < j \<and> j < length (pclient s) \<and> pfd (pclient s ! j) = fd)}"
proof -
  assume "pclient s \<noteq> []"
  then obtain p ps where ps: "pclient s = p # ps" by (cases "pclient s") auto
  have "(fd \<in> pfd ` set ps) \<longleftrightarrow> (\<exists>j. 0 < j \<and> j < length (p # ps) \<and> pfd ((p # ps) ! j) = fd)" for fd
  proof
    assume "fd \<in> pfd ` set ps"
    then obtain k where "k < length ps" "pfd (ps ! k) = fd" by (auto simp: in_set_conv_nth)
    then show "\<exists>j. 0 < j \<and> j < length (p # ps) \<and> pfd ((p # ps) ! j) = fd" by (intro exI [of _ "Suc k"]) simp
  next
    assume "\<exists>j. 0 < j \<and> j < length (p # ps) \<and> pfd ((p # ps) ! j) = fd"
    then obtain k where "k < length ps" "pfd (ps ! k) = fd" by (metis gr0_conv_Suc length_Cons nth_Cons_Suc Suc_less_eq)
    then show "fd \<in> pfd ` set ps" by (metis imageI nth_mem)
  qed
  then show ?thesis unfolding pconnected_def ps by auto
qed

lemma connected_distinct: "table_ok open_max listenfd s \<Longrightarrow> distinct (pconnected s) \<and> listenfd \<notin> set (pconnected s)"
proof -
  assume ok: "table_ok open_max listenfd s"
  note len = table_len [OF ok] and inj = table_inj [OF ok]
  have ne: "pclient s \<noteq> []" using len table_maxi [OF ok] by auto
  then obtain p ps where ps: "pclient s = p # ps" by (cases "pclient s") auto
  have "distinct (filter (\<lambda>fd. 0 \<le> fd) (map pfd ps))" if "\<forall>i < length ps. \<forall>j < length ps. 0 \<le> pfd (ps ! i) \<longrightarrow> pfd (ps ! i) = pfd (ps ! j) \<longrightarrow> i = j" for ps
    using that
  proof (induction ps)
    case (Cons q qs)
    have "pfd q \<notin> set (map pfd qs)" if "0 \<le> pfd q"
    proof
      assume "pfd q \<in> set (map pfd qs)"
      then obtain k where "k < length qs" "pfd (qs ! k) = pfd q" by (auto simp: in_set_conv_nth)
      then show False using Cons.prems [rule_format, of 0 "Suc k"] that by simp
    qed
    moreover have "\<forall>i < length qs. \<forall>j < length qs. 0 \<le> pfd (qs ! i) \<longrightarrow> pfd (qs ! i) = pfd (qs ! j) \<longrightarrow> i = j"
      using Cons.prems [rule_format, of "Suc _" "Suc _"] by simp
    ultimately show ?case using Cons.IH by auto
  qed simp
  moreover have "\<forall>i < length ps. \<forall>j < length ps. 0 \<le> pfd (ps ! i) \<longrightarrow> pfd (ps ! i) = pfd (ps ! j) \<longrightarrow> i = j"
  proof (intro allI impI)
    show "i = j" if "i < length ps" "j < length ps" "0 \<le> pfd (ps ! i)" "pfd (ps ! i) = pfd (ps ! j)" for i j
      using inj [of "Suc i" "Suc j"] len that by (simp add: ps)
  qed
  moreover have "listenfd \<notin> set (pconnected s)"
  proof
    assume "listenfd \<in> set (pconnected s)"
    then obtain j where "0 < j" "j < length (pclient s)" "pfd (pclient s ! j) = listenfd"
      using ne by (auto simp: connected_set)
    then show False using inj [of 0 j] table_listen [OF ok] len table_maxi [OF ok] by simp
  qed
  ultimately show ?thesis unfolding pconnected_def ps by simp
qed

section \<open>What an iteration does\<close>

text \<open>Serving the ready clients, the entries of which are within \<open>m\<close>.\<close>

definition gone_fds :: "poll_env \<Rightarrow> pollfd list \<Rightarrow> int set" where
  "gone_fds env ps = {pfd (ps ! j) |j. 0 < j \<and> j < length ps \<and> gone env (ps ! j)}"

lemma tl_as_map: "ps \<noteq> [] \<Longrightarrow> tl ps = map (\<lambda>i. ps ! i) [1..<length ps]"
  by (rule nth_equalityI) (simp_all add: nth_tl)

lemma echo_of_tail:
  assumes "ps \<noteq> []" "m < length ps" and "\<And>j. m < j \<Longrightarrow> j < length ps \<Longrightarrow> \<not> flagged (ps ! j)"
  shows "concat (map (\<lambda>i. echo_of env (ps ! i)) [1..<m + 1]) = concat (map (echo_of env) (tl ps))"
proof -
  have "[1..<length ps] = [1..<m + 1] @ [m + 1..<length ps]" by (rule upt_split) (use assms(2) in auto)
  moreover have "concat (map (\<lambda>i. echo_of env (ps ! i)) [m + 1..<length ps]) = []"
    using assms(3) by (auto simp: echo_of_def)
  ultimately show ?thesis by (simp add: tl_as_map [OF assms(1)] o_def)
qed

lemma serve_all_ok:
  fixes env :: poll_env
  assumes ok: "table_ok open_max listenfd t" and m: "m \<le> pmaxi t"
    and tail: "\<And>j. m < j \<Longrightarrow> j < open_max \<Longrightarrow> \<not> flagged (pclient t ! j)"
  defines "u \<equiv> serve_all env [1..<m + 1] t"
  shows "table_ok open_max listenfd u \<and> set (pconnected u) = set (pconnected t) - gone_fds env (pclient t) \<and>
    opened u = opened t - gone_fds env (pclient t) \<and> echoed u = echoed t @ concat (map (echo_of env) (tl (pclient t)))"
proof -
  have len: "length (pclient t) = open_max" and mx: "pmaxi t < open_max" using table_len [OF ok] table_maxi [OF ok] by simp_all
  have eff: "pclient u ! j = (if j \<in> set [1..<m + 1] \<and> gone env (pclient t ! j) then (pclient t ! j)\<lparr>pfd := -1\<rparr> else pclient t ! j)"
    "length (pclient u) = length (pclient t)" "pmaxi u = pmaxi t"
    "echoed u = echoed t @ concat (map (\<lambda>i. echo_of env (pclient t ! i)) [1..<m + 1])"
    "opened u = opened t - {pfd (pclient t ! i) |i. i \<in> set [1..<m + 1] \<and> gone env (pclient t ! i)}" for j
    using serve_all_effect [of "[1..<m + 1]" t env] m mx len unfolding u_def by auto
  have at: "pclient u ! j = (if 0 < j \<and> gone env (pclient t ! j) then (pclient t ! j)\<lparr>pfd := -1\<rparr> else pclient t ! j)"
    if "j < open_max" for j using eff(1) [of j] tail [OF _ that] by (auto simp: gone_def)
  have pat: "pfd (pclient u ! j) = (if 0 < j \<and> gone env (pclient t ! j) then -1 else pfd (pclient t ! j))"
    "events (pclient u ! j) = events (pclient t ! j)" "revents (pclient u ! j) = revents (pclient t ! j)" if "j < open_max" for j
    unfolding at [OF that] by simp_all
  have gone: "{pfd (pclient t ! i) |i. i \<in> set [1..<m + 1] \<and> gone env (pclient t ! i)} = gone_fds env (pclient t)"
  proof -
    have "(i \<in> set [1..<m + 1] \<and> gone env (pclient t ! i)) = (0 < i \<and> i < length (pclient t) \<and> gone env (pclient t ! i))" for i
    proof (cases "i \<le> m")
      case True
      with m mx len show ?thesis by auto
    next
      case False
      with tail [of i] len show ?thesis by (auto simp: gone_def)
    qed
    then show ?thesis unfolding gone_fds_def by simp
  qed
  have ne: "pclient t \<noteq> []" "pclient u \<noteq> []" using len mx eff(2) by auto
  have "table_ok open_max listenfd u"
    by (rule table_ok_shrink [OF ok eff(2,3)]) (use pat len in auto)
  moreover have "set (pconnected u) = set (pconnected t) - gone_fds env (pclient t)"
  proof (intro equalityI subsetI)
    fix fd assume "fd \<in> set (pconnected u)"
    then obtain j where j: "0 < j" "j < open_max" "pfd (pclient u ! j) = fd" "0 \<le> fd" using ne eff(2) len by (auto simp: connected_set)
    then have pj: "pfd (pclient t ! j) = fd" "\<not> gone env (pclient t ! j)" using pat [of j] by (auto split: if_splits)
    have "fd \<notin> gone_fds env (pclient t)"
    proof
      assume "fd \<in> gone_fds env (pclient t)"
      then obtain k where k: "k < open_max" "gone env (pclient t ! k)" "pfd (pclient t ! k) = fd" using len by (auto simp: gone_fds_def)
      then have "j = k" using table_inj [OF ok, of j k] j pj by simp
      with k(2) pj(2) show False by simp
    qed
    with pj j ne len show "fd \<in> set (pconnected t) - gone_fds env (pclient t)" by (auto simp: connected_set)
  next
    fix fd assume "fd \<in> set (pconnected t) - gone_fds env (pclient t)"
    then obtain j where j: "0 < j" "j < open_max" "pfd (pclient t ! j) = fd" "0 \<le> fd" "\<not> gone env (pclient t ! j)"
      using ne len by (auto simp: connected_set gone_fds_def)
    then show "fd \<in> set (pconnected u)" using pat [of j] ne eff(2) len by (auto simp: connected_set)
  qed
  moreover have "echoed u = echoed t @ concat (map (echo_of env) (tl (pclient t)))"
    using echo_of_tail [OF ne(1), of m env] tail m mx len unfolding eff(4) by simp
  ultimately show ?thesis using eff(5) unfolding gone by simp
qed

text \<open>The array after \<^verbatim>\<open>poll\<close>.\<close>

lemma poll_effect:
  assumes ok: "table_ok open_max listenfd s" and "poll_ok env"
  shows "\<exists>ps. poll env (pmaxi s + 1) (pclient s) =
      Val (int (how_many (\<lambda>j. revents (ps ! j) \<noteq> Some 0) [0..<pmaxi s + 1]), ps) \<and> length ps = open_max \<and>
    (\<forall>j < open_max. ps ! j = (if j \<le> pmaxi s then polled env (pclient s ! j) else pclient s ! j))"
proof -
  let ?n = "pmaxi s + 1" and ?qs = "map (polled env) (take (pmaxi s + 1) (pclient s))"
  have len: "length (pclient s) = open_max" and mx: "?n \<le> open_max" using table_len [OF ok] table_maxi [OF ok] by simp_all
  have "events (pclient s ! j) \<noteq> None" if "j < ?n" "0 \<le> pfd (pclient s ! j)" for j
    using table_used [OF ok, of j] table_listen(3) [OF ok] that mx by (cases "j = 0") auto
  then have "\<not> list_ex (\<lambda>p. 0 \<le> pfd p \<and> events p = None) (take ?n (pclient s))"
    using mx len by (auto simp: list_ex_length)
  moreover have "how_many (\<lambda>p. revents p \<noteq> Some 0) ?qs = how_many (\<lambda>j. revents ((?qs @ drop ?n (pclient s)) ! j) \<noteq> Some 0) [0..<?n]"
  proof -
    have "?qs = map (\<lambda>j. (?qs @ drop ?n (pclient s)) ! j) [0..<?n]"
      using mx len by (auto simp: list_eq_iff_nth_eq nth_append simp del: upt_Suc)
    then have "how_many P ?qs = how_many (P \<circ> (\<lambda>j. (?qs @ drop ?n (pclient s)) ! j)) [0..<?n]" for P
      by (metis how_many_def filter_map length_map)
    then show ?thesis by (simp add: o_def)
  qed
  ultimately have "poll env ?n (pclient s) = Val (int (how_many (\<lambda>j. revents ((?qs @ drop ?n (pclient s)) ! j) \<noteq> Some 0) [0..<?n]), ?qs @ drop ?n (pclient s))"
    using assms(2) by (simp add: poll_def Let_def)
  moreover have "length (?qs @ drop ?n (pclient s)) = open_max" using len mx by simp
  moreover have "(?qs @ drop ?n (pclient s)) ! j = (if j \<le> pmaxi s then polled env (pclient s ! j) else pclient s ! j)" if "j < open_max" for j
    using len mx that by (auto simp: nth_append)
  ultimately show ?thesis by blast
qed

text \<open>The clients to answer, in the order of the array.\<close>

definition ready_clients :: "poll_env \<Rightarrow> poll_srv \<Rightarrow> int list" where
  "ready_clients env s = filter (\<lambda>fd. ready (poll_ans env fd)) (pconnected s)"

definition answers_to :: "poll_env \<Rightarrow> poll_srv \<Rightarrow> (int \<times> char list) list" where
  "answers_to env s = map (\<lambda>fd. (fd, sent env fd)) (filter (\<lambda>fd. sent env fd \<noteq> []) (ready_clients env s))"

definition left_clients :: "poll_env \<Rightarrow> poll_srv \<Rightarrow> int set" where
  "left_clients env s = {fd \<in> set (ready_clients env s). sent env fd = []}"

text \<open>The flags are those of the clients \<^verbatim>\<open>poll\<close> found ready.\<close>

definition flags_of :: "poll_env \<Rightarrow> poll_srv \<Rightarrow> pollfd list \<Rightarrow> bool" where
  "flags_of env s ps \<longleftrightarrow> length ps = length (pclient s) \<and>
     (\<forall>j < length ps. 0 < j \<longrightarrow>
        flagged (ps ! j) = (0 \<le> pfd (pclient s ! j) \<and> ready (poll_ans env (pfd (pclient s ! j)))) \<and>
        (flagged (ps ! j) \<longrightarrow> pfd (ps ! j) = pfd (pclient s ! j)))"

lemma flags_effect:
  assumes "flags_of env s ps" and "pclient s \<noteq> []"
  shows "gone_fds env ps = left_clients env s" and "concat (map (echo_of env) (tl ps)) = answers_to env s"
proof -
  let ?c = "\<lambda>p. 0 \<le> pfd p \<and> ready (poll_ans env (pfd p))"
  have len: "length ps = length (pclient s)" and
    fl: "\<And>j. j < length ps \<Longrightarrow> 0 < j \<Longrightarrow> flagged (ps ! j) = ?c (pclient s ! j)"
      "\<And>j. j < length ps \<Longrightarrow> 0 < j \<Longrightarrow> flagged (ps ! j) \<Longrightarrow> pfd (ps ! j) = pfd (pclient s ! j)"
    using assms(1) unfolding flags_of_def by blast+
  have set: "set (ready_clients env s) = {fd. 0 \<le> fd \<and> ready (poll_ans env fd) \<and> (\<exists>j. 0 < j \<and> j < length (pclient s) \<and> pfd (pclient s ! j) = fd)}"
    using connected_set [OF assms(2)] by (auto simp: ready_clients_def)
  show "gone_fds env ps = left_clients env s"
  proof (intro equalityI subsetI)
    fix fd assume "fd \<in> gone_fds env ps"
    then obtain j where "0 < j" "j < length ps" "flagged (ps ! j)" "sent env (pfd (ps ! j)) = []" "pfd (ps ! j) = fd"
      by (auto simp: gone_fds_def gone_def)
    then show "fd \<in> left_clients env s" using fl [of j] len unfolding left_clients_def set by auto
  next
    fix fd assume "fd \<in> left_clients env s"
    then obtain j where "0 < j" "j < length ps" "?c (pclient s ! j)" "pfd (pclient s ! j) = fd" "sent env fd = []"
      using len unfolding left_clients_def set by auto
    then show "fd \<in> gone_fds env ps" using fl [of j] unfolding gone_fds_def gone_def by (intro CollectI exI [of _ j]) simp
  qed
  have echo: "echo_of env (ps ! j) = (if ?c (pclient s ! j) \<and> sent env (pfd (pclient s ! j)) \<noteq> [] then [(pfd (pclient s ! j), sent env (pfd (pclient s ! j)))] else [])"
    if "j < length ps" "0 < j" for j using fl [OF that] by (auto simp: echo_of_def)
  have "map (echo_of env) (tl ps) = map (\<lambda>p. if ?c p \<and> sent env (pfd p) \<noteq> [] then [(pfd p, sent env (pfd p))] else []) (tl (pclient s))"
    using len echo by (intro nth_equalityI) (simp_all add: nth_tl)
  moreover have "concat (map (\<lambda>p. if ?c p \<and> sent env (pfd p) \<noteq> [] then [(pfd p, sent env (pfd p))] else []) qs) =
      map (\<lambda>fd. (fd, sent env fd)) (filter (\<lambda>fd. sent env fd \<noteq> []) (filter (\<lambda>fd. ready (poll_ans env fd)) (filter (\<lambda>fd. 0 \<le> fd) (map pfd qs))))" for qs
    by (induction qs) auto
  ultimately show "concat (map (echo_of env) (tl ps)) = answers_to env s"
    by (simp add: answers_to_def ready_clients_def pconnected_def)
qed

text \<open>What the kernel promises in an iteration in which no call fails but by a connection that was reset.\<close>

definition kernel_ok :: "int \<Rightarrow> poll_env \<Rightarrow> poll_srv \<Rightarrow> bool" where
  "kernel_ok listenfd env s \<longleftrightarrow> poll_ok env \<and>
     (\<forall>fd \<in> set (pconnected s). poll_ans env fd \<noteq> 0 \<longrightarrow> ready (poll_ans env fd) \<and> fine env fd) \<and>
     (poll_ans env listenfd \<noteq> 0 \<longrightarrow> poll_ans env listenfd AND POLLRDNORM \<noteq> 0 \<and>
        0 \<le> connection env \<and> connection env \<notin> opened s \<and> free_entry (pclient s) < length (pclient s))"

lemma ready_0: "\<not> ready 0" by (simp add: ready_def)

text \<open>The array after a call of \<^verbatim>\<open>poll\<close>.\<close>

definition poll_done :: "poll_env \<Rightarrow> nat \<Rightarrow> int \<Rightarrow> poll_srv \<Rightarrow> pollfd list \<Rightarrow> bool" where
  "poll_done env open_max listenfd s ps \<longleftrightarrow>
     table_ok open_max listenfd (s\<lparr>pclient := ps\<rparr>) \<and> map pfd ps = map pfd (pclient s) \<and> flags_of env s ps \<and>
     revents (ps ! 0) = Some (poll_ans env listenfd) \<and>
     (\<forall>j \<le> pmaxi s. revents (ps ! j) \<noteq> None \<and> (pfd (ps ! j) < 0 \<longrightarrow> revents (ps ! j) = Some 0))"

lemma poll_doneD:
  assumes "poll_done env open_max listenfd s ps"
  shows done_ok: "table_ok open_max listenfd (s\<lparr>pclient := ps\<rparr>)" and done_fds: "map pfd ps = map pfd (pclient s)"
    and done_flags: "flags_of env s ps" and done_first: "revents (ps ! 0) = Some (poll_ans env listenfd)"
    and done_revents: "\<And>j. j \<le> pmaxi s \<Longrightarrow> revents (ps ! j) \<noteq> None"
    and done_free: "\<And>j. j \<le> pmaxi s \<Longrightarrow> pfd (ps ! j) < 0 \<Longrightarrow> revents (ps ! j) = Some 0"
  using assms unfolding poll_done_def by blast+

lemma after_poll:
  assumes ok: "table_ok open_max listenfd s" and k: "kernel_ok listenfd env s"
  obtains ps where "poll_done env open_max listenfd s ps" and "poll env (pmaxi s + 1) (pclient s) =
      Val (int (how_many (\<lambda>j. flagged (ps ! j)) [1..<pmaxi s + 1]) + (if poll_ans env listenfd \<noteq> 0 then 1 else 0), ps)"
proof -
  have pk: "poll_ok env" using k by (simp add: kernel_ok_def)
  from poll_effect [OF ok pk] obtain ps where
    ps: "poll env (pmaxi s + 1) (pclient s) = Val (int (how_many (\<lambda>j. revents (ps ! j) \<noteq> Some 0) [0..<pmaxi s + 1]), ps)"
      "length ps = open_max" "\<forall>j < open_max. ps ! j = (if j \<le> pmaxi s then polled env (pclient s ! j) else pclient s ! j)" by blast
  note at = ps(3) [rule_format]
  have len: "length (pclient s) = open_max" and mx: "pmaxi s < open_max" and l0: "pfd (pclient s ! 0) = listenfd" "0 \<le> listenfd"
    using table_len [OF ok] table_maxi [OF ok] table_listen [OF ok] by simp_all
  have same: "pfd (ps ! j) = pfd (pclient s ! j)" "events (ps ! j) = events (pclient s ! j)" if "j < open_max" for j
    using at [OF that] by (simp_all add: polled_def)
  have unused: "pfd (pclient s ! j) < 0" if "pmaxi s < j" "j < open_max" for j
  proof (rule ccontr)
    assume "\<not> pfd (pclient s ! j) < 0"
    with table_used [OF ok that(2)] that(1) show False by simp
  qed
  have fl: "flagged (ps ! j) = (0 \<le> pfd (pclient s ! j) \<and> ready (poll_ans env (pfd (pclient s ! j))))" if "j < open_max" for j
    using at [OF that] unused [OF _ that] by (cases "j \<le> pmaxi s") (auto simp: flagged_def polled_def ready_0)
  have conn: "pfd (pclient s ! j) \<in> set (pconnected s)" if "0 < j" "j < open_max" "0 \<le> pfd (pclient s ! j)" for j
  proof -
    have "pclient s \<noteq> []" using len mx by auto
    then show ?thesis using that len by (auto simp: connected_set)
  qed
  have cnt: "(revents (ps ! j) \<noteq> Some 0) = flagged (ps ! j)" if "j \<in> set [1..<pmaxi s + 1]" for j
  proof -
    have j: "0 < j" "j \<le> pmaxi s" "j < open_max" using that mx by auto
    have "poll_ans env (pfd (pclient s ! j)) \<noteq> 0 \<Longrightarrow> 0 \<le> pfd (pclient s ! j) \<Longrightarrow> ready (poll_ans env (pfd (pclient s ! j)))"
      using conn [OF j(1,3)] k by (simp add: kernel_ok_def)
    then show ?thesis using at [OF j(3)] fl [OF j(3)] j(2) ready_0 by (auto simp: polled_def)
  qed
  have zero: "revents (ps ! 0) = Some (poll_ans env listenfd)" using at [of 0] mx l0 by (simp add: polled_def)
  have "[0..<pmaxi s + 1] = 0 # [1..<pmaxi s + 1]" by (simp add: upt_conv_Cons)
  then have many: "int (how_many (\<lambda>j. revents (ps ! j) \<noteq> Some 0) [0..<pmaxi s + 1]) =
      int (how_many (\<lambda>j. flagged (ps ! j)) [1..<pmaxi s + 1]) + (if poll_ans env listenfd \<noteq> 0 then 1 else 0)"
    using how_many_cong [OF cnt, of "[1..<pmaxi s + 1]"] zero by simp
  have "poll_done env open_max listenfd s ps"
    unfolding poll_done_def
  proof (intro conjI allI impI)
    show "table_ok open_max listenfd (s\<lparr>pclient := ps\<rparr>)"
      by (rule table_ok_cong [OF ok]) (simp_all add: ps(2) len same at polled_def)
    show "map pfd ps = map pfd (pclient s)" using same ps(2) len by (simp add: list_eq_iff_nth_eq)
    show "flags_of env s ps" using fl same ps(2) len by (simp add: flags_of_def)
    show "revents (ps ! 0) = Some (poll_ans env listenfd)" by (rule zero)
    show "revents (ps ! j) = Some 0" if "j \<le> pmaxi s" "pfd (ps ! j) < 0" for j
      using at [of j] mx that by (simp add: polled_def)
    show "revents (ps ! j) \<noteq> None" if "j \<le> pmaxi s" for j using at [of j] mx that by (simp add: polled_def)
  qed
  then show ?thesis by (rule that) (rule ps(1) [unfolded many])
qed

text \<open>Adding a client keeps the table.\<close>

lemma add_client_ok:
  assumes ok: "table_ok open_max listenfd s" and i: "free_entry (pclient s) = i" "i < open_max"
    and fd: "0 \<le> fd" "fd \<notin> set (pconnected s)" "fd \<noteq> listenfd"
  shows "table_ok open_max listenfd (add_client i fd s) \<and> set (pconnected (add_client i fd s)) = insert fd (set (pconnected s)) \<and>
    pfd (pclient s ! i) < 0 \<and> 0 < i"
proof -
  let ?t = "add_client i fd s"
  have len: "length (pclient s) = open_max" and mx: "pmaxi s < open_max" using table_len [OF ok] table_maxi [OF ok] by simp_all
  have ne: "pclient s \<noteq> []" using len mx by auto
  have pos: "0 < i" using i(1) by (simp add: free_entry_def)
  have "map pfd (tl (pclient s)) ! (i - 1) < 0"
    using first_free_props [of "map pfd (tl (pclient s))"] i len by (auto simp: free_entry_def)
  then have neg: "pfd (pclient s ! i) < 0" using pos i(2) len by (simp add: nth_tl)
  have at: "pfd (pclient ?t ! j) = (if j = i then fd else pfd (pclient s ! j))"
    "events (pclient ?t ! j) = (if j = i then Some POLLRDNORM else events (pclient s ! j))" for j
    using i(2) len by (simp_all add: add_client_def)
  have other: "pfd (pclient s ! j) \<noteq> fd" if "j < open_max" for j
  proof (cases "j = 0")
    case True
    then show ?thesis using fd(3) table_listen [OF ok] by simp
  next
    case False
    then show ?thesis using fd(1,2) that len ne by (auto simp: connected_set)
  qed
  have "table_ok open_max listenfd ?t"
    unfolding table_ok_def
  proof (intro conjI allI impI)
    show "length (pclient ?t) = open_max" "pmaxi ?t < open_max" "0 \<le> listenfd"
      using len mx i(2) table_listen [OF ok] by (simp_all add: add_client_def)
    show "pfd (pclient ?t ! 0) = listenfd" "events (pclient ?t ! 0) \<noteq> None" using at [of 0] pos table_listen [OF ok] by simp_all
    show "j \<le> pmaxi ?t" "events (pclient ?t ! j) \<noteq> None" if "j < open_max" "0 < j" "0 \<le> pfd (pclient ?t ! j)" for j
      using at [of j] table_used [OF ok that(1,2)] that(3) by (auto simp: add_client_def split: if_splits)
    show "a = b" if "a < open_max" "b < open_max" "0 \<le> pfd (pclient ?t ! a)" "pfd (pclient ?t ! a) = pfd (pclient ?t ! b)" for a b
    proof (cases "a = i \<or> b = i")
      case True
      then show ?thesis using that(4) other [OF that(1)] other [OF that(2)] unfolding at by (auto split: if_splits)
    next
      case False
      then have "0 \<le> pfd (pclient s ! a)" "pfd (pclient s ! a) = pfd (pclient s ! b)" using that(3,4) unfolding at by simp_all
      then show ?thesis by (rule table_inj [OF ok that(1,2)])
    qed
    show "revents (pclient ?t ! j) = None" if "j < open_max" "pmaxi ?t < j" for j
      using table_beyond [OF ok, of j] that by (simp add: add_client_def nth_list_update split: if_splits)
  qed
  moreover have "set (pconnected ?t) = insert fd (set (pconnected s))"
  proof -
    have net: "pclient ?t \<noteq> []" "length (pclient ?t) = open_max" using ne len by (simp_all add: add_client_def)
    have "(\<exists>j. 0 < j \<and> j < open_max \<and> pfd (pclient ?t ! j) = x) \<longleftrightarrow> x = fd \<or> (\<exists>j. 0 < j \<and> j < open_max \<and> pfd (pclient s ! j) = x)" if "0 \<le> x" for x
      using at(1) pos i(2) neg that by (metis not_less)
    then show ?thesis using connected_set [OF net(1)] connected_set [OF ne] net(2) len fd(1) by auto
  qed
  ultimately show ?thesis using neg pos by blast
qed

lemma flagged_fine:
  assumes ok: "table_ok open_max listenfd s" and k: "kernel_ok listenfd env s" and fl: "flags_of env s ps"
    and j: "0 < j" "j < open_max" "flagged (ps ! j)"
  shows "fine env (pfd (ps ! j))"
proof -
  have len: "length ps = open_max" "length (pclient s) = open_max" using table_len [OF ok] fl by (simp_all add: flags_of_def)
  then have ne: "pclient s \<noteq> []" using j(2) by auto
  have "pfd (ps ! j) = pfd (pclient s ! j)" "0 \<le> pfd (pclient s ! j)" "ready (poll_ans env (pfd (pclient s ! j)))"
    using fl j len by (simp_all add: flags_of_def)
  moreover from this j have "pfd (ps ! j) \<in> set (pconnected s)" using connected_set [OF ne] len by auto
  moreover have "poll_ans env (pfd (pclient s ! j)) \<noteq> 0" using calculation(3) ready_0 by metis
  ultimately show ?thesis using k unfolding kernel_ok_def by metis
qed

text \<open>After the ready clients are served, the process holds the listening descriptor and those of the clients left.\<close>

lemma serve_ready_ok:
  fixes env :: poll_env
  assumes ok: "table_ok open_max listenfd s" and t: "table_ok open_max listenfd t" "opened t = insert listenfd (set (pconnected t))"
      "flags_of env s (pclient t)" "echoed t = echoed s" "pmaxi s \<le> pmaxi t"
  defines "u \<equiv> serve_all env [1..<pmaxi s + 1] t"
  shows "table_ok open_max listenfd u \<and> opened u = insert listenfd (set (pconnected u)) \<and>
    echoed u = echoed s @ answers_to env s \<and> set (pconnected u) = set (pconnected t) - left_clients env s"
proof -
  have len: "length (pclient s) = open_max" and ne: "pclient s \<noteq> []" using table_len [OF ok] table_maxi [OF ok] by auto
  have "\<not> flagged (pclient t ! j)" if "pmaxi s < j" "j < open_max" for j
  proof -
    have "0 < j" using that(1) by simp
    moreover have "pfd (pclient s ! j) < 0" using table_used [OF ok that(2) calculation] that(1) by (meson not_less)
    ultimately show ?thesis using t(3) len that(2) by (simp add: flags_of_def)
  qed
  note * = serve_all_ok [OF t(1,5), of env, OF this, folded u_def] and ** = flags_effect [OF t(3) ne]
  have "listenfd \<notin> left_clients env s" using connected_distinct [OF ok] by (auto simp: left_clients_def ready_clients_def)
  with * ** t(2,4) show ?thesis by auto
qed

text \<open>A new client is not taken for a ready one.\<close>

lemma new_client_flags:
  assumes ok: "table_ok open_max listenfd s" and d: "poll_done env open_max listenfd s ps"
    and i: "i = free_entry ps" "i < open_max" and fd: "0 \<le> fd" "fd \<notin> set (pconnected s)" "fd \<noteq> listenfd"
  defines "u \<equiv> add_client i fd (accepted_fd fd (s\<lparr>pclient := ps\<rparr>))"
  shows "table_ok open_max listenfd u" and "set (pconnected u) = insert fd (set (pconnected s))" and "flags_of env s (pclient u)"
    and "\<And>j. j < open_max \<Longrightarrow> flagged (pclient u ! j) = flagged (ps ! j)" and "\<And>j. revents (pclient u ! j) = revents (ps ! j)"
    and "pmaxi u = max (pmaxi s) i" and "echoed u = echoed s" and "opened u = insert fd (opened s)"
proof -
  let ?sa = "accepted_fd fd (s\<lparr>pclient := ps\<rparr>)"
  have len: "length ps = open_max" "length (pclient s) = open_max" using table_len [OF done_ok [OF d]] table_len [OF ok] by simp_all
  have sa: "pclient ?sa = ps" "pmaxi ?sa = pmaxi s" "echoed ?sa = echoed s" "opened ?sa = insert fd (opened s)" "pconnected ?sa = pconnected s"
    using fd(1) done_fds [OF d] by (simp_all add: accepted_fd_def pconnected_def map_tl)
  have oka: "table_ok open_max listenfd ?sa" by (rule table_ok_cong [OF done_ok [OF d]]) (simp_all add: sa)
  from add_client_ok [OF oka _ i(2) fd(1)] fd(2,3) i(1) have
    *: "table_ok open_max listenfd u" "set (pconnected u) = insert fd (set (pconnected s))" "pfd (ps ! i) < 0" "0 < i"
    by (simp_all add: sa u_def)
  show "table_ok open_max listenfd u" "set (pconnected u) = insert fd (set (pconnected s))" by (rule *)+
  have u: "pclient u = ps[i := (ps ! i)\<lparr>pfd := fd, events := Some POLLRDNORM\<rparr>]" by (simp add: u_def add_client_def sa)
  show "pmaxi u = max (pmaxi s) i" "echoed u = echoed s" "opened u = insert fd (opened s)"
    by (simp_all add: u_def add_client_def sa max_def)
  show "revents (pclient u ! j) = revents (ps ! j)" for j using i(2) len by (cases "j = i") (simp_all add: u)
  have "revents (ps ! i) = Some 0 \<or> revents (ps ! i) = None"
    using done_free [OF d, of i] *(3) table_beyond [OF done_ok [OF d] i(2)] by (cases "i \<le> pmaxi s") simp_all
  then show fl: "flagged (pclient u ! j) = flagged (ps ! j)" if "j < open_max" for j
    using *(3) i(2) len that by (cases "j = i") (auto simp: u flagged_def ready_0)
  have same: "pclient u ! j = ps ! j" if "flagged (ps ! j)" for j
    using *(3) that by (cases "j = i") (auto simp: u flagged_def)
  show "flags_of env s (pclient u)"
    unfolding flags_of_def
  proof (intro conjI allI impI)
    show ul: "length (pclient u) = length (pclient s)" using len by (simp add: u)
    show "flagged (pclient u ! j) = (0 \<le> pfd (pclient s ! j) \<and> ready (poll_ans env (pfd (pclient s ! j))))"
      "flagged (pclient u ! j) \<Longrightarrow> pfd (pclient u ! j) = pfd (pclient s ! j)" if "j < length (pclient u)" "0 < j" for j
      using done_flags [OF d] fl [of j] same [of j] that ul len by (simp_all add: flags_of_def)
  qed
qed

text \<open>The loop, with \<open>n\<close> the number of ready clients.\<close>

lemma poll_loop:
  assumes ok: "table_ok open_max listenfd s" and k: "kernel_ok listenfd env s" and fl: "flags_of env s (pclient t)"
    and def: "\<And>j. j \<le> pmaxi s \<Longrightarrow> revents (pclient t ! j) \<noteq> None" and mx: "pmaxi s \<le> pmaxi t"
    and n: "n = int (how_many (\<lambda>j. flagged (pclient t ! j)) [1..<pmaxi s + 1])" and cases: "pmaxi t = pmaxi s \<or> 0 < n"
  shows "poll_clients env [1..<pmaxi t + 1] n t = Val (Ret (serve_all env [1..<pmaxi s + 1] t))"
proof -
  have "[1..<pmaxi t + 1] = [1..<pmaxi s + 1] @ [pmaxi s + 1..<pmaxi t + 1]" using mx by (intro upt_split) auto
  moreover have "poll_clients env ([1..<pmaxi s + 1] @ [pmaxi s + 1..<pmaxi t + 1]) n t = Val (Ret (serve_all env [1..<pmaxi s + 1] t))"
  proof (intro poll_clients_serve_all ballI impI)
    show "revents (pclient t ! j) \<noteq> None" if "j \<in> set [1..<pmaxi s + 1]" for j using def [of j] that by auto
    show "fine env (pfd (pclient t ! j))" if "j \<in> set [1..<pmaxi s + 1]" "flagged (pclient t ! j)" for j
      using flagged_fine [OF ok k fl _ _ that(2)] that(1) table_maxi [OF ok] by auto
  qed (use n cases in auto)
  ultimately show ?thesis by simp
qed

lemma serve_all_idle: "how_many (\<lambda>i. flagged (pclient t ! i)) js = 0 \<Longrightarrow> serve_all env js t = t"
  by (induction js) (auto split: if_splits)

lemma poll_iter_effect:
  assumes ok: "table_ok open_max listenfd s" and op: "opened s = insert listenfd (set (pconnected s))" and k: "kernel_ok listenfd env s"
  shows "\<exists>s'. poll_iter listenfd env s = Val (Ret s') \<and> table_ok open_max listenfd s' \<and>
    opened s' = insert listenfd (set (pconnected s')) \<and> echoed s' = echoed s @ answers_to env s \<and>
    set (pconnected s') = (set (pconnected s) - left_clients env s) \<union> (if poll_ans env listenfd \<noteq> 0 then {connection env} else {})"
proof -
  let ?is = "[1..<pmaxi s + 1]"
  from after_poll [OF ok k] obtain ps where d: "poll_done env open_max listenfd s ps" and
    run: "poll env (pmaxi s + 1) (pclient s) =
      Val (int (how_many (\<lambda>j. flagged (ps ! j)) ?is) + (if poll_ans env listenfd \<noteq> 0 then 1 else 0), ps)" by blast
  let ?n = "int (how_many (\<lambda>j. flagged (ps ! j)) ?is)" and ?s = "s\<lparr>pclient := ps\<rparr>"
  show ?thesis
  proof (cases "poll_ans env listenfd = 0")
    case True
    have "poll_iter listenfd env s = poll_clients env ?is ?n ?s"
      using run done_first [OF d] True by (simp add: poll_iter_def del: upt_Suc)
    also have "\<dots> = Val (Ret (serve_all env ?is ?s))"
      using poll_loop [OF ok k, of ?s ?n] done_flags [OF d] done_revents [OF d] by simp
    finally have "poll_iter listenfd env s = Val (Ret (serve_all env ?is ?s))" .
    moreover have "pconnected ?s = pconnected s" using done_fds [OF d] by (simp add: pconnected_def map_tl)
    ultimately show ?thesis
      using serve_ready_ok [OF ok done_ok [OF d], of env] done_flags [OF d] op True by auto
  next
    case False
    define i fd where "i = free_entry ps" and "fd = connection env"
    define t where "t = add_client i fd (accepted_fd fd ?s)"
    have len: "length ps = open_max" "length (pclient s) = open_max" using table_len [OF done_ok [OF d]] table_len [OF ok] by simp_all
    have kf: "0 \<le> fd" "fd \<notin> opened s" "i < open_max" "poll_ans env listenfd AND POLLRDNORM \<noteq> 0"
      using k False done_fds [OF d] len by (auto simp: kernel_ok_def fd_def i_def free_entry_def map_tl)
    note t = new_client_flags [OF ok d i_def kf(3,1), folded t_def]
    have fdn: "fd \<notin> set (pconnected s)" "fd \<noteq> listenfd" using kf(2) op by auto
    have many: "how_many (\<lambda>j. flagged (pclient t ! j)) ?is = how_many (\<lambda>j. flagged (ps ! j)) ?is"
      using t(4) [OF fdn] table_maxi [OF ok] by (intro how_many_cong) auto
    have "poll_iter listenfd env s = (if ?n \<le> 0 then Val (Ret t) else poll_clients env [1..<pmaxi t + 1] ?n t)"
      using run done_first [OF d] False kf(1,3,4) len unfolding poll_iter_def
      by (simp add: Let_def t_def i_def fd_def del: upt_Suc)
    also have "\<dots> = Val (Ret (serve_all env ?is t))"
      using poll_loop [OF ok k t(3) [OF fdn], of ?n] t(5,6) [OF fdn] done_revents [OF d] many serve_all_idle [of t ?is env] by auto
    finally have "poll_iter listenfd env s = Val (Ret (serve_all env ?is t))" .
    moreover have "opened t = insert listenfd (set (pconnected t))" using op t(2,8) [OF fdn] by auto
    moreover have "fd \<notin> left_clients env s" using fdn by (auto simp: left_clients_def ready_clients_def)
    ultimately show ?thesis
      using serve_ready_ok [OF ok t(1) [OF fdn] _ t(3) [OF fdn] t(7) [OF fdn]] t(2,6) [OF fdn] False by (auto simp: fd_def)
  qed
qed

section \<open>The server of \<^verbatim>\<open>socket/poll_server.c\<close>\<close>

definition leaves :: "poll_env \<Rightarrow> pollfd \<Rightarrow> bool" where
  "leaves env p \<longleftrightarrow> (case revents p of None \<Rightarrow> False | Some r \<Rightarrow> ready r) \<and> (reads env (pfd p) = RdOk [] \<or> reads env (pfd p) = RdErr ECONNRESET)"

lemma own_serve_entry:
  fixes env :: poll_env
  assumes "i < length (pclient s)" and "revents (pclient s ! i) = Some r"
  defines "u \<equiv> (if r AND (POLLRDNORM OR POLLERR) \<noteq> 0 then own_poll_serve env i s else s)"
  shows "length (pclient u) = length (pclient s)" and "pmaxi u = pmaxi s"
    and "pclient u ! j = (if j = i \<and> leaves env (pclient s ! i) then (pclient s ! i)\<lparr>pfd := -1\<rparr> else pclient s ! j)"
    and "0 \<le> fd \<Longrightarrow> fd \<in> opened s \<Longrightarrow> \<not> (fd = pfd (pclient s ! i) \<and> leaves env (pclient s ! i) \<and> reads env fd = RdErr ECONNRESET) \<Longrightarrow> fd \<in> opened u"
  using assms(1,2) unfolding u_def
  by (auto simp: own_poll_serve_def Let_def forget_def close_fd_def leaves_def ready_def split: rd.splits)

lemma own_clients_effect:
  assumes "own_poll_clients env is s = Val u" and "distinct is" and "\<forall>i \<in> set is. i < length (pclient s)"
  shows "length (pclient u) = length (pclient s) \<and> pmaxi u = pmaxi s \<and>
    (\<forall>j. pclient u ! j = (if j \<in> set is \<and> leaves env (pclient s ! j) then (pclient s ! j)\<lparr>pfd := -1\<rparr> else pclient s ! j)) \<and>
    (\<forall>fd \<in> opened s. 0 \<le> fd \<longrightarrow>
       (\<forall>j \<in> set is. \<not> (fd = pfd (pclient s ! j) \<and> leaves env (pclient s ! j) \<and> reads env fd = RdErr ECONNRESET)) \<longrightarrow> fd \<in> opened u)"
  using assms
proof (induction "is" arbitrary: s)
  case (Cons i "is")
  from Cons.prems(1) obtain r where r: "revents (pclient s ! i) = Some r" by (auto split: option.splits)
  define t where "t = (if r AND (POLLRDNORM OR POLLERR) \<noteq> 0 then own_poll_serve env i s else s)"
  have i: "i < length (pclient s)" using Cons.prems(3) by simp
  note t = own_serve_entry [OF i r, where env = env, folded t_def]
  have run: "own_poll_clients env is t = Val u" using Cons.prems(1) r by (simp add: t_def)
  have nin: "i \<notin> set is" "distinct is" using Cons.prems(2) by simp_all
  from Cons.IH [OF run nin(2)] Cons.prems(3) t(1) have
    u: "length (pclient u) = length (pclient t)" "pmaxi u = pmaxi t"
      "\<And>j. pclient u ! j = (if j \<in> set is \<and> leaves env (pclient t ! j) then (pclient t ! j)\<lparr>pfd := -1\<rparr> else pclient t ! j)"
      "\<And>fd. fd \<in> opened t \<Longrightarrow> 0 \<le> fd \<Longrightarrow>
         \<forall>j \<in> set is. \<not> (fd = pfd (pclient t ! j) \<and> leaves env (pclient t ! j) \<and> reads env fd = RdErr ECONNRESET) \<Longrightarrow> fd \<in> opened u" by auto
  have "pclient u ! j = (if j \<in> set (i # is) \<and> leaves env (pclient s ! j) then (pclient s ! j)\<lparr>pfd := -1\<rparr> else pclient s ! j)" for j
    using u(3) [of j] t(3) [of j] nin(1) by (cases "j = i") auto
  moreover have "fd \<in> opened u" if "fd \<in> opened s" "0 \<le> fd"
    "\<forall>j \<in> set (i # is). \<not> (fd = pfd (pclient s ! j) \<and> leaves env (pclient s ! j) \<and> reads env fd = RdErr ECONNRESET)" for fd
  proof (rule u(4) [OF _ that(2)])
    show "fd \<in> opened t" using t(4) [OF that(2,1)] that(3) by simp
    have "pclient t ! j = pclient s ! j" if "j \<in> set is" for j using t(3) [of j] nin(1) that by auto
    with that(3) show "\<forall>j \<in> set is. \<not> (fd = pfd (pclient t ! j) \<and> leaves env (pclient t ! j) \<and> reads env fd = RdErr ECONNRESET)" by simp
  qed
  ultimately show ?case using u(1,2) t(1,2) by simp
qed simp

lemma own_clients_undefined:
  assumes "i \<in> set is" and "revents (pclient s ! i) = None" and "\<forall>i \<in> set is. i < length (pclient s)"
  shows "own_poll_clients env is s = UB"
  using assms
proof (induction "is" arbitrary: s)
  case (Cons k "is")
  show ?case
  proof (cases "revents (pclient s ! k)")
    case (Some r)
    have k: "k < length (pclient s)" using Cons.prems(3) by simp
    note t = own_serve_entry [OF k Some, where env = env]
    have "i \<in> set is" using Some Cons.prems(1,2) by auto
    then have "own_poll_clients env is (if r AND (POLLRDNORM OR POLLERR) \<noteq> 0 then own_poll_serve env k s else s) = UB"
      using Cons.prems t(1) t(3) [of i] by (intro Cons.IH) auto
    with Some show ?thesis by simp
  qed simp
qed simp

text \<open>The invariant of this server: the table, and that the descriptors in it are open.\<close>

definition own_ok :: "nat \<Rightarrow> int \<Rightarrow> poll_srv \<Rightarrow> bool" where
  "own_ok open_max listenfd s \<longleftrightarrow> table_ok open_max listenfd s \<and> insert listenfd (set (pconnected s)) \<subseteq> opened s"

lemma own_loop_ok:
  assumes ok: "own_ok open_max listenfd t" and run: "own_poll_clients env [1..<pmaxi t + 1] t = Val u"
  shows "own_ok open_max listenfd u" and "set (pconnected u) \<subseteq> set (pconnected t)"
    and "0 \<le> fd \<Longrightarrow> fd \<in> opened t \<Longrightarrow> reads env fd \<noteq> RdErr ECONNRESET \<Longrightarrow> fd \<in> opened u"
    and "0 < j \<Longrightarrow> j \<le> pmaxi t \<Longrightarrow> leaves env (pclient t ! j) \<Longrightarrow> pfd (pclient t ! j) = fd \<Longrightarrow> fd \<notin> set (pconnected u)"
proof -
  let ?is = "[1..<pmaxi t + 1]"
  have tab: "table_ok open_max listenfd t" using ok by (simp add: own_ok_def)
  have len: "length (pclient t) = open_max" and mx: "pmaxi t < open_max" using table_len [OF tab] table_maxi [OF tab] by simp_all
  have "\<forall>i \<in> set ?is. i < length (pclient t)" using len mx by auto
  from own_clients_effect [OF run _ this] have
    u: "length (pclient u) = length (pclient t)" "pmaxi u = pmaxi t"
      "\<And>j. pclient u ! j = (if j \<in> set ?is \<and> leaves env (pclient t ! j) then (pclient t ! j)\<lparr>pfd := -1\<rparr> else pclient t ! j)"
      "\<And>fd. fd \<in> opened t \<Longrightarrow> 0 \<le> fd \<Longrightarrow>
         \<forall>j \<in> set ?is. \<not> (fd = pfd (pclient t ! j) \<and> leaves env (pclient t ! j) \<and> reads env fd = RdErr ECONNRESET) \<Longrightarrow> fd \<in> opened u"
    by auto
  have ne: "pclient t \<noteq> []" "pclient u \<noteq> []" using len mx u(1) by auto
  have tabu: "table_ok open_max listenfd u"
    by (rule table_ok_shrink [OF tab u(1,2)]) (simp_all add: u(3) del: upt_Suc)
  have inj: "a = b" if "a < open_max" "b < open_max" "0 \<le> pfd (pclient t ! a)" "pfd (pclient t ! a) = pfd (pclient t ! b)" for a b
    using table_inj [OF tab that] .
  have stay: "\<exists>k. 0 < k \<and> k < open_max \<and> pfd (pclient t ! k) = x \<and> \<not> (k \<le> pmaxi t \<and> leaves env (pclient t ! k)) \<and> 0 \<le> x"
    if "x \<in> set (pconnected u)" for x
  proof -
    from that obtain k where k: "0 < k" "k < open_max" "pfd (pclient u ! k) = x" "0 \<le> x"
      using connected_set [OF ne(2)] u(1) len by auto
    have "k \<in> set ?is \<longleftrightarrow> k \<le> pmaxi t" using k(1) by auto
    with u(3) [of k] k show ?thesis by (intro exI [of _ k]) (auto split: if_splits)
  qed
  show sub: "set (pconnected u) \<subseteq> set (pconnected t)"
  proof
    fix x assume "x \<in> set (pconnected u)"
    from stay [OF this] show "x \<in> set (pconnected t)" using connected_set [OF ne(1)] len by auto
  qed
  show keeps: "0 \<le> fd \<Longrightarrow> fd \<in> opened t \<Longrightarrow> reads env fd \<noteq> RdErr ECONNRESET \<Longrightarrow> fd \<in> opened u" using u(4) [of fd] by blast
  show "fd \<notin> set (pconnected u)" if "0 < j" "j \<le> pmaxi t" "leaves env (pclient t ! j)" "pfd (pclient t ! j) = fd"
  proof
    assume "fd \<in> set (pconnected u)"
    from stay [OF this] obtain k where k: "k < open_max" "pfd (pclient t ! k) = fd" "\<not> (k \<le> pmaxi t \<and> leaves env (pclient t ! k))" "0 \<le> fd" by blast
    have "j < open_max" "0 \<le> pfd (pclient t ! j)" "pfd (pclient t ! j) = pfd (pclient t ! k)" using that k mx by simp_all
    with inj [of j k] k(1) have "j = k" by blast
    with that k(3) show False by blast
  qed
  have "x \<in> opened u" if x: "x \<in> insert listenfd (set (pconnected u))" for x
  proof (rule u(4))
    show "x \<in> opened t" using ok x sub by (auto simp: own_ok_def)
    show "0 \<le> x" using x table_listen [OF tab] by (auto simp: pconnected_def)
    obtain k where k: "k < open_max" "pfd (pclient t ! k) = x" "k = 0 \<or> \<not> (k \<le> pmaxi t \<and> leaves env (pclient t ! k))"
      using stay [of x] x table_listen [OF tab] mx by (cases "x = listenfd") (auto intro: that [of 0])
    show "\<forall>j \<in> set ?is. \<not> (x = pfd (pclient t ! j) \<and> leaves env (pclient t ! j) \<and> reads env x = RdErr ECONNRESET)"
    proof (intro ballI notI, elim conjE)
      fix j assume j: "j \<in> set ?is" "x = pfd (pclient t ! j)" "leaves env (pclient t ! j)"
      then have jm: "0 < j" "j \<le> pmaxi t" "j < open_max" using mx by auto
      have "0 \<le> pfd (pclient t ! j)" "pfd (pclient t ! j) = pfd (pclient t ! k)" using j(2) k(2) \<open>0 \<le> x\<close> by simp_all
      with inj [of j k] jm(3) k(1) have "j = k" by blast
      with jm j(3) k(3) show False by blast
    qed
  qed
  then show "own_ok open_max listenfd u" using tabu by (auto simp: own_ok_def)
qed

lemma own_iter_ok:
  assumes ok: "own_ok open_max listenfd s" and k: "kernel_ok listenfd env s" and run: "own_poll_iter listenfd env s = Val s'"
  shows "own_ok open_max listenfd s'"
    and "fd \<in> set (ready_clients env s) \<Longrightarrow> reads env fd = RdOk [] \<Longrightarrow> fd \<in> opened s' \<and> fd \<notin> set (pconnected s')"
proof -
  let ?is = "[1..<pmaxi s + 1]"
  have tab: "table_ok open_max listenfd s" and op: "insert listenfd (set (pconnected s)) \<subseteq> opened s" using ok by (simp_all add: own_ok_def)
  from after_poll [OF tab k] obtain ps where d: "poll_done env open_max listenfd s ps" and
    pl: "poll env (pmaxi s + 1) (pclient s) =
      Val (int (how_many (\<lambda>j. flagged (ps ! j)) ?is) + (if poll_ans env listenfd \<noteq> 0 then 1 else 0), ps)" by blast
  let ?n = "int (how_many (\<lambda>j. flagged (ps ! j)) ?is)" and ?s = "s\<lparr>pclient := ps\<rparr>"
  have len: "length ps = open_max" "length (pclient s) = open_max" using table_len [OF done_ok [OF d]] table_len [OF tab] by simp_all
  have ne: "pclient s \<noteq> []" using len table_maxi [OF tab] by auto
  obtain t where t: "own_ok open_max listenfd t" "flags_of env s (pclient t)" "pmaxi s \<le> pmaxi t" "opened s \<subseteq> opened t"
      "s' = t \<and> ?n \<le> 0 \<or> own_poll_clients env [1..<pmaxi t + 1] t = Val s'"
  proof (cases "poll_ans env listenfd = 0")
    case True
    have "own_poll_clients env [1..<pmaxi ?s + 1] ?s = Val s'"
      using run pl done_first [OF d] True by (simp add: own_poll_iter_def del: upt_Suc)
    moreover have "pconnected ?s = pconnected s" using done_fds [OF d] by (simp add: pconnected_def map_tl)
    ultimately show ?thesis using that [of ?s] done_ok [OF d] done_flags [OF d] op by (simp add: own_ok_def)
  next
    case False
    define i fd where "i = free_entry ps" and "fd = connection env"
    define t where "t = add_client i fd (accepted_fd fd ?s)"
    have kf: "0 \<le> fd" "fd \<notin> opened s" "i < open_max" "poll_ans env listenfd AND POLLRDNORM \<noteq> 0"
      using k False done_fds [OF d] len by (auto simp: kernel_ok_def fd_def i_def free_entry_def map_tl)
    have fdn: "fd \<notin> set (pconnected s)" "fd \<noteq> listenfd" using kf(2) op by auto
    note t = new_client_flags [OF tab d i_def kf(3,1) fdn, folded t_def]
    have "own_poll_iter listenfd env s = (if ?n \<le> 0 then Val t else own_poll_clients env [1..<pmaxi t + 1] t)"
      using pl done_first [OF d] False kf(1,3,4) len unfolding own_poll_iter_def
      by (simp add: Let_def t_def i_def fd_def del: upt_Suc)
    then show ?thesis using run t op by (intro that [of t]) (auto simp: own_ok_def split: if_splits)
  qed
  show "own_ok open_max listenfd s'" using t(5,1) own_loop_ok(1) [OF t(1)] by blast
  show "fd \<in> opened s' \<and> fd \<notin> set (pconnected s')" if fd: "fd \<in> set (ready_clients env s)" "reads env fd = RdOk []"
  proof -
    from fd(1) obtain j where j: "0 < j" "j < open_max" "pfd (pclient s ! j) = fd" "0 \<le> fd" "ready (poll_ans env fd)"
      using connected_set [OF ne] len by (auto simp: ready_clients_def)
    have jm: "j \<le> pmaxi s" using table_used [OF tab j(2,1)] j(3,4) by simp
    have flag: "flagged (pclient t ! j)" "pfd (pclient t ! j) = fd" "flagged (ps ! j)"
      using t(2) done_flags [OF d] j len by (simp_all add: flags_of_def)
    have "0 < ?n" using how_many_mem [of j ?is "\<lambda>j. flagged (ps ! j)"] flag(3) jm j(1) by (simp del: upt_Suc)
    then have loop: "own_poll_clients env [1..<pmaxi t + 1] t = Val s'" using t(5) by auto
    have lv: "leaves env (pclient t ! j)" using flag fd(2) by (auto simp: leaves_def flagged_def split: option.splits)
    have "fd \<in> opened t" using fd(1) op t(4) by (auto simp: ready_clients_def)
    with own_loop_ok(3,4) [OF t(1) loop] lv flag(2) j jm t(3) fd(2) show ?thesis by auto
  qed
qed

inductive poll_reach :: "nat \<Rightarrow> int \<Rightarrow> poll_srv \<Rightarrow> bool" for open_max :: nat and listenfd :: int where
  poll_start: "0 < open_max \<Longrightarrow> 0 \<le> listenfd \<Longrightarrow> poll_reach open_max listenfd (poll_init open_max listenfd)"
| poll_step: "poll_reach open_max listenfd s \<Longrightarrow> kernel_ok listenfd env s \<Longrightarrow> poll_iter listenfd env s = Val (Ret s') \<Longrightarrow>
    poll_reach open_max listenfd s'"

inductive own_poll_reach :: "nat \<Rightarrow> int \<Rightarrow> poll_srv \<Rightarrow> bool" for open_max :: nat and listenfd :: int where
  own_start: "0 < open_max \<Longrightarrow> 0 \<le> listenfd \<Longrightarrow> own_poll_reach open_max listenfd (own_poll_init open_max listenfd)"
| own_step: "own_poll_reach open_max listenfd s \<Longrightarrow> kernel_ok listenfd env s \<Longrightarrow> own_poll_iter listenfd env s = Val s' \<Longrightarrow>
    own_poll_reach open_max listenfd s'"

lemma poll_init_opened: "pconnected (poll_init open_max listenfd) = []"
  by (simp add: pconnected_def poll_init_def filter_empty_conv unused_def)

lemma poll_reach_ok: "poll_reach open_max listenfd s \<Longrightarrow> table_ok open_max listenfd s \<and> opened s = insert listenfd (set (pconnected s))"
proof (induction rule: poll_reach.induct)
  case poll_start
  then show ?case using poll_init_opened by (simp add: table_ok_init) (simp add: poll_init_def)
next
  case (poll_step s env s')
  with poll_iter_effect [of open_max listenfd s env] show ?case by auto
qed

lemma own_poll_reach_ok: "own_poll_reach open_max listenfd s \<Longrightarrow> own_ok open_max listenfd s"
proof (induction rule: own_poll_reach.induct)
  case own_start
  then show ?case using poll_init_opened by (simp add: own_ok_def own_poll_init_def table_ok_init) (simp add: poll_init_def)
next
  case (own_step s env s')
  then show ?case by (blast intro: own_iter_ok(1))
qed

section \<open>Properties\<close>

text \<open>C23. In every state \<^verbatim>\<open>tcpservpoll01\<close> gets into, an iteration in which no call fails (a reset connection apart) answers exactly the clients
  that are ready, in the order of the array, each with what it sent; clients that have ended are closed and forgotten, a new one is
  added, and the descriptors the process holds are again the listening one and those in the table: nothing leaks. The test of
  \<^verbatim>\<open>nready\<close> never ends the loop too early, and it is what keeps the loop from the indeterminate \<^verbatim>\<open>revents\<close> of a new entry.\<close>

theorem poll_iteration_serves_all:
  assumes "poll_reach open_max listenfd s" and "kernel_ok listenfd env s"
  shows "\<exists>s'. poll_iter listenfd env s = Val (Ret s') \<and> echoed s' = echoed s @ answers_to env s \<and>
    set (pconnected s') = (set (pconnected s) - left_clients env s) \<union> (if poll_ans env listenfd \<noteq> 0 then {connection env} else {}) \<and>
    opened s' = insert listenfd (set (pconnected s')) \<and> distinct (pconnected s')"
  using poll_iter_effect [of open_max listenfd s env] poll_reach_ok [OF assms(1)] assms(2) connected_distinct by blast

text \<open>A server with a table of four entries and one client, 4.\<close>

definition one_client :: poll_srv where
  "one_client = \<lparr>pclient = [\<lparr>pfd = 3, events = Some POLLRDNORM, revents = Some POLLRDNORM\<rparr>,
     \<lparr>pfd = 4, events = Some POLLRDNORM, revents = None\<rparr>, unused, unused], pmaxi = 1, echoed = [], opened = {3, 4}\<rparr>"

definition poll_example :: "int set \<Rightarrow> int \<Rightarrow> char list \<Rightarrow> poll_env" where
  "poll_example fds new bs = \<lparr>poll_ok = True, poll_ans = (\<lambda>fd. if fd \<in> fds then POLLRDNORM else 0), connection = new,
     reads = (\<lambda>fd. RdOk bs), can_write = (\<lambda>_. True)\<rparr>"

lemmas poll_example_simps = poll_example_def one_client_def unused_def pconnected_def ready_clients_def answers_to_def left_clients_def
  kernel_ok_def ready_def fine_def sent_def free_entry_def

lemma poll_init_4: "poll_init 4 3 = \<lparr>pclient = [\<lparr>pfd = 3, events = Some POLLRDNORM, revents = None\<rparr>, unused, unused, unused],
    pmaxi = 0, echoed = [], opened = {3}\<rparr>"
  by (simp add: poll_init_def numeral_eq_Suc)

lemma poll_example_start:
  "poll_iter 3 (poll_example {3} 4 []) (poll_init 4 3) = Val (Ret one_client)"
  "own_poll_iter 3 (poll_example {3} 4 []) (own_poll_init 4 3) = Val one_client"
  "kernel_ok 3 (poll_example {3} 4 []) (poll_init 4 3)"
  by (simp_all add: poll_init_4 own_poll_init_def poll_iter_def own_poll_iter_def poll_def polled_def poll_example_simps Let_def
      add_client_def accepted_fd_def insert_commute)

lemma poll_example_reach: "poll_reach 4 3 one_client" "own_poll_reach 4 3 one_client"
proof -
  have "poll_reach 4 3 (poll_init 4 3)" "own_poll_reach 4 3 (own_poll_init 4 3)" by (simp_all add: poll_start own_start)
  then show "poll_reach 4 3 one_client" "own_poll_reach 4 3 one_client"
    using poll_step own_step poll_example_start by (metis own_poll_init_def)+
qed

theorem poll_iteration_serves_all_witness:
  "poll_reach 4 3 one_client \<and> (\<exists>s'. poll_iter 3 (poll_example {3, 4} 5 ''hi'') one_client = Val (Ret s') \<and> echoed s' = [(4, ''hi'')] \<and>
     set (pconnected s') = {4, 5} \<and> opened s' = {3, 4, 5})"
proof -
  have "kernel_ok 3 (poll_example {3, 4} 5 ''hi'') one_client" by (simp add: poll_example_simps)
  from poll_iteration_serves_all [OF poll_example_reach(1) this] show ?thesis
    using poll_example_reach(1) by (auto simp: poll_example_simps insert_commute)
qed

text \<open>\<^verbatim>\<open>poll_server.c\<close> leaks: in every state it gets into, a client that has closed its connection is forgotten, but its descriptor
  stays open, because the entry is overwritten before it is used for \<^verbatim>\<open>close\<close>.\<close>

theorem own_poll_leaks:
  assumes "own_poll_reach open_max listenfd s" and "kernel_ok listenfd env s" and "own_poll_iter listenfd env s = Val s'"
    and "fd \<in> set (ready_clients env s)" and "reads env fd = RdOk []"
  shows "fd \<in> opened s' \<and> fd \<notin> set (pconnected s')"
  using own_iter_ok(2) [OF own_poll_reach_ok [OF assms(1)] assms(2-5)] .

theorem own_poll_leaks_witness:
  "\<exists>s'. own_poll_iter 3 (poll_example {4} 5 []) one_client = Val s' \<and> 4 \<in> opened s' \<and> 4 \<notin> set (pconnected s')"
proof -
  have k: "kernel_ok 3 (poll_example {4} 5 []) one_client" by (simp add: poll_example_simps)
  have "\<exists>s'. own_poll_iter 3 (poll_example {4} 5 []) one_client = Val s'"
    by (simp add: own_poll_iter_def poll_def polled_def poll_example_simps Let_def)
  then obtain s' where "own_poll_iter 3 (poll_example {4} 5 []) one_client = Val s'" by blast
  moreover from own_poll_leaks [OF poll_example_reach(2) k this, of 4] have "4 \<in> opened s' \<and> 4 \<notin> set (pconnected s')"
    by (simp add: poll_example_simps)
  ultimately show ?thesis by blast
qed

text \<open>It has no use for \<^verbatim>\<open>nready\<close> in its loop, and so reads an indeterminate \<^verbatim>\<open>revents\<close> whenever a connection is put into an entry used for the
  first time while a client is ready.\<close>

theorem own_poll_undefined:
  assumes "own_poll_reach open_max listenfd s" and "kernel_ok listenfd env s" and "poll_ans env listenfd \<noteq> 0"
    and "ready_clients env s \<noteq> []" and "pmaxi s < free_entry (pclient s)"
  shows "own_poll_iter listenfd env s = UB"
proof -
  let ?is = "[1..<pmaxi s + 1]"
  have ok: "own_ok open_max listenfd s" by (rule own_poll_reach_ok [OF assms(1)])
  then have tab: "table_ok open_max listenfd s" and op: "insert listenfd (set (pconnected s)) \<subseteq> opened s" by (simp_all add: own_ok_def)
  from after_poll [OF tab assms(2)] obtain ps where d: "poll_done env open_max listenfd s ps" and
    pl: "poll env (pmaxi s + 1) (pclient s) = Val (int (how_many (\<lambda>j. flagged (ps ! j)) ?is) + 1, ps)" using assms(3) by auto
  let ?n = "int (how_many (\<lambda>j. flagged (ps ! j)) ?is)" and ?s = "s\<lparr>pclient := ps\<rparr>"
  have len: "length ps = open_max" "length (pclient s) = open_max" using table_len [OF done_ok [OF d]] table_len [OF tab] by simp_all
  have ne: "pclient s \<noteq> []" using len table_maxi [OF tab] by auto
  define i fd where "i = free_entry ps" and "fd = connection env"
  define t where "t = add_client i fd (accepted_fd fd ?s)"
  have fe: "free_entry ps = free_entry (pclient s)" using done_fds [OF d] by (simp add: free_entry_def map_tl)
  have kf: "0 \<le> fd" "fd \<notin> opened s" "i < open_max" "poll_ans env listenfd AND POLLRDNORM \<noteq> 0"
    using assms(2,3) fe len by (auto simp: kernel_ok_def fd_def i_def)
  have fdn: "fd \<notin> set (pconnected s)" "fd \<noteq> listenfd" using kf(2) op by auto
  note t = new_client_flags [OF tab d i_def kf(3,1) fdn, folded t_def]
  from assms(4) obtain j where j: "0 < j" "j < open_max" "0 \<le> pfd (pclient s ! j)" "ready (poll_ans env (pfd (pclient s ! j)))"
    using connected_set [OF ne] len by (auto simp: ready_clients_def filter_empty_conv)
  have "j \<le> pmaxi s" "flagged (ps ! j)" using table_used [OF tab j(2,1,3)] done_flags [OF d] j len by (simp_all add: flags_of_def)
  then have pos: "0 < ?n" using how_many_mem [of j ?is "\<lambda>j. flagged (ps ! j)"] j(1) by (simp del: upt_Suc)
  have "own_poll_iter listenfd env s = own_poll_clients env [1..<pmaxi t + 1] t"
    using pl done_first [OF d] assms(3) kf(1,3,4) len pos unfolding own_poll_iter_def
    by (simp add: Let_def t_def i_def fd_def del: upt_Suc)
  moreover have "revents (pclient t ! i) = None" "i \<in> set [1..<pmaxi t + 1]" "\<forall>i \<in> set [1..<pmaxi t + 1]. i < length (pclient t)"
    using t(5) table_beyond [OF done_ok [OF d] kf(3)] assms(5) fe t(6) table_maxi [OF t(1)] table_len [OF t(1)] by (auto simp: i_def)
  ultimately show ?thesis using own_clients_undefined by metis
qed

theorem own_poll_undefined_witness: "own_poll_iter 3 (poll_example {3, 4} 5 ''hi'') one_client = UB"
proof -
  have "kernel_ok 3 (poll_example {3, 4} 5 ''hi'') one_client" by (simp add: poll_example_simps)
  from own_poll_undefined [OF poll_example_reach(2) this] show ?thesis by (simp add: poll_example_simps)
qed

section \<open>The server on \<^verbatim>\<open>epoll\<close>\<close>

text \<open>
  An event is a descriptor and whether \<^verbatim>\<open>EPOLLIN\<close> is set. The state is the descriptors registered, with the edge-triggered flag,
  those made non-blocking, those open, and what was printed. The answers of \<^verbatim>\<open>accept\<close> and \<^verbatim>\<open>recv\<close> are given per event.
\<close>

record epoll_srv =
  registered :: "(int \<times> bool) list"
  nonblocking :: "int set"
  ep_open :: "int set"
  printed :: "(nat option \<times> char list) list"

record epoll_env =
  ep_accept :: "nat \<Rightarrow> int"
  ep_recv :: "nat \<Rightarrow> rd"

definition set_non_blocking :: "int \<Rightarrow> epoll_srv \<Rightarrow> epoll_srv" where
  "set_non_blocking fd s = (if fd \<in> ep_open s then s\<lparr>nonblocking := insert fd (nonblocking s)\<rparr> else s)"

definition addfd :: "int \<Rightarrow> bool \<Rightarrow> epoll_srv \<Rightarrow> epoll_srv" where
  "addfd fd enable_et s =
     set_non_blocking fd (if fd \<in> ep_open s \<and> fd \<notin> fst ` set (registered s) then s\<lparr>registered := registered s @ [(fd, enable_et)]\<rparr> else s)"

definition ep_close :: "int \<Rightarrow> epoll_srv \<Rightarrow> epoll_srv" where
  "ep_close fd s = s\<lparr>ep_open := ep_open s - {fd}, registered := filter (\<lambda>(x, _). x \<noteq> fd) (registered s), nonblocking := nonblocking s - {fd}\<rparr>"

definition ep_new :: "int \<Rightarrow> bool \<Rightarrow> epoll_srv \<Rightarrow> epoll_srv" where
  "ep_new fd et s = addfd fd et (if 0 \<le> fd then s\<lparr>ep_open := insert fd (ep_open s)\<rparr> else s)"

text \<open>Level-triggered: at most 9 bytes of a client are read into a cleared buffer of 10 and printed as a string.\<close>

fun lt :: "epoll_env \<Rightarrow> int \<Rightarrow> nat \<Rightarrow> (int \<times> bool) list \<Rightarrow> epoll_srv \<Rightarrow> epoll_srv" where
  "lt env listenfd i [] s = s"
| "lt env listenfd i ((sockfd, epollin) # evs) s =
     lt env listenfd (i + 1) evs
       (if sockfd = listenfd then ep_new (ep_accept env i) False s
        else if epollin then
          (case ep_recv env i of
             RdErr e \<Rightarrow> ep_close sockfd s
           | RdOk bs \<Rightarrow> if bs = [] then ep_close sockfd s
               else s\<lparr>printed := printed s @ [(Some (length bs), takeWhile (\<lambda>c. c \<noteq> NUL) bs)]\<rparr>)
        else s)"

text \<open>
  Edge-triggered: \<^verbatim>\<open>connfd\<close> is a local variable without a value until the first connection of this call, and the buffer, of which
  only the first byte is ever written, is printed as a string.
\<close>

fun et :: "epoll_env \<Rightarrow> int \<Rightarrow> nat \<Rightarrow> (int \<times> bool) list \<Rightarrow> int option \<Rightarrow> char option \<Rightarrow> epoll_srv \<Rightarrow> epoll_srv c_value" where
  "et env listenfd i [] connfd buffer0 s = Val s"
| "et env listenfd i ((sockfd, epollin) # evs) connfd buffer0 s =
     (if sockfd = listenfd then et env listenfd (i + 1) evs (Some (ep_accept env i)) buffer0 (ep_new (ep_accept env i) True s)
      else if epollin then
        (case connfd of
           None \<Rightarrow> UB
         | Some fd \<Rightarrow>
             let b = (case ep_recv env i of RdOk (c # _) \<Rightarrow> Some c | _ \<Rightarrow> buffer0) in
             if b = Some NUL then et env listenfd (i + 1) evs connfd b (s\<lparr>printed := printed s @ [(None, [])]\<rparr>)
             else UB)
      else et env listenfd (i + 1) evs connfd buffer0 s)"

definition epoll_init :: "int \<Rightarrow> epoll_srv" where
  "epoll_init listenfd = addfd listenfd True \<lparr>registered = [], nonblocking = {}, ep_open = {listenfd}, printed = []\<rparr>"

text \<open>One iteration of \<^verbatim>\<open>main\<close>; a failing \<^verbatim>\<open>epoll_wait\<close> ends the loop and closes the listening descriptor.\<close>

definition epoll_iter :: "epoll_env \<Rightarrow> int \<Rightarrow> (int \<times> bool) list option \<Rightarrow> epoll_srv \<Rightarrow> epoll_srv run c_value" where
  "epoll_iter env listenfd waited s =
     (case waited of
        None \<Rightarrow> Val (Exit 0)
      | Some evs \<Rightarrow> (case et env listenfd 0 evs None None s of UB \<Rightarrow> UB | Val s' \<Rightarrow> Val (Ret s')))"

text \<open>As soon as a client sends a byte other than NUL the server's behaviour is undefined.\<close>

theorem epoll_input_undefined:
  assumes "evs = us @ (fd, True) # vs" and "\<forall>(x, _) \<in> set us. x = listenfd" and "fd \<noteq> listenfd"
    and "\<exists>c bs. ep_recv env (length us) = RdOk (c # bs) \<and> c \<noteq> NUL"
  shows "epoll_iter env listenfd (Some evs) s = UB"
proof -
  have "et env listenfd i (us @ (fd, True) # vs) connfd b0 s = UB" if "\<exists>c bs. ep_recv env (i + length us) = RdOk (c # bs) \<and> c \<noteq> NUL" for i connfd b0 s
    using assms(2) that
  proof (induction us arbitrary: i connfd b0 s)
    case Nil
    then show ?case using assms(3) by (auto split: option.splits)
  next
    case (Cons e us)
    obtain x b where e: "e = (x, b)" by fastforce
    then have "x = listenfd" using Cons.prems(1) by simp
    with e show ?case using Cons.IH [of "i + 1"] Cons.prems by simp
  qed
  from this [of 0] assms(1,4) show ?thesis by (simp add: epoll_iter_def)
qed

theorem epoll_input_undefined_witness:
  "epoll_iter \<lparr>ep_accept = (\<lambda>_. 5), ep_recv = (\<lambda>_. RdOk ''x'')\<rparr> 3 (Some [(4, True)]) (epoll_init 3) = UB"
  by (rule epoll_input_undefined [of _ "[]" 4 "[]"]) auto

end
