(* ===== verification/Ping.thy ===== *)
theory Ping
  imports Packet
begin

text \<open>
  The program \<^verbatim>\<open>unpv13e/ping\<close>, for both versions of IP: the echo request sent every second (\<^verbatim>\<open>send_v4.c\<close>, \<^verbatim>\<open>send_v6.c\<close>,
  \<^verbatim>\<open>sig_alrm.c\<close>), what is made of a packet that comes in (\<^verbatim>\<open>proc_v4.c\<close>, \<^verbatim>\<open>proc_v6.c\<close>), and the loop (\<^verbatim>\<open>readloop.c\<close>) that both interrupt.
  Packets are built and taken apart octet by octet. A line printed is a value of type \<open>ping_line\<close>, with the round-trip time as the
  \<^verbatim>\<open>struct timeval\<close> it is printed from. \<open>w\<close> is the width of a \<^verbatim>\<open>long\<close>.
\<close>

section \<open>State\<close>

datatype ping_line =
    Reply int nat nat timeval
  | Reply6 int nat "nat option" timeval
  | Other int nat nat

record ping =
  ping_id :: nat
  nsent :: nat
  verbose :: bool
  wire :: "nat list list"
  out_lines :: "ping_line list"

abbreviation (input) datalen :: nat where "datalen \<equiv> 56"

definition ping_init :: "nat \<Rightarrow> bool \<Rightarrow> ping" where
  "ping_init pid v = \<lparr>ping_id = pid mod 65536, nsent = 0, verbose = v, wire = [], out_lines = []\<rparr>"

section \<open>Sending\<close>

definition echo_data :: "nat \<Rightarrow> timeval \<Rightarrow> nat list" where
  "echo_data w tv = put_tv w tv @ replicate (datalen - 2 * w) 0xa5"

definition echo_request :: "nat \<Rightarrow> nat \<Rightarrow> timeval \<Rightarrow> nat \<Rightarrow> nat \<Rightarrow> nat list" where
  "echo_request typ w tv ident sequence = [typ, 0, 0, 0] @ put_le16 ident @ put_le16 (sequence mod 65536) @ echo_data w tv"

definition send_v4 :: "nat \<Rightarrow> timeval \<Rightarrow> ping \<Rightarrow> ping" where
  "send_v4 w tv s =
     (let p = echo_request ICMP_ECHO w tv (ping_id s) (nsent s) in
      s\<lparr>nsent := nsent s + 1, wire := wire s @ [take 2 p @ put_le16 (cksum p) @ drop 4 p]\<rparr>)"

definition send_v6 :: "nat \<Rightarrow> timeval \<Rightarrow> ping \<Rightarrow> ping" where
  "send_v6 w tv s = s\<lparr>nsent := nsent s + 1, wire := wire s @ [echo_request 128 w tv (ping_id s) (nsent s)]\<rparr>"

section \<open>Receiving\<close>

text \<open>What \<^verbatim>\<open>icmp_type\<close>, \<^verbatim>\<open>icmp_code\<close> and the time are: fields of the packet, without a value beyond its end.\<close>

definition octet :: "nat list \<Rightarrow> nat \<Rightarrow> nat c_value" where
  "octet buf off = (if off < length buf then Val (buf ! off) else UB)"

definition proc_v4 :: "nat \<Rightarrow> ping \<Rightarrow> nat list \<Rightarrow> timeval \<Rightarrow> ping_line option c_value" where
  "proc_v4 w s buf tvrecv =
     (case (octet buf 0, octet buf 9) of
        (Val b0, Val ip_p) \<Rightarrow>
          let hlen1 = b0 mod 16 * 4; icmplen = int (length buf) - int hlen1 in
          if ip_p \<noteq> IPPROTO_ICMP then Val None
          else if icmplen < 8 then Val None
          else let typ = buf ! hlen1 in
          if typ = ICMP_ECHOREPLY then
            if le16 (drop (hlen1 + 4) buf) \<noteq> ping_id s then Val None
            else if icmplen < 16 then Val None
            else (case octets buf (hlen1 + 8) (2 * w) of
                    UB \<Rightarrow> UB
                  | Val tvsend \<Rightarrow>
                      Val (Some (Reply icmplen (le16 (drop (hlen1 + 6) buf)) (buf ! 8) (tv_sub tvrecv (get_tv w tvsend)))))
          else if verbose s then Val (Some (Other icmplen typ (buf ! (hlen1 + 1))))
          else Val None
      | _ \<Rightarrow> UB)"

text \<open>The ancillary data of an IPv6 packet: level, type and value of each element; the hop limit is the first that is one.\<close>

fun hop_limit :: "(nat \<times> nat \<times> nat) list \<Rightarrow> nat option" where
  "hop_limit [] = None"
| "hop_limit ((level, typ, x) # cmsgs) = (if level = 41 \<and> typ = 52 then Some x else hop_limit cmsgs)"

definition proc_v6 :: "nat \<Rightarrow> ping \<Rightarrow> nat list \<Rightarrow> (nat \<times> nat \<times> nat) list \<Rightarrow> timeval \<Rightarrow> ping_line option c_value" where
  "proc_v6 w s buf cmsgs tvrecv =
     (let len = int (length buf) in
      if len < 8 then Val None
      else if buf ! 0 = 129 then
        if le16 (drop 4 buf) \<noteq> ping_id s then Val None
        else if len < 16 then Val None
        else (case octets buf 8 (2 * w) of
                UB \<Rightarrow> UB
              | Val tvsend \<Rightarrow> Val (Some (Reply6 len (le16 (drop 6 buf)) (hop_limit cmsgs) (tv_sub tvrecv (get_tv w tvsend)))))
      else if verbose s then Val (Some (Other len (buf ! 0) (buf ! 1)))
      else Val None)"

section \<open>The loop\<close>

text \<open>What happens to the process: the alarm, and what \<^verbatim>\<open>recvmsg\<close> returns.\<close>

datatype ping_event =
    Alarm timeval
  | Interrupted
  | Recv_error
  | Packet "nat list" "(nat \<times> nat \<times> nat) list" timeval

definition sig_alrm :: "nat \<Rightarrow> bool \<Rightarrow> timeval \<Rightarrow> ping \<Rightarrow> ping" where
  "sig_alrm w v6 tv s = (if v6 then send_v6 w tv s else send_v4 w tv s)"

definition readloop_step :: "nat \<Rightarrow> bool \<Rightarrow> ping_event \<Rightarrow> ping \<Rightarrow> ping run c_value" where
  "readloop_step w v6 ev s =
     (case ev of
        Alarm tv \<Rightarrow> Val (Ret (sig_alrm w v6 tv s))
      | Interrupted \<Rightarrow> Val (Ret s)
      | Recv_error \<Rightarrow> Val (Exit 1)
      | Packet buf cmsgs tv \<Rightarrow>
          (case (if v6 then proc_v6 w s buf cmsgs tv else proc_v4 w s buf tv) of
             UB \<Rightarrow> UB
           | Val None \<Rightarrow> Val (Ret s)
           | Val (Some l) \<Rightarrow> Val (Ret (s\<lparr>out_lines := out_lines s @ [l]\<rparr>))))"

fun readloop :: "nat \<Rightarrow> bool \<Rightarrow> ping_event list \<Rightarrow> ping \<Rightarrow> ping run c_value" where
  "readloop w v6 [] s = Val (Ret s)"
| "readloop w v6 (ev # evs) s =
     (case readloop_step w v6 ev s of
        Val (Ret s') \<Rightarrow> readloop w v6 evs s'
      | r \<Rightarrow> r)"

section \<open>What was sent\<close>

fun send_times :: "ping_event list \<Rightarrow> timeval list" where
  "send_times [] = []"
| "send_times (Alarm tv # evs) = tv # send_times evs"
| "send_times (_ # evs) = send_times evs"

definition request_v4 :: "nat \<Rightarrow> nat \<Rightarrow> nat \<Rightarrow> timeval \<Rightarrow> nat list" where
  "request_v4 w ident k tv =
     (let p = echo_request ICMP_ECHO w tv ident k in take 2 p @ put_le16 (cksum p) @ drop 4 p)"

definition request :: "nat \<Rightarrow> bool \<Rightarrow> nat \<Rightarrow> nat \<Rightarrow> timeval \<Rightarrow> nat list" where
  "request w v6 ident k tv = (if v6 then echo_request 128 w tv ident k else request_v4 w ident k tv)"

lemma sig_alrm_wire:
  "sig_alrm w v6 tv s = s\<lparr>nsent := nsent s + 1, wire := wire s @ [request w v6 (ping_id s) (nsent s) tv]\<rparr>"
  by (simp add: sig_alrm_def send_v4_def send_v6_def request_def request_v4_def Let_def)

lemma readloop_wire:
  assumes "readloop w v6 evs s = Val (Ret s')"
  shows "ping_id s' = ping_id s \<and> nsent s' = nsent s + length (send_times evs) \<and> verbose s' = verbose s \<and>
    wire s' = wire s @ map (\<lambda>(k, tv). request w v6 (ping_id s) k tv) (enumerate (nsent s) (send_times evs))"
  using assms
proof (induction evs arbitrary: s)
  case (Cons ev evs)
  from Cons.prems obtain t where t: "readloop_step w v6 ev s = Val (Ret t)" "readloop w v6 evs t = Val (Ret s')"
    by (auto split: c_value.splits run.splits)
  show ?case
  proof (cases ev)
    case (Alarm tv)
    then have "t = s\<lparr>nsent := nsent s + 1, wire := wire s @ [request w v6 (ping_id s) (nsent s) tv]\<rparr>"
      using t(1) by (simp add: readloop_step_def sig_alrm_wire)
    with Cons.IH [OF t(2)] Alarm show ?thesis by simp
  next
    case (Packet buf cmsgs tv)
    then have "ping_id t = ping_id s \<and> nsent t = nsent s \<and> verbose t = verbose s \<and> wire t = wire s"
      using t(1) by (auto simp: readloop_step_def split: c_value.splits option.splits)
    with Cons.IH [OF t(2)] Packet show ?thesis by simp
  qed (use Cons.IH [OF t(2)] t(1) in \<open>auto simp: readloop_step_def\<close>)
qed simp

section \<open>The answer to a request\<close>

text \<open>An IPv4 header for ICMP, of any length, and the reply to a request in it.\<close>

definition ip_icmp :: "nat list \<Rightarrow> bool" where
  "ip_icmp h \<longleftrightarrow> 20 \<le> length h \<and> hd h mod 16 * 4 = length h \<and> h ! 9 = IPPROTO_ICMP"

definition reply_v4 :: "nat list \<Rightarrow> nat list \<Rightarrow> nat list \<Rightarrow> nat list" where
  "reply_v4 h ck p = h @ [ICMP_ECHOREPLY, 0] @ ck @ drop 4 p"

definition reply_v6 :: "nat list \<Rightarrow> nat list \<Rightarrow> nat list" where
  "reply_v6 ck p = [129, 0] @ ck @ drop 4 p"

definition time_fits :: "nat \<Rightarrow> timeval \<Rightarrow> bool" where
  "time_fits w t \<longleftrightarrow> tv_ok t \<and> 0 \<le> tv_sec t \<and> tv_sec t < 256 ^ w"

abbreviation (input) long_width :: "nat \<Rightarrow> bool" where
  "long_width w \<equiv> w = 4 \<or> w = 8"

lemma le16_put_append: "le16 (put_le16 x @ cs) = x mod 65536"
  using mod_mult2_eq [of x 256 256] by (simp add: le16_def put_le16_def)

lemma request_tail:
  "drop 4 (request w v6 ident k tv) = put_le16 ident @ put_le16 (k mod 65536) @ put_tv w tv @ replicate (datalen - 2 * w) 0xa5"
proof -
  have "drop 4 (take 2 p @ put_le16 c @ drop 4 p) = drop 4 p" if "2 \<le> length p" for p c using that by simp
  then show ?thesis by (simp add: request_def request_v4_def Let_def echo_request_def echo_data_def)
qed

lemma request_v4_good:
  assumes "long_width w"
  shows "length (request w False ident k tv) = 64" and "cksum (request w False ident k tv) = 0"
proof -
  let ?p = "echo_request ICMP_ECHO w tv ident k" and ?post = "put_le16 ident @ put_le16 (k mod 65536) @ echo_data w tv"
  have len: "length (echo_data w tv) = 56" using assms by (auto simp: echo_data_def)
  have p: "?p = [8, 0] @ [0, 0] @ ?post" by (simp add: echo_request_def)
  have r: "request w False ident k tv = [8, 0] @ put_le16 (cksum ?p) @ ?post"
    by (simp add: request_def request_v4_def Let_def echo_request_def)
  show "length (request w False ident k tv) = 64" unfolding r using len by simp
  show "cksum (request w False ident k tv) = 0"
    unfolding r by (rule cksum_filled) (use len p in auto)
qed

lemma proc_reply_v4:
  assumes "ip_icmp h" and "length ck = 2" and "long_width w" and "time_fits w tv" and "ping_id s < 65536"
  shows "proc_v4 w s (reply_v4 h ck (request w False ident k tv)) tvrecv =
    Val (if ident mod 65536 = ping_id s then Some (Reply 64 (k mod 65536) (h ! 8) (tv_sub tvrecv tv)) else None)"
proof -
  let ?tl = "put_le16 ident @ put_le16 (k mod 65536) @ put_tv w tv @ replicate (datalen - 2 * w) 0xa5"
  define b where "b = h @ [ICMP_ECHOREPLY, 0] @ ck @ ?tl"
  have bb: "reply_v4 h ck (request w False ident k tv) = b" by (simp add: b_def reply_v4_def request_tail)
  have "h \<noteq> []" using assms(1) by (auto simp: ip_icmp_def)
  then have h: "20 \<le> length h" "hd h mod 16 * 4 = length h" "h ! 9 = IPPROTO_ICMP" "h ! 0 = hd h"
    using assms(1) by (auto simp: ip_icmp_def hd_conv_nth)
  have len: "length b = length h + 64" using assms(2,3) by (auto simp: b_def)
  have o: "octet b 0 = Val (hd h)" "octet b 9 = Val IPPROTO_ICMP" using h len by (auto simp: b_def octet_def nth_append)
  have tvs: "octets b (length h + 8) (2 * w) = Val (put_tv w tv)"
    using octets_at [of "h @ [ICMP_ECHOREPLY, 0] @ ck @ put_le16 ident @ put_le16 (k mod 65536)" "length h + 8" "put_tv w tv" "2 * w"
      "replicate (datalen - 2 * w) 0xa5"] assms(2) by (simp add: b_def)
  have get: "get_tv w (put_tv w tv) = tv" using assms(3,4) by (intro get_put_tv) (auto simp: time_fits_def)
  have ty: "b ! length h = ICMP_ECHOREPLY" "b ! 8 = h ! 8" using h by (simp_all add: b_def nth_append)
  have d4: "drop (length h + 4) b = ?tl" using assms(2) by (simp add: b_def)
  obtain c1 c2 where ck: "ck = [c1, c2]" using assms(2) by (auto simp: length_Suc_conv numeral_2_eq_2)
  have d6: "drop (length h + 6) b = put_le16 (k mod 65536) @ put_tv w tv @ replicate (datalen - 2 * w) 0xa5"
    by (simp add: b_def ck put_le16_def)
  have ids: "le16 (?tl) = ident mod 65536" "le16 (put_le16 (k mod 65536) @ cs) = k mod 65536" for cs
    by (simp_all add: le16_put_append)
  show ?thesis
    unfolding bb proc_v4_def o prod.case c_value.case h(2) Let_def len
    using tvs get ty d4 d6 ids by simp
qed

lemma proc_reply_v6:
  assumes "length ck = 2" and "long_width w" and "time_fits w tv" and "ping_id s < 65536"
  shows "proc_v6 w s (reply_v6 ck (request w True ident k tv)) cmsgs tvrecv =
    Val (if ident mod 65536 = ping_id s then Some (Reply6 64 (k mod 65536) (hop_limit cmsgs) (tv_sub tvrecv tv)) else None)"
proof -
  let ?tl = "put_le16 ident @ put_le16 (k mod 65536) @ put_tv w tv @ replicate (datalen - 2 * w) 0xa5"
  define b where "b = [129, 0] @ ck @ ?tl"
  have bb: "reply_v6 ck (request w True ident k tv) = b" by (simp add: b_def reply_v6_def request_tail)
  have len: "length b = 64" using assms(1,2) by (auto simp: b_def)
  have tvs: "octets b 8 (2 * w) = Val (put_tv w tv)"
    using octets_at [of "[129, 0] @ ck @ put_le16 ident @ put_le16 (k mod 65536)" 8 "put_tv w tv" "2 * w"
      "replicate (datalen - 2 * w) 0xa5"] assms(1) by (simp add: b_def)
  have get: "get_tv w (put_tv w tv) = tv" using assms(2,3) by (intro get_put_tv) (auto simp: time_fits_def)
  obtain c1 c2 where ck: "ck = [c1, c2]" using assms(1) by (auto simp: length_Suc_conv numeral_2_eq_2)
  have ty: "b ! 0 = 129" by (simp add: b_def)
  have d: "drop 4 b = ?tl" "drop 6 b = put_le16 (k mod 65536) @ put_tv w tv @ replicate (datalen - 2 * w) 0xa5"
    by (simp_all add: b_def ck put_le16_def)
  have ids: "le16 (?tl) = ident mod 65536" "le16 (put_le16 (k mod 65536) @ cs) = k mod 65536" for cs
    by (simp_all add: le16_put_append)
  show ?thesis
    unfolding bb proc_v6_def Let_def len
    using tvs get d ids ty by simp
qed

section \<open>Properties\<close>

text \<open>C25. The round-trip times printed are right: after any run, the reply to the \<open>k\<close>th request sent, in whatever IP packet and at whatever time
  it arrives, is printed with the sequence number \<open>k\<close> modulo \<open>2 ^ 16\<close> and with exactly the time that has passed since that request was
  sent; each IPv4 request is 64 octets with a valid checksum.\<close>

theorem ping_measures_round_trip:
  assumes "readloop w v6 evs (ping_init pid v) = Val (Ret s)" and "k < length (send_times evs)" and "long_width w"
    and "time_fits w (send_times evs ! k)" and "tv_ok tvrecv" and "ip_icmp h" and "length ck = 2"
  shows "\<exists>rtt. tv_ok rtt \<and> micros rtt = micros tvrecv - micros (send_times evs ! k) \<and>
    (if v6 then proc_v6 w s (reply_v6 ck (wire s ! k)) cmsgs tvrecv = Val (Some (Reply6 64 (k mod 65536) (hop_limit cmsgs) rtt))
     else proc_v4 w s (reply_v4 h ck (wire s ! k)) tvrecv = Val (Some (Reply 64 (k mod 65536) (h ! 8) rtt)) \<and>
       length (wire s ! k) = 64 \<and> cksum (wire s ! k) = 0)"
proof -
  let ?tv = "send_times evs ! k"
  have s: "ping_id s = pid mod 65536" "wire s = map (\<lambda>(k, tv). request w v6 (pid mod 65536) k tv) (enumerate 0 (send_times evs))"
    using readloop_wire [OF assms(1)] by (simp_all add: ping_init_def)
  have wk: "wire s ! k = request w v6 (pid mod 65536) k ?tv" using assms(2) by (simp add: s(2) nth_enumerate_eq)
  have id: "ping_id s < 65536" by (simp add: s(1))
  have "micros (tv_sub tvrecv ?tv) = micros tvrecv - micros ?tv" "tv_ok (tv_sub tvrecv ?tv)"
    using assms(4,5) by (simp_all add: tv_sub_exact tv_sub_ok time_fits_def)
  with proc_reply_v4 [OF assms(6,7,3,4) id, of "pid mod 65536" k tvrecv] proc_reply_v6 [OF assms(7,3,4) id, of "pid mod 65536" k cmsgs tvrecv]
    request_v4_good [OF assms(3), of "pid mod 65536" k ?tv]
  show ?thesis by (intro exI [of _ "tv_sub tvrecv ?tv"]) (simp add: wk s(1))
qed

theorem ping_measures_round_trip_witness:
  "\<exists>s. readloop 4 False [Alarm \<lparr>tv_sec = 7, tv_usec = 900000\<rparr>] (ping_init 70000 False) = Val (Ret s) \<and>
     (\<exists>rtt. micros rtt = 350000 \<and>
        proc_v4 4 s (reply_v4 (0x45 # replicate 8 64 @ [1] @ replicate 10 0) [1, 2] (wire s ! 0)) \<lparr>tv_sec = 8, tv_usec = 250000\<rparr> =
          Val (Some (Reply 64 0 64 rtt)))"
proof -
  let ?evs = "[Alarm \<lparr>tv_sec = 7, tv_usec = 900000\<rparr>]" and ?h = "0x45 # replicate 8 64 @ [1] @ replicate 10 (0 :: nat)"
  obtain s where s: "readloop 4 False ?evs (ping_init 70000 False) = Val (Ret s)" by (simp add: readloop_step_def)
  have "ip_icmp ?h" by (simp add: ip_icmp_def nth_append)
  moreover have "time_fits 4 (send_times ?evs ! 0)" "tv_ok \<lparr>tv_sec = 8, tv_usec = 250000\<rparr>"
    by (simp_all add: time_fits_def tv_ok_def)
  ultimately obtain rtt where "micros rtt = micros \<lparr>tv_sec = 8, tv_usec = 250000\<rparr> - micros (send_times ?evs ! 0)"
    "proc_v4 4 s (reply_v4 ?h [1, 2] (wire s ! 0)) \<lparr>tv_sec = 8, tv_usec = 250000\<rparr> = Val (Some (Reply 64 (0 mod 65536) (?h ! 8) rtt))"
    using ping_measures_round_trip [OF s, of 0 "\<lparr>tv_sec = 8, tv_usec = 250000\<rparr>" ?h "[1, 2]"] by auto
  moreover from this(1) have "micros rtt = 350000" by (simp add: micros_def)
  moreover have "?h ! 8 = 64" by (simp add: nth_append numeral_eq_Suc)
  ultimately show ?thesis using s by (metis mod_0)
qed

text \<open>A reply is printed only for an echo reply with the identifier of this process.\<close>

lemma proc_v4_own:
  assumes "proc_v4 w s buf tv = Val (Some (Reply n sequence t rtt))"
  shows "\<exists>hlen. hlen = hd buf mod 16 * 4 \<and> hlen + 16 \<le> length buf \<and> buf ! 9 = IPPROTO_ICMP \<and> buf ! hlen = ICMP_ECHOREPLY \<and>
    le16 (drop (hlen + 4) buf) = ping_id s"
  using assms
  by (auto simp: proc_v4_def octet_def Let_def hd_conv_nth split: if_splits c_value.splits)

text \<open>Where \<^verbatim>\<open>struct timeval\<close> is 16 octets, the test for 16 octets of ICMP lets replies through that are too short for the time.\<close>

lemma proc_v4_short:
  assumes "ip_icmp h" and "16 \<le> length icmp" "length icmp < 24" and "icmp ! 0 = ICMP_ECHOREPLY" and "le16 (drop 4 icmp) = ping_id s"
  shows "proc_v4 8 s (h @ icmp) tv = UB"
proof -
  have ne: "h \<noteq> []" using assms(1) by (auto simp: ip_icmp_def)
  then have h: "20 \<le> length h" "hd h mod 16 * 4 = length h" "h ! 9 = IPPROTO_ICMP" "h ! 0 = hd h"
    using assms(1) by (auto simp: ip_icmp_def hd_conv_nth)
  then have "octet (h @ icmp) 0 = Val (hd h)" "octet (h @ icmp) 9 = Val IPPROTO_ICMP" by (auto simp: octet_def nth_append)
  moreover have "octets (h @ icmp) (length h + 8) 16 = UB" "(h @ icmp) ! length h = ICMP_ECHOREPLY"
    using assms(3,4) by (simp_all add: octets_def nth_append)
  moreover have "drop (length h + 4) (h @ icmp) = drop 4 icmp" by simp
  ultimately show ?thesis using h assms(2,5) by (simp add: proc_v4_def)
qed

end
