(* ===== verification/Traceroute.thy ===== *)
theory Traceroute
  imports Packet
begin

text \<open>
  The program \<^verbatim>\<open>unpv13e/traceroute\<close>: the loop over the hops and the three probes of each (\<^verbatim>\<open>traceloop.c\<close>), and the functions that wait for the
  answer to a probe (\<^verbatim>\<open>recv_v4.c\<close>, \<^verbatim>\<open>recv_v6.c\<close>, with the handler of \<^verbatim>\<open>sig_alrm.c\<close>). The answers are ICMP packets, looked into octet by octet in the
  static receive buffer, which keeps what earlier packets left in it.

  What happens to the process while it waits is a list of events. An alarm may interrupt \<^verbatim>\<open>recvfrom\<close>, or arrive between the test of
  \<^verbatim>\<open>gotalarm\<close> and the call (\<open>Alarm_early\<close>), which then blocks although the time is over.
\<close>

section \<open>Waiting for an answer\<close>

datatype tr_event =
    Alarm_waiting
  | Alarm_early
  | Other_signal
  | Recvfrom_error
  | Icmp "nat list" nat timeval

datatype verdict = Again | Got int | Indeterminate

definition quoted :: "nat \<Rightarrow> nat \<Rightarrow> nat list \<Rightarrow> nat \<Rightarrow> nat \<Rightarrow> bool" where
  "quoted sport dport buf proto_at udp_at \<longleftrightarrow>
     buf ! proto_at = IPPROTO_UDP \<and> be16 (drop udp_at buf) = sport \<and> be16 (drop (udp_at + 2) buf) = dport"

definition inner_v4 :: "nat \<Rightarrow> nat \<Rightarrow> nat list \<Rightarrow> nat \<Rightarrow> int \<Rightarrow> int \<Rightarrow> verdict" where
  "inner_v4 sport dport buf hlen1 icmplen ret =
     (if icmplen < 8 + 20 then Again
      else let hlen2 = buf ! (hlen1 + 8) mod 16 * 4 in
      if icmplen < 8 + int hlen2 + 4 then Again
      else if quoted sport dport buf (hlen1 + 8 + 9) (hlen1 + 8 + hlen2) then Got ret
      else Again)"

definition verdict_v4 :: "nat \<Rightarrow> nat \<Rightarrow> nat \<Rightarrow> nat list \<Rightarrow> verdict" where
  "verdict_v4 sport dport n buf =
     (let hlen1 = buf ! 0 mod 16 * 4; icmplen = int n - int hlen1 in
      if icmplen < 8 then Again
      else let icmp_type = buf ! hlen1; icmp_code = buf ! (hlen1 + 1) in
      if icmp_type = ICMP_TIMXCEED \<and> icmp_code = 0 then inner_v4 sport dport buf hlen1 icmplen (-2)
      else if icmp_type = ICMP_UNREACH then inner_v4 sport dport buf hlen1 icmplen (if icmp_code = 3 then -1 else int icmp_code)
      else Again)"

text \<open>
  In \<^verbatim>\<open>recv_v6\<close> the \<^verbatim>\<open>break\<close> after \<^verbatim>\<open>ret = -2\<close> is not part of the \<^verbatim>\<open>if\<close>: the loop ends at any packet about an exceeded time,
  and \<^verbatim>\<open>ret\<close> has no value when it is about someone else's.
\<close>

definition verdict_v6 :: "nat \<Rightarrow> nat \<Rightarrow> nat \<Rightarrow> nat list \<Rightarrow> verdict" where
  "verdict_v6 sport dport n buf =
     (if n < 8 then Again
      else if buf ! 0 = 3 \<and> buf ! 1 = 0 then
        if n < 8 + 40 + 4 then Again
        else if quoted sport dport buf (8 + 6) (8 + 40) then Got (-2)
        else Indeterminate
      else if buf ! 0 = 1 then
        if n < 8 + 40 + 4 then Again
        else if quoted sport dport buf (8 + 6) (8 + 40) then Got (if buf ! 1 = 4 then -1 else int (buf ! 1))
        else Again
      else Again)"

datatype tr_result = Finished | Timeout | Answer int nat timeval | Blocked | Failed | Undef

abbreviation (input) BUFSIZE :: nat where "BUFSIZE \<equiv> 1500"

definition overwrite :: "nat list \<Rightarrow> nat list \<Rightarrow> nat list" where
  "overwrite pkt buf = take BUFSIZE pkt @ drop (length pkt) buf"

text \<open>The loop of \<^verbatim>\<open>recv_v4\<close> and \<^verbatim>\<open>recv_v6\<close>, from the call of \<^verbatim>\<open>recvfrom\<close> on; what is left of the events is returned.\<close>

fun recv_loop :: "(nat \<Rightarrow> nat list \<Rightarrow> verdict) \<Rightarrow> bool \<Rightarrow> nat list \<Rightarrow> tr_event list \<Rightarrow> tr_result \<times> nat list \<times> tr_event list" where
  "recv_loop vf gotalarm buf [] = (Blocked, buf, [])"
| "recv_loop vf gotalarm buf (e # evs) =
     (case e of
        Alarm_waiting \<Rightarrow> (Timeout, buf, evs)
      | Alarm_early \<Rightarrow> recv_loop vf True buf evs
      | Other_signal \<Rightarrow> if gotalarm then (Timeout, buf, evs) else recv_loop vf gotalarm buf evs
      | Recvfrom_error \<Rightarrow> (Failed, buf, evs)
      | Icmp pkt from tv \<Rightarrow>
          let buf' = overwrite pkt buf in
          case vf (min BUFSIZE (length pkt)) buf' of
            Again \<Rightarrow> if gotalarm then (Timeout, buf', evs) else recv_loop vf gotalarm buf' evs
          | Got ret \<Rightarrow> (Answer ret from tv, buf', evs)
          | Indeterminate \<Rightarrow> (Undef, buf', evs))"

definition recv_v4 :: "nat \<Rightarrow> nat \<Rightarrow> nat list \<Rightarrow> tr_event list \<Rightarrow> tr_result \<times> nat list \<times> tr_event list" where
  "recv_v4 sport dport = recv_loop (verdict_v4 sport dport) False"

definition recv_v6 :: "nat \<Rightarrow> nat \<Rightarrow> nat list \<Rightarrow> tr_event list \<Rightarrow> tr_result \<times> nat list \<times> tr_event list" where
  "recv_v6 sport dport = recv_loop (verdict_v6 sport dport) False"

section \<open>The loop over the hops\<close>

datatype hop_line = Star | Hop "nat option" timeval "int option"

record trace =
  tseq :: nat
  rbuf :: "nat list"
  salast :: "nat option"
  tdone :: nat
  probes_sent :: "(nat \<times> nat) list"
  hop_lines :: "hop_line list"

definition source_port :: "nat \<Rightarrow> nat" where
  "source_port pid = 32768 + pid mod 32768"

definition dest_port :: "nat \<Rightarrow> nat" where
  "dest_port sequence = (32768 + 666 + sequence) mod 65536"

definition trace_init :: trace where
  "trace_init = \<lparr>tseq = 0, rbuf = replicate BUFSIZE 0, salast = None, tdone = 0, probes_sent = [], hop_lines = []\<rparr>"

text \<open>
  The fields of a hop that was answered: the address if it is not that of the last answer of this hop, the time since the probe was sent,
  and the code when it is a reason other than the two expected ones.
\<close>

definition show_answer :: "timeval \<Rightarrow> int \<Rightarrow> nat \<Rightarrow> timeval \<Rightarrow> trace \<Rightarrow> trace" where
  "show_answer sent code from tv s =
     s\<lparr>hop_lines := hop_lines s @ [Hop (if salast s = Some from then None else Some from) (tv_sub tv sent) (if 0 \<le> code then Some code else None)],
       salast := Some from, tdone := (if code = -1 then tdone s + 1 else tdone s)\<rparr>"

text \<open>One probe; \<open>clock\<close> is what \<^verbatim>\<open>gettimeofday\<close> returns when the probe with a sequence number is sent.\<close>

definition send_probe :: "nat \<Rightarrow> trace \<Rightarrow> trace" where
  "send_probe ttl s = s\<lparr>tseq := tseq s + 1, probes_sent := probes_sent s @ [(ttl, dest_port (tseq s + 1))]\<rparr>"

definition one_probe :: "bool \<Rightarrow> nat \<Rightarrow> (nat \<Rightarrow> timeval) \<Rightarrow> nat \<Rightarrow> tr_event list \<Rightarrow> trace \<Rightarrow> tr_result \<times> trace \<times> tr_event list" where
  "one_probe v6 sport clock ttl evs s =
     (let s1 = send_probe ttl s in
      case (if v6 then recv_v6 sport (dest_port (tseq s1)) (rbuf s1) evs else recv_v4 sport (dest_port (tseq s1)) (rbuf s1) evs) of
        (r, buf, evs') \<Rightarrow>
          let s2 = s1\<lparr>rbuf := buf\<rparr> in
          (r, (case r of
                 Timeout \<Rightarrow> s2\<lparr>hop_lines := hop_lines s2 @ [Star]\<rparr>
               | Answer code from tv \<Rightarrow> show_answer (clock (tseq s2)) code from tv s2
               | _ \<Rightarrow> s2), evs'))"

definition returned :: "tr_result \<Rightarrow> bool" where
  "returned r \<longleftrightarrow> (case r of Finished \<Rightarrow> True | Timeout \<Rightarrow> True | Answer _ _ _ \<Rightarrow> True | _ \<Rightarrow> False)"

fun probe_loop :: "bool \<Rightarrow> nat \<Rightarrow> (nat \<Rightarrow> timeval) \<Rightarrow> nat \<Rightarrow> nat \<Rightarrow> tr_event list \<Rightarrow> trace \<Rightarrow> tr_result \<times> trace \<times> tr_event list" where
  "probe_loop v6 sport clock ttl 0 evs s = (Finished, s, evs)"
| "probe_loop v6 sport clock ttl (Suc n) evs s =
     (case one_probe v6 sport clock ttl evs s of
        (r, s', evs') \<Rightarrow> if returned r then probe_loop v6 sport clock ttl n evs' s' else (r, s', evs'))"

text \<open>The hops from \<open>ttl\<close> on, \<open>n\<close> of which are left.\<close>

fun hop_loop :: "bool \<Rightarrow> nat \<Rightarrow> (nat \<Rightarrow> timeval) \<Rightarrow> nat \<Rightarrow> nat \<Rightarrow> nat \<Rightarrow> tr_event list \<Rightarrow> trace \<Rightarrow> tr_result \<times> trace \<times> tr_event list" where
  "hop_loop v6 sport clock nprobes ttl 0 evs s = (Finished, s, evs)"
| "hop_loop v6 sport clock nprobes ttl (Suc n) evs s =
     (if tdone s \<noteq> 0 then (Finished, s, evs)
      else case probe_loop v6 sport clock ttl nprobes evs (s\<lparr>salast := None\<rparr>) of
        (r, s', evs') \<Rightarrow> if returned r then hop_loop v6 sport clock nprobes (ttl + 1) n evs' s' else (r, s', evs'))"

definition traceloop :: "bool \<Rightarrow> nat \<Rightarrow> (nat \<Rightarrow> timeval) \<Rightarrow> nat \<Rightarrow> tr_event list \<Rightarrow> tr_result \<times> trace \<times> tr_event list" where
  "traceloop v6 pid clock max_ttl evs = hop_loop v6 (source_port pid) clock 3 1 max_ttl evs trace_init"

section \<open>Every probe ends with its alarm\<close>

definition alarms :: "tr_event list \<Rightarrow> nat" where
  "alarms = how_many (\<lambda>e. e = Alarm_waiting)"

text \<open>Events among which no alarm is lost and no call fails.\<close>

definition timely :: "tr_event list \<Rightarrow> bool" where
  "timely = list_all (\<lambda>e. e \<noteq> Alarm_early \<and> e \<noteq> Recvfrom_error)"

lemma timely_simps [simp]:
  "timely []" "timely (e # evs) \<longleftrightarrow> e \<noteq> Alarm_early \<and> e \<noteq> Recvfrom_error \<and> timely evs"
  "alarms [] = 0" "alarms (e # evs) = (if e = Alarm_waiting then Suc (alarms evs) else alarms evs)"
  by (simp_all add: timely_def alarms_def)

lemma verdict_v4_determinate: "verdict_v4 sport dport n buf \<noteq> Indeterminate"
  by (simp add: verdict_v4_def inner_v4_def Let_def)

lemma recv_v4_ends:
  assumes "timely evs" and "0 < alarms evs" and "recv_v4 sport dport buf evs = (r, buf', evs')"
  shows "(r = Timeout \<or> (\<exists>c from tv. r = Answer c from tv)) \<and> timely evs' \<and> alarms evs \<le> alarms evs' + 1"
  using assms unfolding recv_v4_def
proof (induction evs arbitrary: buf)
  case (Cons e evs)
  show ?case
  proof (cases e)
    case (Icmp pkt src tv)
    let ?b = "overwrite pkt buf"
    show ?thesis
    proof (cases "verdict_v4 sport dport (min BUFSIZE (length pkt)) ?b")
      case Again
      then have "recv_loop (verdict_v4 sport dport) False ?b evs = (r, buf', evs')" using Cons.prems(3) Icmp by simp
      from Cons.IH [OF _ _ this] Cons.prems(1,2) Icmp show ?thesis by simp
    next
      case Indeterminate
      with verdict_v4_determinate show ?thesis by simp
    qed (use Cons.prems Icmp in auto)
  next
    case Other_signal
    with Cons.IH [of buf] Cons.prems show ?thesis by simp
  qed (use Cons.prems in auto)
qed simp

lemma one_probe_ends:
  assumes "timely evs" and "0 < alarms evs" and "one_probe False sport clock ttl evs s = (r, s', evs')"
  shows "returned r \<and> timely evs' \<and> alarms evs \<le> alarms evs' + 1 \<and> length (probes_sent s') = length (probes_sent s) + 1"
proof -
  obtain r1 b e where run: "recv_v4 sport (dest_port (tseq (send_probe ttl s))) (rbuf (send_probe ttl s)) evs = (r1, b, e)" by (metis prod_cases3)
  note ends = recv_v4_ends [OF assms(1,2) run]
  from assms(3) run have "r = r1" "evs' = e" by (simp_all add: one_probe_def Let_def)
  moreover have "probes_sent s' = probes_sent (send_probe ttl s)"
    using assms(3) run by (auto simp: one_probe_def Let_def show_answer_def split: tr_result.splits)
  ultimately show ?thesis using ends by (auto simp: returned_def send_probe_def)
qed

lemma probe_loop_ends:
  assumes "timely evs" and "n \<le> alarms evs" and "probe_loop False sport clock ttl n evs s = (r, s', evs')"
  shows "returned r \<and> timely evs' \<and> alarms evs \<le> alarms evs' + n \<and> length (probes_sent s') = length (probes_sent s) + n"
  using assms
proof (induction n arbitrary: evs s)
  case (Suc n)
  obtain r1 s1 e1 where one: "one_probe False sport clock ttl evs s = (r1, s1, e1)" by (metis prod_cases3)
  have "0 < alarms evs" using Suc.prems(2) by simp
  from one_probe_ends [OF Suc.prems(1) this one] have
    *: "returned r1" "timely e1" "alarms evs \<le> alarms e1 + 1" "length (probes_sent s1) = length (probes_sent s) + 1" by auto
  then have "probe_loop False sport clock ttl n e1 s1 = (r, s', evs')" using Suc.prems(3) one by simp
  from Suc.IH [OF *(2) _ this] * Suc.prems(2) show ?case by simp
qed (simp add: returned_def)

lemma hop_loop_ends:
  assumes "timely evs" and "np * n \<le> alarms evs" and "hop_loop False sport clock np ttl n evs s = (r, s', evs')"
  shows "r = Finished \<and> length (probes_sent s') \<le> length (probes_sent s) + np * n"
  using assms
proof (induction n arbitrary: evs s ttl)
  case (Suc n)
  show ?case
  proof (cases "tdone s = 0")
    case True
    obtain r1 s1 e1 where one: "probe_loop False sport clock ttl np evs (s\<lparr>salast := None\<rparr>) = (r1, s1, e1)" by (metis prod_cases3)
    have "np \<le> alarms evs" using Suc.prems(2) by simp
    from probe_loop_ends [OF Suc.prems(1) this one] have
      *: "returned r1" "timely e1" "alarms evs \<le> alarms e1 + np" "length (probes_sent s1) = length (probes_sent s) + np" by auto
    then have "hop_loop False sport clock np (ttl + 1) n e1 s1 = (r, s', evs')" using Suc.prems(3) one True by simp
    from Suc.IH [OF *(2) _ this] * Suc.prems(2) show ?thesis by simp
  qed (use Suc.prems(3) in auto)
qed simp

section \<open>The answer to a probe\<close>

text \<open>An ICMP error that quotes a UDP datagram with the given ports.\<close>

definition icmp_quote :: "nat list \<Rightarrow> nat list \<Rightarrow> nat list \<Rightarrow> nat list \<Rightarrow> nat \<Rightarrow> nat \<Rightarrow> bool" where
  "icmp_quote h1 ic h2 udp sport dport \<longleftrightarrow>
     20 \<le> length h1 \<and> hd h1 mod 16 * 4 = length h1 \<and> length ic = 8 \<and> 20 \<le> length h2 \<and> hd h2 mod 16 * 4 = length h2 \<and>
     h2 ! 9 = IPPROTO_UDP \<and> 4 \<le> length udp \<and> be16 udp = sport \<and> be16 (drop 2 udp) = dport \<and>
     length (h1 @ ic @ h2 @ udp) \<le> BUFSIZE"

lemma be16_append: "2 \<le> length bs \<Longrightarrow> be16 (bs @ cs) = be16 bs"
  by (auto simp: be16_def nth_append)

lemma verdict_quote:
  assumes "icmp_quote h1 ic h2 udp sport dport"
  shows "verdict_v4 sport dport (length (h1 @ ic @ h2 @ udp)) ((h1 @ ic @ h2 @ udp) @ rest) =
    (if ic ! 0 = ICMP_TIMXCEED \<and> ic ! 1 = 0 then Got (-2)
     else if ic ! 0 = ICMP_UNREACH then Got (if ic ! 1 = 3 then -1 else int (ic ! 1)) else Again)"
proof -
  define b where "b = (h1 @ ic @ h2 @ udp) @ rest"
  have q: "20 \<le> length h1" "hd h1 mod 16 * 4 = length h1" "length ic = 8" "20 \<le> length h2" "hd h2 mod 16 * 4 = length h2"
    "h2 ! 9 = IPPROTO_UDP" "4 \<le> length udp" "be16 udp = sport" "be16 (drop 2 udp) = dport"
    using assms by (simp_all add: icmp_quote_def)
  have ne: "h1 \<noteq> []" "h2 \<noteq> []" using q(1,4) by auto
  have at: "b ! 0 = hd h1" "b ! length h1 = ic ! 0" "b ! (length h1 + 1) = ic ! 1" "b ! (length h1 + 8) = hd h2"
    "b ! (length h1 + 8 + 9) = h2 ! 9"
    using ne q(1,3,4) by (simp_all add: b_def nth_append hd_conv_nth)
  have "drop (length h1 + 8 + length h2) b = udp @ rest" using q(3) by (simp add: b_def)
  moreover have "drop (length h1 + 8 + length h2 + 2) b = drop 2 udp @ rest" using q(3,7) by (simp add: b_def)
  ultimately have ports: "be16 (drop (length h1 + 8 + length h2) b) = sport" "be16 (drop (length h1 + 8 + length h2 + 2) b) = dport"
    using q(7,8,9) by (simp_all add: be16_append)
  have inner: "inner_v4 sport dport b (length h1) (int (length (h1 @ ic @ h2 @ udp)) - int (length h1)) ret = Got ret" for ret
    using q at ports by (simp add: inner_v4_def Let_def quoted_def)
  have "\<not> int (length (h1 @ ic @ h2 @ udp)) - int (length h1) < 8" using q(3) by simp
  then show ?thesis
    unfolding b_def [symmetric] verdict_v4_def at q(2) Let_def using inner at by simp
qed

text \<open>The verdict on a packet depends on nothing that is left in the buffer from earlier ones.\<close>

lemma verdict_v4_local:
  assumes "0 < length pkt"
  shows "verdict_v4 sport dport (length pkt) (pkt @ rest) = verdict_v4 sport dport (length pkt) pkt"
proof -
  let ?n = "length pkt" and ?hlen1 = "pkt ! 0 mod 16 * 4"
  have ports: "be16 (drop k (pkt @ rest)) = be16 (drop k pkt)" if "k + 2 \<le> ?n" for k
    using that by (simp add: be16_append)
  have at: "(pkt @ rest) ! k = pkt ! k" if "k < ?n" for k using that by (simp add: nth_append)
  have inner: "inner_v4 sport dport (pkt @ rest) ?hlen1 (int ?n - int ?hlen1) ret = inner_v4 sport dport pkt ?hlen1 (int ?n - int ?hlen1) ret" for ret
  proof (cases "int ?n - int ?hlen1 < 28")
    case False
    then have h2: "(pkt @ rest) ! (?hlen1 + 8) = pkt ! (?hlen1 + 8)" by (intro at) linarith
    let ?hlen2 = "pkt ! (?hlen1 + 8) mod 16 * 4"
    show ?thesis
    proof (cases "int ?n - int ?hlen1 < 8 + int ?hlen2 + 4")
      case F: False
      then have "quoted sport dport (pkt @ rest) (?hlen1 + 8 + 9) (?hlen1 + 8 + ?hlen2) = quoted sport dport pkt (?hlen1 + 8 + 9) (?hlen1 + 8 + ?hlen2)"
        unfolding quoted_def using False at [of "?hlen1 + 8 + 9"] ports [of "?hlen1 + 8 + ?hlen2"] ports [of "?hlen1 + 8 + ?hlen2 + 2"] by simp
      then show ?thesis by (simp only: inner_v4_def h2 Let_def)
    qed (simp add: inner_v4_def h2 Let_def)
  qed (simp add: inner_v4_def)
  show ?thesis
  proof (cases "int ?n - int ?hlen1 < 8")
    case False
    then have "(pkt @ rest) ! ?hlen1 = pkt ! ?hlen1" "(pkt @ rest) ! (?hlen1 + 1) = pkt ! (?hlen1 + 1)" by (intro at; linarith)+
    then show ?thesis unfolding verdict_v4_def at [OF assms] Let_def by (simp only: inner)
  qed (use assms in \<open>simp add: verdict_v4_def at\<close>)
qed

definition irrelevant :: "nat \<Rightarrow> nat \<Rightarrow> tr_event \<Rightarrow> bool" where
  "irrelevant sport dport e \<longleftrightarrow>
     (case e of
        Other_signal \<Rightarrow> True
      | Icmp pkt _ _ \<Rightarrow> 0 < length pkt \<and> length pkt \<le> BUFSIZE \<and> verdict_v4 sport dport (length pkt) pkt = Again
      | _ \<Rightarrow> False)"

definition answers :: "nat \<Rightarrow> nat \<Rightarrow> bool \<Rightarrow> nat list \<Rightarrow> bool" where
  "answers sport dport at_end pkt \<longleftrightarrow>
     (\<exists>h1 ic h2 udp. pkt = h1 @ ic @ h2 @ udp \<and> icmp_quote h1 ic h2 udp sport dport \<and>
        (if at_end then ic ! 0 = ICMP_UNREACH \<and> ic ! 1 = 3 else ic ! 0 = ICMP_TIMXCEED \<and> ic ! 1 = 0))"

lemma recv_v4_answer:
  assumes "list_all (irrelevant sport dport) junk" and "answers sport dport at_end pkt"
  shows "\<exists>buf'. recv_v4 sport dport buf (junk @ Icmp pkt src tv # evs) = (Answer (if at_end then -1 else -2) src tv, buf', evs)"
  using assms(1)
proof (induction junk arbitrary: buf)
  case Nil
  from assms(2) obtain h1 ic h2 udp where p: "pkt = h1 @ ic @ h2 @ udp" "icmp_quote h1 ic h2 udp sport dport"
      "if at_end then ic ! 0 = ICMP_UNREACH \<and> ic ! 1 = 3 else ic ! 0 = ICMP_TIMXCEED \<and> ic ! 1 = 0"
    by (auto simp: answers_def)
  have "length pkt \<le> BUFSIZE" using p(1,2) by (simp add: icmp_quote_def)
  then have "overwrite pkt buf = pkt @ drop (length pkt) buf" "min BUFSIZE (length pkt) = length pkt" by (simp_all add: overwrite_def)
  moreover have "verdict_v4 sport dport (length pkt) (pkt @ drop (length pkt) buf) = Got (if at_end then -1 else -2)"
    using verdict_quote [OF p(2)] p(3) unfolding p(1) by (simp split: if_splits)
  ultimately show ?case by (simp add: recv_v4_def Let_def)
next
  case (Cons e junk)
  show ?case
  proof (cases e)
    case (Icmp p f t)
    then have p: "0 < length p" "length p \<le> BUFSIZE" "verdict_v4 sport dport (length p) p = Again"
      using Cons.prems by (simp_all add: irrelevant_def)
    then have "overwrite p buf = p @ drop (length p) buf" "min BUFSIZE (length p) = length p" by (simp_all add: overwrite_def)
    with Cons.IH [of "overwrite p buf"] Cons.prems Icmp p verdict_v4_local [OF p(1)] show ?thesis
      by (simp add: recv_v4_def Let_def)
  qed (use Cons in \<open>auto simp: irrelevant_def recv_v4_def\<close>)
qed

text \<open>One probe of hop \<open>i div 3 + 1\<close> on a path.\<close>

definition path_line :: "nat list \<Rightarrow> (nat \<Rightarrow> timeval) \<Rightarrow> (nat \<Rightarrow> timeval) \<Rightarrow> nat \<Rightarrow> hop_line" where
  "path_line path clock time i = Hop (if i mod 3 = 0 then Some (path ! (i div 3)) else None) (tv_sub (time i) (clock (i + 1))) None"

definition probe_of :: "nat \<Rightarrow> nat \<times> nat" where
  "probe_of i = (i div 3 + 1, dest_port (i + 1))"

text \<open>The state before probe \<open>i\<close>, when the answers so far came from the path.\<close>

definition on_path :: "nat list \<Rightarrow> (nat \<Rightarrow> timeval) \<Rightarrow> (nat \<Rightarrow> timeval) \<Rightarrow> nat \<Rightarrow> trace \<Rightarrow> bool" where
  "on_path path clock time i s \<longleftrightarrow>
     tseq s = i \<and> probes_sent s = map probe_of [0..<i] \<and> hop_lines s = map (path_line path clock time) [0..<i] \<and>
     salast s = (if i mod 3 = 0 then None else Some (path ! (i div 3))) \<and>
     tdone s = i - 3 * (length path - 1)"

lemma one_probe_path:
  assumes "on_path path clock time i s" and "list_all (irrelevant sport (dest_port (i + 1))) junk"
    and "answers sport (dest_port (i + 1)) (i div 3 + 1 = length path) pkt" and "i < 3 * length path"
  shows "\<exists>s' c. one_probe False sport clock (i div 3 + 1) (junk @ Icmp pkt (path ! (i div 3)) (time i) # evs) s =
      (Answer c (path ! (i div 3)) (time i), s', evs) \<and>
    tseq s' = i + 1 \<and> probes_sent s' = map probe_of [0..<i + 1] \<and> hop_lines s' = map (path_line path clock time) [0..<i + 1] \<and>
    salast s' = Some (path ! (i div 3)) \<and> tdone s' = i + 1 - 3 * (length path - 1)"
proof -
  let ?c = "if i div 3 + 1 = length path then -1 else -2 :: int"
  have s: "tseq s = i" "probes_sent s = map probe_of [0..<i]" "hop_lines s = map (path_line path clock time) [0..<i]"
    "salast s = (if i mod 3 = 0 then None else Some (path ! (i div 3)))" "tdone s = i - 3 * (length path - 1)"
    using assms(1) by (simp_all add: on_path_def)
  define s1 where "s1 = send_probe (i div 3 + 1) s"
  have s1: "tseq s1 = i + 1" "probes_sent s1 = map probe_of [0..<i + 1]" "hop_lines s1 = hop_lines s" "salast s1 = salast s" "tdone s1 = tdone s"
    by (simp_all add: s1_def send_probe_def s probe_of_def)
  obtain buf' where run: "recv_v4 sport (dest_port (tseq s1)) (rbuf s1) (junk @ Icmp pkt (path ! (i div 3)) (time i) # evs) =
      (Answer ?c (path ! (i div 3)) (time i), buf', evs)"
    using recv_v4_answer [OF assms(2,3)] s1(1) by metis
  let ?s' = "show_answer (clock (i + 1)) ?c (path ! (i div 3)) (time i) (s1\<lparr>rbuf := buf'\<rparr>)"
  have "one_probe False sport clock (i div 3 + 1) (junk @ Icmp pkt (path ! (i div 3)) (time i) # evs) s = (Answer ?c (path ! (i div 3)) (time i), ?s', evs)"
    unfolding one_probe_def s1_def [symmetric] Let_def if_False run prod.case tr_result.case using s1(1) by simp
  moreover have "hop_lines ?s' = map (path_line path clock time) [0..<i + 1]"
    by (simp add: show_answer_def s1 s path_line_def)
  moreover have "tdone ?s' = i + 1 - 3 * (length path - 1)"
  proof (cases "i div 3 + 1 = length path")
    case True
    then have "3 * (length path - 1) \<le> i" using div_times_less_eq_dividend [of i 3] by simp
    with True show ?thesis by (simp add: show_answer_def s1 s)
  next
    case False
    then have "i div 3 < length path - 1" using assms(4) by (simp add: less_mult_imp_div_less)
    then have "i + 1 \<le> 3 * (length path - 1)" by (simp add: div_less_iff_less_mult mult.commute)
    with False show ?thesis by (simp add: show_answer_def s1 s)
  qed
  ultimately show ?thesis using s1 by (auto simp: show_answer_def)
qed

text \<open>A network that answers every probe from the host it reaches, after packets that do not matter.\<close>

definition path_events :: "nat list \<Rightarrow> (nat \<Rightarrow> timeval) \<Rightarrow> (nat \<Rightarrow> tr_event list) \<Rightarrow> (nat \<Rightarrow> nat list) \<Rightarrow> nat \<Rightarrow> tr_event list" where
  "path_events path time junk pkt i = junk i @ [Icmp (pkt i) (path ! (i div 3)) (time i)]"

definition good_path :: "nat \<Rightarrow> nat list \<Rightarrow> (nat \<Rightarrow> tr_event list) \<Rightarrow> (nat \<Rightarrow> nat list) \<Rightarrow> bool" where
  "good_path sport path junk pkt \<longleftrightarrow>
     (\<forall>i < 3 * length path. list_all (irrelevant sport (dest_port (i + 1))) (junk i) \<and>
        answers sport (dest_port (i + 1)) (i div 3 + 1 = length path) (pkt i))"

lemma one_probe_on_path:
  assumes "on_path path clock time i s" and "good_path sport path junk pkt" and "i < 3 * length path"
  shows "\<exists>s' r. one_probe False sport clock (i div 3 + 1) (path_events path time junk pkt i @ evs) s = (r, s', evs) \<and> returned r \<and>
    (if (i + 1) mod 3 = 0 then on_path path clock time (i + 1) (s'\<lparr>salast := None\<rparr>) else on_path path clock time (i + 1) s')"
proof -
  have g: "list_all (irrelevant sport (dest_port (i + 1))) (junk i)" "answers sport (dest_port (i + 1)) (i div 3 + 1 = length path) (pkt i)"
    using assms(2,3) by (simp_all add: good_path_def)
  from one_probe_path [OF assms(1) g assms(3), of evs] obtain s' c where
    s': "one_probe False sport clock (i div 3 + 1) (junk i @ Icmp (pkt i) (path ! (i div 3)) (time i) # evs) s =
        (Answer c (path ! (i div 3)) (time i), s', evs)"
      "tseq s' = i + 1" "probes_sent s' = map probe_of [0..<i + 1]" "hop_lines s' = map (path_line path clock time) [0..<i + 1]"
      "salast s' = Some (path ! (i div 3))" "tdone s' = i + 1 - 3 * (length path - 1)" by blast
  have same: "(i + 1) div 3 = i div 3" if "(i + 1) mod 3 \<noteq> 0" using that by (simp add: div_Suc mod_Suc split: if_splits)
  show ?thesis
    using s' same by (intro exI [of _ s'] exI [of _ "Answer c (path ! (i div 3)) (time i)"]) (auto simp: path_events_def returned_def on_path_def)
qed

lemma hop_on_path:
  assumes "on_path path clock time (3 * t) (s\<lparr>salast := None\<rparr>)" and "good_path sport path junk pkt" and "t < length path"
  shows "\<exists>s'. probe_loop False sport clock (t + 1) 3 (concat (map (path_events path time junk pkt) [3 * t..<3 * (t + 1)]) @ evs) (s\<lparr>salast := None\<rparr>) =
      (Finished, s', evs) \<and> on_path path clock time (3 * (t + 1)) (s'\<lparr>salast := None\<rparr>)"
proof -
  let ?ev = "path_events path time junk pkt"
  have evs: "concat (map ?ev [3 * t..<3 * (t + 1)]) @ evs = ?ev (3 * t) @ ?ev (3 * t + 1) @ ?ev (3 * t + 2) @ evs"
    by (simp add: upt_rec)
  have d: "3 * t div 3 = t" "(3 * t + 1) div 3 = t" "(3 * t + 2) div 3 = t" "(3 * t + 1) mod 3 = 1" "(3 * t + 1 + 1) mod 3 = 2" "(3 * t + 2 + 1) mod 3 = 0"
    by presburger+
  have lt: "3 * t < 3 * length path" "3 * t + 1 < 3 * length path" "3 * t + 2 < 3 * length path" using assms(3) by simp_all
  from one_probe_on_path [OF assms(1,2) lt(1), of "?ev (3 * t + 1) @ ?ev (3 * t + 2) @ evs"] obtain s1 r1 where
    1: "one_probe False sport clock (t + 1) (?ev (3 * t) @ ?ev (3 * t + 1) @ ?ev (3 * t + 2) @ evs) (s\<lparr>salast := None\<rparr>) =
        (r1, s1, ?ev (3 * t + 1) @ ?ev (3 * t + 2) @ evs)" "returned r1" "on_path path clock time (3 * t + 1) s1"
    unfolding d by auto
  from one_probe_on_path [OF 1(3) assms(2) lt(2), of "?ev (3 * t + 2) @ evs"] obtain s2 r2 where
    2: "one_probe False sport clock (t + 1) (?ev (3 * t + 1) @ ?ev (3 * t + 2) @ evs) s1 = (r2, s2, ?ev (3 * t + 2) @ evs)" "returned r2"
      "on_path path clock time (3 * t + 2) s2"
    unfolding d by (auto simp: add.assoc)
  from one_probe_on_path [OF 2(3) assms(2) lt(3), of evs] obtain s3 r3 where
    3: "one_probe False sport clock (t + 1) (?ev (3 * t + 2) @ evs) s2 = (r3, s3, evs)" "returned r3"
      "on_path path clock time (3 * t + 2 + 1) (s3\<lparr>salast := None\<rparr>)"
    unfolding d by auto
  have "probe_loop False sport clock (t + 1) (Suc (Suc (Suc 0))) (?ev (3 * t) @ ?ev (3 * t + 1) @ ?ev (3 * t + 2) @ evs) (s\<lparr>salast := None\<rparr>) = (Finished, s3, evs)"
    using 1(1,2) 2(1,2) 3(1,2) by simp
  moreover have "3 * t + 2 + 1 = 3 * (t + 1)" by simp
  ultimately show ?thesis using 3(3) unfolding evs numeral_3_eq_3 by auto
qed

lemma hops_on_path:
  assumes "on_path path clock time (3 * t) (s\<lparr>salast := None\<rparr>)" and "good_path sport path junk pkt" and "t \<le> length path"
    and "length path \<le> t + n" and "path \<noteq> []"
  shows "\<exists>s'. hop_loop False sport clock 3 (t + 1) n (concat (map (path_events path time junk pkt) [3 * t..<3 * length path])) s = (Finished, s', []) \<and>
    on_path path clock time (3 * length path) (s'\<lparr>salast := None\<rparr>)"
  using assms
proof (induction n arbitrary: t s)
  case 0
  then have "t = length path" by simp
  with 0 show ?case by simp
next
  case (Suc n)
  show ?case
  proof (cases "t = length path")
    case True
    have "tdone s = 3" using Suc.prems(1,5) True by (cases path) (auto simp: on_path_def)
    with True Suc.prems(1) show ?thesis by auto
  next
    case False
    let ?ev = "path_events path time junk pkt"
    have t: "t < length path" using False Suc.prems(3) by simp
    have "[3 * t..<3 * length path] = [3 * t..<3 * (t + 1)] @ [3 * (t + 1)..<3 * length path]" using t by (intro upt_split) auto
    then have evs: "concat (map ?ev [3 * t..<3 * length path]) = concat (map ?ev [3 * t..<3 * (t + 1)]) @ concat (map ?ev [3 * (t + 1)..<3 * length path])"
      by (metis concat_append map_append)
    from hop_on_path [OF Suc.prems(1,2) t, of "concat (map ?ev [3 * (t + 1)..<3 * length path])"] obtain s1 where
      1: "probe_loop False sport clock (t + 1) 3 (concat (map ?ev [3 * t..<3 * length path])) (s\<lparr>salast := None\<rparr>) =
          (Finished, s1, concat (map ?ev [3 * (t + 1)..<3 * length path]))" "on_path path clock time (3 * (t + 1)) (s1\<lparr>salast := None\<rparr>)"
      unfolding evs by blast
    from Suc.IH [OF 1(2) Suc.prems(2)] t Suc.prems(4,5) obtain s' where
      2: "hop_loop False sport clock 3 (t + 1 + 1) n (concat (map ?ev [3 * (t + 1)..<3 * length path])) s1 = (Finished, s', [])"
        "on_path path clock time (3 * length path) (s'\<lparr>salast := None\<rparr>)" by auto
    have "tdone s = 0" using Suc.prems(1) t by (simp add: on_path_def)
    then have "hop_loop False sport clock 3 (t + 1) (Suc n) (concat (map ?ev [3 * t..<3 * length path])) s = (Finished, s', [])"
      using 1(1) 2(1) by (simp add: returned_def)
    with 2(2) show ?thesis by blast
  qed
qed

section \<open>Properties\<close>


text \<open>Two hosts.\<close>

definition answer_packet :: "nat \<Rightarrow> nat \<Rightarrow> nat \<Rightarrow> nat \<Rightarrow> nat list" where
  "answer_packet ty code sport dport =
     (0x45 # replicate 19 0) @ [ty, code, 0, 0, 0, 0, 0, 0] @ (0x45 # replicate 8 0 @ [17] @ replicate 10 0) @ put_be16 sport @ put_be16 dport"

lemma answer_packet_answers:
  assumes "sport < 65536" "dport < 65536"
  shows "answers sport dport at_end (if at_end then answer_packet 3 3 sport dport else answer_packet 11 0 sport dport)"
proof -
  have "answers sport dport at_end (answer_packet ty code sport dport)"
    if "if at_end then ty = 3 \<and> code = 3 else ty = 11 \<and> code = 0" for ty code
    unfolding answers_def answer_packet_def
    by (rule exI [of _ "0x45 # replicate 19 0"], rule exI [of _ "[ty, code, 0, 0, 0, 0, 0, 0]"],
        rule exI [of _ "0x45 # replicate 8 0 @ [17] @ replicate 10 0"], rule exI [of _ "put_be16 sport @ put_be16 dport"])
      (use assms that in \<open>auto simp: icmp_quote_def be16_append nth_append\<close>)
  from this [of 3 3] this [of 11 0] show ?thesis by (cases at_end) simp_all
qed




text \<open>\<^verbatim>\<open>recv_v6\<close> returns a value that was never set when a packet arrives about someone else's datagram whose time was exceeded.\<close>

theorem recv_v6_undefined:
  assumes "52 \<le> length pkt" "length pkt \<le> BUFSIZE" "pkt ! 0 = 3" "pkt ! 1 = 0" and "\<not> quoted sport dport pkt 14 48"
  shows "\<exists>buf'. recv_v6 sport dport buf (Icmp pkt src tv # evs) = (Undef, buf', evs)"
proof -
  let ?b = "pkt @ drop (length pkt) buf"
  have "drop 48 ?b = drop 48 pkt @ drop (length pkt) buf" "drop 50 ?b = drop 50 pkt @ drop (length pkt) buf" using assms(1) by simp_all
  moreover have "?b ! 14 = pkt ! 14" "?b ! 0 = pkt ! 0" "?b ! 1 = pkt ! 1" using assms(1) by (simp_all add: nth_append) (cases pkt; simp)
  ultimately have "\<not> quoted sport dport ?b 14 48" "?b ! 0 = 3" "?b ! 1 = 0"
    using assms be16_append [of "drop 48 pkt"] be16_append [of "drop 50 pkt"] by (simp_all add: quoted_def)
  moreover have "overwrite pkt buf = ?b" "min BUFSIZE (length pkt) = length pkt" using assms(2) by (simp_all add: overwrite_def)
  ultimately show ?thesis using assms(1) by (simp add: recv_v6_def verdict_v6_def)
qed

theorem recv_v6_undefined_witness:
  "\<exists>buf'. recv_v6 40000 33435 [] [Icmp (3 # replicate 51 0) 1 \<lparr>tv_sec = 1, tv_usec = 0\<rparr>] = (Undef, buf', [])"
  by (rule recv_v6_undefined) (simp_all add: quoted_def)

text \<open>When the alarm comes before \<^verbatim>\<open>recvfrom\<close> is called, the program waits without limit: it goes on only when another packet or signal arrives.\<close>

lemma recv_early_alarm: "recv_v4 sport dport buf [Alarm_early] = (Blocked, buf, [])"
  by (simp add: recv_v4_def)

end
