(* ===== verification/Getaddrinfo_Type.thy ===== *)
theory Getaddrinfo_Type
  imports Getaddrinfo
begin

text \<open>
  What type of value \<^verbatim>\<open>getaddrinfo\<close> of \<^verbatim>\<open>unpv13e/libgai\<close> returns. C casts the address of every structure to the family
  its \<^verbatim>\<open>ai_family\<close> names and copies \<^verbatim>\<open>ai_addrlen\<close> octets of it. That is sound because the family, the length and the kind of
  the address always belong together: \<open>ai_typed\<close>. Every function that builds or changes the list keeps it, whatever memory runs
  out and whatever the services are.
\<close>

section \<open>Addresses\<close>

definition addr_typed :: "int \<Rightarrow> nat list \<Rightarrow> bool" where
  "addr_typed fam a \<longleftrightarrow> list_all (\<lambda>b. b < 256) a \<and> (fam = AF_INET \<and> length a = 4 \<or> fam = AF_INET6 \<and> length a = 16)"

definition path_typed :: "nat list \<Rightarrow> bool" where
  "path_typed path \<longleftrightarrow> length path < 108 \<and> list_all (\<lambda>b. b < 256) path"

definition ai_typed :: "addrinfo \<Rightarrow> bool" where
  "ai_typed ai \<longleftrightarrow>
     (case ai_addr ai of
        Some (Sin p a) \<Rightarrow> ai_family ai = AF_INET \<and> ai_addrlen ai = 16 \<and> addr_typed AF_INET a
      | Some (Sin6 p a) \<Rightarrow> ai_family ai = AF_INET6 \<and> ai_addrlen ai = 28 \<and> addr_typed AF_INET6 a
      | Some (Sun path) \<Rightarrow> ai_family ai = AF_LOCAL \<and> ai_addrlen ai = 110 \<and> path_typed path
      | None \<Rightarrow> False)"

text \<open>What the resolver promises: addresses of the family it names.\<close>

definition resolver_typed :: "resolver \<Rightarrow> bool" where
  "resolver_typed res \<longleftrightarrow> length (stack_junk res) = 4 \<and>
     (\<forall>v6 name h. gethostbyname res v6 name = Inr h \<longrightarrow> list_all (addr_typed (h_addrtype h)) (h_addr_list h)) \<and>
     (\<forall>name fam h. gethostbyname2 res name fam = Inr h \<longrightarrow> list_all (addr_typed (h_addrtype h)) (h_addr_list h))"

section \<open>Addresses read from text\<close>

lemma quad_typed: "quad n src = Some vs \<Longrightarrow> length vs = n \<and> list_all (\<lambda>b. b < 256) vs"
  by (induction n src arbitrary: vs rule: quad.induct) (auto simp: Let_def split: if_splits list.splits)

lemma inet_pton4_typed: "length junk = 4 \<Longrightarrow> inet_pton4 junk src = Some a \<Longrightarrow> addr_typed AF_INET a"
  using quad_typed [of 4 src a] by (simp add: inet_pton4_quad addr_typed_def)

definition octs :: "nat list \<Rightarrow> bool" where
  "octs tmp \<longleftrightarrow> length tmp = 16 \<and> list_all (\<lambda>b. b < 256) tmp"

lemma octs_update: "octs tmp \<Longrightarrow> x < 256 \<Longrightarrow> octs (tmp[i := x])"
  using set_update_subset_insert [of tmp i x] by (auto simp: octs_def list_all_iff)

lemma pton6_loop_typed:
  assumes "length junk = 4" and "inet_pton6_loop junk src ct tp tmp cp val saw = Some (tp', tmp', cp', val', saw')"
    and "octs tmp" "tp \<le> 16" "\<forall>c. cp = Some c \<longrightarrow> c \<le> tp"
  shows "octs tmp' \<and> tp' \<le> 16 \<and> (\<forall>c. cp' = Some c \<longrightarrow> c \<le> tp')"
  using assms
proof (induction junk src ct tp tmp cp val saw rule: inet_pton6_loop.induct)
  case (2 junk ch src ct tp tmp cp val saw)
  show ?case
  proof (cases "xdigit_of ch")
    case (Some d)
    with "2.IH"(3) [OF Some refl] "2.prems" show ?thesis by (auto simp: Let_def split: if_splits)
  next
    case None
    consider (colon) "ch = CHR '':''" | (dot) "ch = CHR ''.''" "tp + 4 \<le> 16" | (other) "ch \<noteq> CHR '':''" "\<not> (ch = CHR ''.'' \<and> tp + 4 \<le> 16)"
      by blast
    then show ?thesis
    proof cases
      case colon
      have up: "octs (tmp[tp := val div 256 mod 256, tp + 1 := val mod 256])" using "2.prems"(3) by (intro octs_update) auto
      show ?thesis
      proof (cases saw)
        case True
        with colon None "2.prems"(2) have fit: "\<not> tp + 2 > 16" by (auto split: if_splits)
        with True colon None "2.prems" have
          run: "inet_pton6_loop junk src src (tp + 2) (tmp[tp := val div 256 mod 256, tp + 1 := val mod 256]) cp 0 False =
            Some (tp', tmp', cp', val', saw')" by simp
        show ?thesis
          using "2.IH"(2) [OF None colon _ fit "2.prems"(1) run up] True fit "2.prems"(5) by fastforce
      next
        case False
        with colon None "2.prems"(2) have cp: "cp = None" by (auto split: if_splits)
        with False colon None "2.prems"(2) have run: "inet_pton6_loop junk src src tp tmp (Some tp) val saw = Some (tp', tmp', cp', val', saw')" by simp
        show ?thesis using "2.IH"(1) [OF None colon False _ "2.prems"(1) run "2.prems"(3,4)] cp by simp
      qed
    next
      case dot
      with None "2.prems"(2) obtain bs where bs: "inet_pton4 junk ct = Some bs" "tp' = tp + 4" "cp' = cp" "tmp' = take tp tmp @ bs @ drop (tp + 4) tmp"
        by (auto split: option.splits)
      have "length bs = 4" "list_all (\<lambda>b. b < 256) bs"
        using inet_pton4_typed [OF "2.prems"(1) bs(1)] by (auto simp: addr_typed_def)
      with bs dot "2.prems"(3,5) show ?thesis by (auto simp: octs_def list_all_iff dest: in_set_takeD in_set_dropD)
    qed (use None "2.prems"(2) in auto)
  qed
qed auto

lemma colon_shift_typed:
  "octs tmp \<Longrightarrow> c + n \<le> 16 \<Longrightarrow> 0 < i \<Longrightarrow> octs (colon_shift i n c tmp)"
proof (induction i n c tmp rule: colon_shift.induct)
  case (1 i n c tmp)
  show ?case
  proof (cases "i \<le> n")
    case True
    have "tmp ! (c + n - i) < 256" using 1(2-4) True by (auto simp: octs_def list_all_length)
    then have "octs (tmp[16 - i := tmp ! (c + n - i), c + n - i := 0])" using 1(2) by (intro octs_update) auto
    from "1.IH" [OF True refl this 1(3)] True show ?thesis by (subst colon_shift.simps) (simp add: Let_def)
  qed (subst colon_shift.simps, use 1 in simp)
qed

lemma inet_pton6_typed:
  assumes "length junk = 4" and "inet_pton6 junk src = Some a"
  shows "addr_typed AF_INET6 a"
proof -
  from assms(2) obtain s tp tmp cp val saw where
    loop: "inet_pton6_loop junk s s 0 (replicate 16 0) None 0 False = Some (tp, tmp, cp, val, saw)"
    and fin: "inet_pton6_finish (tp, tmp, cp, val, saw) = Some a"
    by (auto simp: inet_pton6_def Let_def split: option.splits)
  have st: "octs tmp" "tp \<le> 16" "\<And>c. cp = Some c \<Longrightarrow> c \<le> tp"
    using pton6_loop_typed [OF assms(1) loop] by (auto simp: octs_def list_all_iff)
  define tp1 tmp1 where "tp1 = (if saw then tp + 2 else tp)"
    and "tmp1 = (if saw then tmp[tp := val div 256 mod 256, tp + 1 := val mod 256] else tmp)"
  have "octs tmp1" unfolding tmp1_def using st(1) by (auto intro!: octs_update)
  moreover have "tp1 \<le> 16" "\<And>c. cp = Some c \<Longrightarrow> c + (tp1 - c) \<le> 16"
    using st fin by (force simp: tp1_def inet_pton6_finish_def split: if_splits)+
  moreover have "a = (case cp of None \<Rightarrow> tmp1 | Some c \<Rightarrow> colon_shift 1 (tp1 - c) c tmp1)"
    using fin by (auto simp: inet_pton6_finish_def tp1_def tmp1_def Let_def split: option.splits if_splits)
  ultimately have "octs a" using colon_shift_typed by (cases cp) simp_all
  then show ?thesis by (simp add: octs_def addr_typed_def)
qed

section \<open>Building the list\<close>

abbreviation ais_typed :: "addrinfo list \<Rightarrow> bool" where
  "ais_typed \<equiv> list_all ai_typed"

lemma ga_aistruct_typed:
  assumes "ga_aistruct hints addr fam ais g = (None, ais', g')" and "ais_typed ais"
    and "addr_typed fam addr \<or> fam = AF_LOCAL \<and> list_all (\<lambda>b. b < 256) addr"
  shows "ais_typed ais'"
  using assms
  by (auto simp: ga_aistruct_def new_ai_def Let_def ai_typed_def addr_typed_def path_typed_def split: option.splits if_splits)

lemma ga_aistructs_typed:
  assumes "ga_aistructs hints as fam ais g = (None, ais', g')" and "ais_typed ais" and "list_all (addr_typed fam) as"
  shows "ais_typed ais'"
  using assms
proof (induction as arbitrary: ais g)
  case (Cons a as)
  from Cons.prems(1) obtain ais1 g1 where one: "ga_aistruct hints a fam ais g = (None, ais1, g1)"
    and rest: "ga_aistructs hints as fam ais1 g1 = (None, ais', g')" by (auto split: prod.splits option.splits)
  from ga_aistruct_typed [OF one Cons.prems(2)] Cons.prems(3) Cons.IH [OF rest] show ?case by simp
qed simp

lemma set_port_typed: "ai_typed ai \<Longrightarrow> ai_typed (snd (set_port p t ai))"
  by (auto simp: ai_typed_def set_port_def Let_def split: option.splits sockaddr.splits)

lemma ga_clone_typed: "ga_clone ai g = (new, True, g') \<Longrightarrow> ai_typed ai \<Longrightarrow> ais_typed new \<and> length new = 1"
  by (auto simp: ga_clone_def Let_def ai_typed_def split: option.splits sockaddr.splits)

lemma ga_port_typed: "ais_typed ais \<Longrightarrow> ga_port ais p t g = (Some n, ais', g') \<Longrightarrow> ais_typed ais'"
proof (induction ais arbitrary: g n ais' g')
  case (Cons ai rest)
  have ty: "ai_typed ai" "ais_typed rest" using Cons.prems(1) by simp_all
  show ?case
  proof (cases "has_flag (ai_flags ai) AI_CLONE \<and> ai_socktype ai \<noteq> 0")
    case True
    obtain new b g1 where cl: "ga_clone ai g = (new, b, g1)" by (metis prod_cases3)
    with True Cons.prems(2) have b by (auto split: bool.splits)
    with cl True Cons.prems(2) obtain m rest' where
      rest: "ga_port rest p t g1 = (Some m, rest', g')" "ais' = ai # snd (set_port p t (hd new)) # rest'"
      by (auto simp: Let_def split: prod.splits)
    have "ai_typed (hd new)" using ga_clone_typed [of ai g new g1] cl \<open>b\<close> ty(1) by (cases new) auto
    then show ?thesis using Cons.IH [OF ty(2) rest(1)] rest(2) ty(1) by (simp add: set_port_typed)
  next
    case False
    obtain m rest' g1 where rest: "ga_port rest p t g = (m, rest', g1)" by (metis prod_cases3)
    with False Cons.prems(2) obtain k where m: "m = Some k" "ais' = ai # rest' \<or> ais' = snd (set_port p t ai) # rest'"
      by (auto simp: Let_def split: prod.splits if_splits)
    with Cons.IH [OF ty(2)] rest ty(1) show ?thesis by (auto simp: set_port_typed)
  qed
qed simp

lemma then_port_typed:
  assumes "then_port (m, ais, g) port t = (Some n, ais', g')"
  shows "m \<noteq> None \<and> (ais_typed ais \<longrightarrow> ais_typed ais')"
proof (cases m)
  case (Some k)
  show ?thesis
  proof (cases port)
    case (Some p)
    with assms \<open>m = Some k\<close> obtain i where "ga_port ais p t g = (Some i, ais', g')"
      by (auto simp: then_port_def split: prod.splits)
    with \<open>m = Some k\<close> ga_port_typed show ?thesis by blast
  qed (use assms \<open>m = Some k\<close> in \<open>simp add: then_port_def\<close>)
qed (use assms in simp)

lemma ga_serv_typed:
  assumes "ais_typed ais" and "ga_serv res ais hints serv g = (None, ais', g')"
  shows "ais_typed ais'"
proof -
  define t1 where "t1 = (if is_digit (hd serv) \<and> ai_socktype hints \<noteq> 0 then ai_socktype hints else SOCK_STREAM)"
  obtain n where "then_port (then_port (Some 0, ais, g) (first_port res (ai_socktype hints) serv) t1)
       (second_port res (ai_socktype hints) serv) SOCK_DGRAM = (Some n, ais', g')"
    using assms(2) by (auto simp: ga_serv_ports Let_def t1_def split: option.splits prod.splits)
  moreover obtain m ais1 g1 where one: "then_port (Some 0, ais, g) (first_port res (ai_socktype hints) serv) t1 = (m, ais1, g1)"
    by (metis prod_cases3)
  ultimately have "m \<noteq> None \<and> (ais_typed ais1 \<longrightarrow> ais_typed ais')" using then_port_typed by metis
  then show ?thesis using assms(1) then_port_typed one by (metis not_None_eq)
qed

section \<open>The search\<close>

definition step_typed :: "gai_step \<Rightarrow> bool" where
  "step_typed st = (case st of Next ais canon g \<Rightarrow> ais_typed ais | _ \<Rightarrow> True)"

lemma after_aistruct_typed:
  "ais_typed ais \<Longrightarrow> list_all (addr_typed fam) as \<Longrightarrow> step_typed (after_aistruct canon (ga_aistructs hints as fam ais g))"
  using ga_aistructs_typed [of hints as fam ais g]
  by (auto simp: step_typed_def after_aistruct_def split: prod.splits option.splits)

lemma gai_lookup_typed:
  assumes "resolver_typed res" and "ais_typed ais"
  shows "step_typed (gai_lookup res hostname hints n s ais canon g)"
proof -
  define q where "q = (if n = 2 then gethostbyname2 res (host s) (family s) else gethostbyname res (family s = AF_INET6) (host s))"
  have "list_all (addr_typed (h_addrtype h)) (h_addr_list h)" if "q = Inr h" for h
    using assms(1) that by (auto simp: resolver_typed_def q_def split: if_splits)
  then have "step_typed (after_aistruct c (ga_aistructs hints (h_addr_list h) (h_addrtype h) ais g1))" if "q = Inr h" for h c g1
    using after_aistruct_typed [OF assms(2)] that by blast
  moreover have "step_typed (Next ais c g1)" "step_typed (Bad e ais g1)" "step_typed Undef" for c e g1
    using assms(2) by (simp_all add: step_typed_def)
  ultimately show ?thesis
    by (auto simp: gai_lookup_def q_def [symmetric] split: sum.splits option.splits)
qed

lemma gai_search_typed:
  assumes "resolver_typed res" and "ais_typed ais"
  shows "step_typed (gai_search res hostname hints n s ais canon g)"
proof -
  have num: "step_typed (gai_numeric hints s fam addr ais canon g)" if "addr_typed fam addr" for fam addr
    using after_aistruct_typed [OF assms(2), of fam "[addr]"] that assms(2)
    by (auto simp: gai_numeric_def ga_aistruct_single step_typed_def simp del: ga_aistructs.simps)
  have "length (stack_junk res) = 4" using assms(1) by (simp add: resolver_typed_def)
  with inet_pton4_typed inet_pton6_typed num gai_lookup_typed [OF assms, of hostname hints n s canon g] show ?thesis
    by (auto simp: gai_search_def Let_def split: option.split)
qed

lemma gai_searches_typed:
  assumes "resolver_typed res" and "ais_typed ais"
  shows "step_typed (gai_searches res hostname hints n ss ais canon g)"
  using assms(2)
proof (induction ss arbitrary: ais canon g)
  case (Cons s ss)
  have "step_typed (gai_search res hostname hints n s ais canon g)" by (rule gai_search_typed [OF assms(1) Cons.prems])
  with Cons.IH show ?case
    by (cases "gai_search res hostname hints n s ais canon g") (simp_all add: step_typed_def [of "Next _ _ _"] step_typed_def [of "Bad _ _ _"] step_typed_def [of Undef])
qed (simp add: step_typed_def)

lemma ai_typed_name [simp]: "ai_typed (ai\<lparr>ai_canonname := c\<rparr>) = ai_typed ai"
  by (simp add: ai_typed_def split: option.splits sockaddr.splits)

lemma gai_canon_typed:
  "gai_canon hostname hints name canon ais g = (r, ais', g') \<Longrightarrow> ais_typed ais \<Longrightarrow> ais \<noteq> [] \<Longrightarrow> ais_typed ais'"
  by (cases ais) (auto simp: gai_canon_def ai_typed_name split: if_splits option.splits)

lemma gai_finish_typed:
  assumes "step_typed st" and "gai_finish res hostname servname hints name st = Found ais g"
  shows "ais_typed ais"
proof -
  from assms(2) obtain ais0 canon g0 ais1 g1 where st: "st = Next ais0 canon g0" "ais0 \<noteq> []"
    and canon: "gai_canon hostname hints name canon ais0 g0 = (None, ais1, g1)"
    and fin: "ais = ais1 \<or> ga_serv res ais1 hints (the servname) g1 = (None, ais, g)"
    by (auto simp: gai_finish_def split: gai_step.splits if_splits prod.splits option.splits)
  have "ais_typed ais1" using gai_canon_typed [OF canon] assms(1) st by (simp add: step_typed_def)
  with fin ga_serv_typed show ?thesis by blast
qed

lemma ga_unix_typed:
  assumes "ga_unix res path hints g = (Inr ais, g')"
  shows "ais_typed ais"
proof -
  let ?addr = "map of_char path :: nat list"
  have "(of_char c :: nat) < 256" for c using of_char_mod_256 [of c, where 'a = nat] mod_less_divisor [of 256 "of_char c :: nat"] by simp
  then have addr: "addr_typed AF_LOCAL ?addr \<or> AF_LOCAL = AF_LOCAL \<and> list_all (\<lambda>b. b < 256) ?addr" by (simp add: list_all_iff)
  note one = ga_aistruct_typed [OF _ _ addr]
  obtain ais1 g1 where made: "ais_typed ais1" and len: "ais1 \<noteq> []" and res: "ais = ais1 \<or> (\<exists>name. ais = (hd ais1)\<lparr>ai_canonname := Some name\<rparr> # tl ais1)"
  proof (cases "ai_socktype hints = 0")
    case True
    with assms obtain ais0 g0 ais1 g1 where
      a: "ga_aistruct (hints\<lparr>ai_socktype := SOCK_STREAM\<rparr>) ?addr AF_LOCAL [] g = (None, ais0, g0)"
        "ga_aistruct (hints\<lparr>ai_socktype := SOCK_DGRAM\<rparr>) ?addr AF_LOCAL ais0 g0 = (None, ais1, g1)"
        "ais = ais1 \<or> (\<exists>name. ais = (hd ais1)\<lparr>ai_canonname := Some name\<rparr> # tl ais1)"
      by (auto simp: ga_unix_def Let_def split: if_splits prod.splits option.splits)
    from a(2) have "ais1 \<noteq> []" by (auto simp: ga_aistruct_def Let_def split: option.splits if_splits)
    with one [OF a(2) one [OF a(1)]] a(3) that show ?thesis by simp
  next
    case False
    with assms obtain ais1 g1 where a: "ga_aistruct hints ?addr AF_LOCAL [] g = (None, ais1, g1)"
        "ais = ais1 \<or> (\<exists>name. ais = (hd ais1)\<lparr>ai_canonname := Some name\<rparr> # tl ais1)"
      by (auto simp: ga_unix_def Let_def split: if_splits prod.splits option.splits)
    from a(1) have "ais1 \<noteq> []" by (auto simp: ga_aistruct_def Let_def split: option.splits if_splits)
    with one [OF a(1)] a(2) that show ?thesis by simp
  qed
  then show ?thesis by (cases ais1) auto
qed

section \<open>Properties\<close>

text \<open>C27. Every structure in the list \<^verbatim>\<open>getaddrinfo\<close> returns is well typed: it has an address, of the kind its \<^verbatim>\<open>ai_family\<close> names, with the number
  of octets that kind has, and \<^verbatim>\<open>ai_addrlen\<close> is the size of the C structure for it. This holds for every host, service and hints, numeric or looked
  up, Internet or Unix domain, and wherever memory runs out.\<close>

theorem getaddrinfo_well_typed:
  assumes "resolver_typed res" and "getaddrinfo res hostname servname hintsp g = Found ais g'"
  shows "list_all ai_typed ais"
proof -
  define hints where "hints = (case hintsp of None \<Rightarrow> no_hints | Some h \<Rightarrow> h)"
  from assms(2) consider (local) path where "ga_unix res path hints g = (Inr ais, g')"
    | (net) search where "gai_finish res hostname servname hints (host (hd search))
         (gai_searches res hostname hints (length search) search [] None g) = Found ais g'"
    by (auto simp: getaddrinfo_def Let_def hints_def [symmetric] split: option.splits if_splits prod.splits sum.splits run.splits)
  then show ?thesis
  proof cases
    case local
    then show ?thesis by (rule ga_unix_typed)
  next
    case net
    show ?thesis by (rule gai_finish_typed [OF gai_searches_typed [OF assms(1)] net]) simp
  qed
qed

theorem getaddrinfo_well_typed_witness:
  "\<exists>ais g'. getaddrinfo bsdi (Some ''/local'') (Some ''/tmp/x'') None \<lparr>left = 9, live = 0, unlinked = []\<rparr> = Found ais g' \<and>
     length ais = 2 \<and> list_all ai_typed ais"
proof -
  have "resolver_typed bsdi" by (auto simp: resolver_typed_def bsdi_def addr_typed_def)
  moreover obtain ais g' where run: "getaddrinfo bsdi (Some ''/local'') (Some ''/tmp/x'') None \<lparr>left = 9, live = 0, unlinked = []\<rparr> = Found ais g'"
    and "length ais = 2"
    by (simp add: getaddrinfo_def ga_echeck_def absent_def no_hints_def ga_unix_def ga_aistruct_def calloc_def has_flag_def Let_def)
  ultimately show ?thesis using getaddrinfo_well_typed by blast
qed

end
