(* ===== verification/Broadcast.thy ===== *)
theory Broadcast
  imports CPrelude
begin

text \<open>
  The clients of \<^verbatim>\<open>unpv13e/bcast\<close> that send a line to a broadcast address and collect replies for five seconds, in the six versions of
  \<^verbatim>\<open>dg_cli\<close> that differ in how the alarm ends the collection: \<^verbatim>\<open>dgclibcast1.c\<close> and \<^verbatim>\<open>dgclibcast2.c\<close> (the alarm interrupts \<^verbatim>\<open>recvfrom\<close>),
  \<^verbatim>\<open>dgclibcast3.c\<close> (the alarm is blocked except around \<^verbatim>\<open>recvfrom\<close>), \<^verbatim>\<open>dgclibcast4.c\<close> (\<^verbatim>\<open>pselect\<close>), \<^verbatim>\<open>dgclibcast5.c\<close> (\<^verbatim>\<open>siglongjmp\<close>; also
  \<^verbatim>\<open>mcast/dgclimcast5.c\<close>) and \<^verbatim>\<open>dgclibcast6.c\<close> (a pipe from the handler).

  A version is a function that executes the program up to the next point where a signal makes a difference (\<open>None\<close> when it waits), and
  a function for the delivery of the alarm. The process, the alarm and the network are interleaved by \<open>bstep\<close>. \<open>arrived\<close> records all
  datagrams that came in, \<open>shown\<close> those printed.
\<close>

section \<open>State\<close>

type_synonym dgram = "nat \<times> char list"

datatype bpc =
    Line | Top | Open | Call | Recv | Back0 dgram | Back dgram | Sleep dgram | Test1 | Test2 | Finished | Exited | Undefined

record bc =
  bpc :: bpc
  input :: "char list list"
  sent :: "char list list"
  queue :: "dgram list"
  shown :: "dgram list"
  arrived :: "dgram list"
  armed :: bool
  masked :: bool
  pending :: bool
  jmp_set :: bool
  pipe :: nat
  sel :: "bool \<times> bool"

definition bc_init :: "char list list \<Rightarrow> bc" where
  "bc_init ls = \<lparr>bpc = Line, input = ls, sent = [], queue = [], shown = [], arrived = [], armed = False, masked = False, pending = False,
     jmp_set = False, pipe = 0, sel = (False, False)\<rparr>"

text \<open>Reading a line, sending it and starting the alarm, which all versions share; the fourth one blocks the alarm first.\<close>

definition next_line :: "bool \<Rightarrow> bc \<Rightarrow> bc" where
  "next_line block s =
     (case input s of
        [] \<Rightarrow> s\<lparr>bpc := Finished\<rparr>
      | l # ls \<Rightarrow> s\<lparr>input := ls, sent := sent s @ [l], armed := True, masked := masked s \<or> block, bpc := Top\<rparr>)"

definition recvfrom_call :: "(dgram \<Rightarrow> bpc) \<Rightarrow> bc \<Rightarrow> bc option" where
  "recvfrom_call next s = (case queue s of [] \<Rightarrow> None | d # q \<Rightarrow> Some (s\<lparr>queue := q, bpc := next d\<rparr>))"

definition print_reply :: "dgram \<Rightarrow> bpc \<Rightarrow> bc \<Rightarrow> bc" where
  "print_reply d next s = s\<lparr>shown := shown s @ [d], bpc := next\<rparr>"

section \<open>Interrupting \<^verbatim>\<open>recvfrom\<close>\<close>

definition bcast1 :: "bool \<Rightarrow> bc \<Rightarrow> bc option" where
  "bcast1 c s =
     (case bpc s of
        Line \<Rightarrow> Some (next_line False s)
      | Top \<Rightarrow> Some (s\<lparr>bpc := Call\<rparr>)
      | Call \<Rightarrow> recvfrom_call Back s
      | Back d \<Rightarrow> Some (print_reply d Top s)
      | _ \<Rightarrow> None)"

definition bcast2 :: "bool \<Rightarrow> bc \<Rightarrow> bc option" where
  "bcast2 c s =
     (case bpc s of
        Line \<Rightarrow> Some (next_line False s)
      | Top \<Rightarrow> Some (s\<lparr>bpc := Call\<rparr>)
      | Call \<Rightarrow> recvfrom_call Sleep s
      | Sleep d \<Rightarrow> Some (s\<lparr>bpc := Back d\<rparr>)
      | Back d \<Rightarrow> Some (print_reply d Top s)
      | _ \<Rightarrow> None)"

definition waiting :: "bc \<Rightarrow> bool" where
  "waiting s \<longleftrightarrow> bpc s = Call \<and> queue s = []"

definition alarm1 :: "bc \<Rightarrow> bc" where
  "alarm1 s = (if waiting s then s\<lparr>bpc := Line\<rparr> else s)"

section \<open>Blocking the alarm around \<^verbatim>\<open>recvfrom\<close>\<close>

definition bcast3 :: "bool \<Rightarrow> bc \<Rightarrow> bc option" where
  "bcast3 c s =
     (case bpc s of
        Line \<Rightarrow> Some (next_line False s)
      | Top \<Rightarrow> Some (s\<lparr>masked := False, pending := False, bpc := Open\<rparr>)
      | Open \<Rightarrow> Some (s\<lparr>bpc := Call\<rparr>)
      | Call \<Rightarrow> recvfrom_call Back0 s
      | Back0 d \<Rightarrow> Some (s\<lparr>masked := True, bpc := Back d\<rparr>)
      | Back d \<Rightarrow> Some (print_reply d Top s)
      | _ \<Rightarrow> None)"

definition alarm3 :: "bc \<Rightarrow> bc" where
  "alarm3 s = (if masked s then s\<lparr>pending := True\<rparr> else if waiting s then s\<lparr>masked := True, bpc := Line\<rparr> else s)"

section \<open>\<^verbatim>\<open>pselect\<close>\<close>

text \<open>With both a datagram and the alarm pending, the kernel may return either (\<open>c\<close>).\<close>

definition bcast4 :: "bool \<Rightarrow> bc \<Rightarrow> bc option" where
  "bcast4 c s =
     (case bpc s of
        Line \<Rightarrow> Some (next_line True s)
      | Top \<Rightarrow> Some (s\<lparr>bpc := Call\<rparr>)
      | Call \<Rightarrow>
          if pending s \<and> (c \<or> queue s = []) then Some (s\<lparr>pending := False, bpc := Line\<rparr>)
          else if queue s = [] then None
          else Some (s\<lparr>bpc := Recv\<rparr>)
      | Recv \<Rightarrow> recvfrom_call Back s
      | Back d \<Rightarrow> Some (print_reply d Top s)
      | _ \<Rightarrow> None)"

definition alarm4 :: "bc \<Rightarrow> bc" where
  "alarm4 s = (if waiting s then s\<lparr>bpc := Line\<rparr> else s\<lparr>pending := True\<rparr>)"

section \<open>\<^verbatim>\<open>siglongjmp\<close>\<close>

definition bcast5 :: "bool \<Rightarrow> bc \<Rightarrow> bc option" where
  "bcast5 c s =
     (case bpc s of
        Line \<Rightarrow> Some (next_line False s)
      | Top \<Rightarrow> Some (s\<lparr>jmp_set := True, bpc := Call\<rparr>)
      | Call \<Rightarrow> recvfrom_call Back s
      | Back d \<Rightarrow> Some (print_reply d Top s)
      | _ \<Rightarrow> None)"

text \<open>A jump to a buffer that was never set is undefined.\<close>

definition alarm5 :: "bc \<Rightarrow> bc" where
  "alarm5 s = s\<lparr>bpc := (if jmp_set s then Line else Undefined)\<rparr>"

section \<open>A pipe\<close>

definition bcast6 :: "bool \<Rightarrow> bc \<Rightarrow> bc option" where
  "bcast6 c s =
     (case bpc s of
        Line \<Rightarrow> Some (next_line False s)
      | Top \<Rightarrow> Some (s\<lparr>bpc := Call\<rparr>)
      | Call \<Rightarrow>
          if queue s = [] \<and> pipe s = 0 then None
          else Some (s\<lparr>sel := (queue s \<noteq> [], 0 < pipe s), bpc := Test1\<rparr>)
      | Test1 \<Rightarrow> if fst (sel s) then recvfrom_call Back s else Some (s\<lparr>bpc := Test2\<rparr>)
      | Back d \<Rightarrow> Some (print_reply d Test2 s)
      | Test2 \<Rightarrow> if snd (sel s) then Some (s\<lparr>pipe := pipe s - 1, bpc := Line\<rparr>) else Some (s\<lparr>bpc := Top\<rparr>)
      | _ \<Rightarrow> None)"

definition alarm6 :: "bc \<Rightarrow> bc" where
  "alarm6 s = (if waiting s \<and> pipe s = 0 then s\<lparr>pipe := 1, bpc := Top\<rparr> else s\<lparr>pipe := pipe s + 1\<rparr>)"

section \<open>The multicast clients\<close>

text \<open>\<^verbatim>\<open>mcast\<close> has copies of the first version and of the one with \<^verbatim>\<open>siglongjmp\<close>, which need no broadcast option.\<close>

definition mcast1 :: "bool \<Rightarrow> bc \<Rightarrow> bc option" where
  "mcast1 = bcast1"

definition mcast5 :: "bool \<Rightarrow> bc \<Rightarrow> bc option" where
  "mcast5 = bcast5"

definition mcast6 :: "bool \<Rightarrow> bc \<Rightarrow> bc option" where
  "mcast6 = bcast5"

section \<open>The process, the alarm and the network\<close>

inductive bstep :: "(bool \<Rightarrow> bc \<Rightarrow> bc option) \<Rightarrow> (bc \<Rightarrow> bc) \<Rightarrow> bc \<Rightarrow> bc \<Rightarrow> bool" for run :: "bool \<Rightarrow> bc \<Rightarrow> bc option" and alrm :: "bc \<Rightarrow> bc" where
  brun: "run c s = Some s' \<Longrightarrow> bstep run alrm s s'"
| balarm: "armed s \<Longrightarrow> bstep run alrm s (alrm (s\<lparr>armed := False\<rparr>))"
| barrive: "bstep run alrm s (s\<lparr>queue := queue s @ [d], arrived := arrived s @ [d]\<rparr>)"
| bfail: "bpc s \<in> {Call, Recv, Test1} \<Longrightarrow> bstep run alrm s (s\<lparr>bpc := Exited\<rparr>)"

inductive breach :: "(bool \<Rightarrow> bc \<Rightarrow> bc option) \<Rightarrow> (bc \<Rightarrow> bc) \<Rightarrow> char list list \<Rightarrow> bc \<Rightarrow> bool"
  for run :: "bool \<Rightarrow> bc \<Rightarrow> bc option" and alrm :: "bc \<Rightarrow> bc" and ls :: "char list list" where
  bstart: "breach run alrm ls (bc_init ls)"
| bmore: "breach run alrm ls s \<Longrightarrow> bstep run alrm s s' \<Longrightarrow> breach run alrm ls s'"

section \<open>No reply is lost\<close>

fun in_hand :: "bpc \<Rightarrow> dgram list" where
  "in_hand (Back0 d) = [d]"
| "in_hand (Back d) = [d]"
| "in_hand (Sleep d) = [d]"
| "in_hand _ = []"

definition replies :: "bc \<Rightarrow> dgram list" where
  "replies s = shown s @ in_hand (bpc s) @ queue s"

definition lines_of :: "bc \<Rightarrow> char list list" where
  "lines_of s = sent s @ input s"

text \<open>
  What a version has to do to be a collector of replies: neither the program nor the alarm loses, repeats or reorders replies or
  lines, and both leave what arrived alone.
\<close>

locale collector =
  fixes run :: "bool \<Rightarrow> bc \<Rightarrow> bc option" and alrm :: "bc \<Rightarrow> bc"
  assumes run_keeps: "run c s = Some s' \<Longrightarrow> replies s' = replies s \<and> lines_of s' = lines_of s \<and> arrived s' = arrived s"
    and alarm_keeps: "replies (alrm s) = replies s \<and> lines_of (alrm s) = lines_of s \<and> arrived (alrm s) = arrived s"
begin

lemma step_keeps:
  assumes "bstep run alrm s s'" and "replies s = arrived s \<and> lines_of s = ls"
  shows "replies s' = arrived s' \<and> lines_of s' = ls"
  using assms
proof (induction rule: bstep.induct)
  case (brun c s s')
  then show ?case using run_keeps by simp
next
  case (balarm s)
  have "replies (s\<lparr>armed := False\<rparr>) = replies s" "lines_of (s\<lparr>armed := False\<rparr>) = lines_of s" by (simp_all add: replies_def lines_of_def)
  then show ?case using alarm_keeps [of "s\<lparr>armed := False\<rparr>"] balarm by simp
next
  case (barrive s d)
  then show ?case by (auto simp: replies_def lines_of_def)
next
  case (bfail s)
  then show ?case by (auto simp: replies_def lines_of_def)
qed

lemma reach_keeps: "breach run alrm ls s \<Longrightarrow> replies s = arrived s \<and> lines_of s = ls"
proof (induction rule: breach.induct)
  case bstart
  then show ?case by (simp add: bc_init_def replies_def lines_of_def)
next
  case (bmore s s')
  from step_keeps [OF bmore.hyps(2) bmore.IH] show ?case .
qed

end

lemmas version_simps = next_line_def recvfrom_call_def print_reply_def replies_def lines_of_def waiting_def

interpretation bcast1: collector bcast1 alarm1
  by unfold_locales (auto simp: bcast1_def alarm1_def version_simps split: bpc.splits list.splits)

interpretation bcast2: collector bcast2 alarm1
  by unfold_locales (auto simp: bcast2_def alarm1_def version_simps split: bpc.splits list.splits)

interpretation bcast3: collector bcast3 alarm3
  by unfold_locales (auto simp: bcast3_def alarm3_def version_simps split: bpc.splits list.splits)

interpretation bcast4: collector bcast4 alarm4
  by unfold_locales (auto simp: bcast4_def alarm4_def version_simps split: bpc.splits list.splits if_splits)

interpretation bcast6: collector bcast6 alarm6
  by unfold_locales (auto simp: bcast6_def alarm6_def version_simps split: bpc.splits list.splits if_splits)

section \<open>The alarm ends the collection\<close>

definition collecting :: "bc \<Rightarrow> bool" where
  "collecting s \<longleftrightarrow> bpc s \<notin> {Line, Finished, Exited, Undefined}"

text \<open>The program alone, with no alarm and no more datagrams.\<close>

fun runs :: "(bool \<Rightarrow> bc \<Rightarrow> bc option) \<Rightarrow> bool list \<Rightarrow> bc \<Rightarrow> bc option" where
  "runs run [] s = Some s"
| "runs run (c # cs) s = (case run c s of None \<Rightarrow> None | Some s' \<Rightarrow> runs run cs s')"

text \<open>
  A version in which the alarm ends the collection whenever it comes: there is an invariant under which the program, once the alarm has gone off,
  never waits and comes nearer to the next line with every step.
\<close>

locale ending_collector = collector +
  fixes inv :: "bc \<Rightarrow> bool" and work :: "bc \<Rightarrow> nat"
  assumes inv_start: "inv (bc_init ls)"
    and inv_run: "inv s \<Longrightarrow> run c s = Some s' \<Longrightarrow> inv s'"
    and inv_alarm: "inv s \<Longrightarrow> armed s \<Longrightarrow> inv (alrm (s\<lparr>armed := False\<rparr>))"
    and inv_arrive: "inv s \<Longrightarrow> inv (s\<lparr>queue := queue s @ [d], arrived := arrived s @ [d]\<rparr>)"
    and inv_fail: "inv s \<Longrightarrow> bpc s \<in> {Call, Recv, Test1} \<Longrightarrow> inv (s\<lparr>bpc := Exited\<rparr>)"
    and nearer: "inv s \<Longrightarrow> collecting s \<Longrightarrow> \<not> armed s \<Longrightarrow>
      \<exists>s'. run c s = Some s' \<and> (bpc s' = Line \<or> collecting s' \<and> \<not> armed s' \<and> work s' < work s)"
begin

lemma reach_inv: "breach run alrm ls s \<Longrightarrow> inv s"
proof (induction rule: breach.induct)
  case (bmore s s')
  from bmore.hyps(2) bmore.IH show ?case
    by (cases rule: bstep.cases) (auto intro: inv_run inv_alarm inv_arrive inv_fail)
qed (rule inv_start)

lemma reaches_line:
  "inv s \<Longrightarrow> collecting s \<Longrightarrow> \<not> armed s \<Longrightarrow> work s < length cs \<Longrightarrow>
     \<exists>n s'. n \<le> work s + 1 \<and> runs run (take n cs) s = Some s' \<and> bpc s' = Line"
proof (induction cs arbitrary: s)
  case (Cons c cs)
  from nearer [OF Cons.prems(1-3), of c] obtain t where
    t: "run c s = Some t" "bpc t = Line \<or> collecting t \<and> \<not> armed t \<and> work t < work s" by blast
  show ?case
  proof (cases "bpc t = Line")
    case True
    with t(1) show ?thesis by (intro exI [of _ 1] exI [of _ t]) simp
  next
    case False
    with t(2) have t2: "collecting t" "\<not> armed t" "work t < work s" by auto
    with Cons.IH [OF inv_run [OF Cons.prems(1) t(1)]] Cons.prems(4) obtain n s' where
      "n \<le> work t + 1" "runs run (take n cs) t = Some s'" "bpc s' = Line" by auto
    with t(1) t2(3) show ?thesis by (intro exI [of _ "Suc n"] exI [of _ s']) simp
  qed
qed simp

end

definition inv4 :: "bc \<Rightarrow> bool" where
  "inv4 s \<longleftrightarrow> (collecting s \<longrightarrow> armed s = (\<not> pending s)) \<and> (bpc s = Line \<longrightarrow> \<not> armed s \<and> \<not> pending s) \<and>
     bpc s \<in> {Line, Top, Call, Recv, Finished, Exited} \<union> range Back \<and> (bpc s = Recv \<longrightarrow> queue s \<noteq> [])"

definition work4 :: "bc \<Rightarrow> nat" where
  "work4 s = 5 * length (queue s) + (case bpc s of Top \<Rightarrow> 2 | Call \<Rightarrow> 1 | Back d \<Rightarrow> 3 | _ \<Rightarrow> 0)"

definition inv6 :: "bc \<Rightarrow> bool" where
  "inv6 s \<longleftrightarrow>
     (case bpc s of
        Line \<Rightarrow> \<not> armed s \<and> pipe s = 0
      | Top \<Rightarrow> pipe s = (if armed s then 0 else 1)
      | Call \<Rightarrow> pipe s = (if armed s then 0 else 1)
      | Test1 \<Rightarrow> pipe s = (if armed s then 0 else 1) \<and> (fst (sel s) \<longrightarrow> queue s \<noteq> []) \<and> (snd (sel s) \<longrightarrow> \<not> armed s)
      | Back d \<Rightarrow> pipe s = (if armed s then 0 else 1) \<and> (snd (sel s) \<longrightarrow> \<not> armed s)
      | Test2 \<Rightarrow> pipe s = (if armed s then 0 else 1) \<and> (snd (sel s) \<longrightarrow> \<not> armed s)
      | Finished \<Rightarrow> True
      | Exited \<Rightarrow> True
      | _ \<Rightarrow> False)"

definition work6 :: "bc \<Rightarrow> nat" where
  "work6 s = (if snd (sel s) \<or> bpc s \<in> {Top, Call} then 0 else 6) +
     (case bpc s of Top \<Rightarrow> 6 | Call \<Rightarrow> 5 | Test1 \<Rightarrow> 4 | Back d \<Rightarrow> 3 | Test2 \<Rightarrow> 1 | _ \<Rightarrow> 0)"

interpretation pselect: ending_collector bcast4 alarm4 inv4 work4
proof unfold_locales
  show "inv4 (bc_init ls)" for ls by (simp add: inv4_def bc_init_def collecting_def)
  show "inv4 s'" if "inv4 s" "bcast4 c s = Some s'" for s c s'
    using that by (auto simp: bcast4_def inv4_def collecting_def next_line_def recvfrom_call_def print_reply_def split: bpc.splits list.splits if_splits)
  show "inv4 (alarm4 (s\<lparr>armed := False\<rparr>))" if "inv4 s" "armed s" for s
    using that by (auto simp: alarm4_def inv4_def collecting_def waiting_def)
  show "inv4 (s\<lparr>queue := queue s @ [d], arrived := arrived s @ [d]\<rparr>)" if "inv4 s" for s d
    using that by (simp add: inv4_def collecting_def)
  show "inv4 (s\<lparr>bpc := Exited\<rparr>)" if "inv4 s" "bpc s \<in> {Call, Recv, Test1}" for s
    using that by (simp add: inv4_def collecting_def)
  show "\<exists>s'. bcast4 c s = Some s' \<and> (bpc s' = Line \<or> collecting s' \<and> \<not> armed s' \<and> work4 s' < work4 s)"
    if "inv4 s" "collecting s" "\<not> armed s" for s c
    using that by (cases "queue s") (auto simp: bcast4_def inv4_def collecting_def work4_def recvfrom_call_def print_reply_def)
qed

lemma inv6_run: "inv6 s \<Longrightarrow> bcast6 c s = Some s' \<Longrightarrow> inv6 s'"
  by (cases "bpc s") (simp_all add: bcast6_def inv6_def next_line_def recvfrom_call_def print_reply_def split: list.splits if_splits, auto)

lemma inv6_alarm: "inv6 s \<Longrightarrow> armed s \<Longrightarrow> inv6 (alarm6 (s\<lparr>armed := False\<rparr>))"
  by (cases "bpc s") (simp_all add: alarm6_def inv6_def waiting_def)

lemma inv6_nearer:
  "inv6 s \<Longrightarrow> collecting s \<Longrightarrow> \<not> armed s \<Longrightarrow>
     \<exists>s'. bcast6 c s = Some s' \<and> (bpc s' = Line \<or> collecting s' \<and> \<not> armed s' \<and> work6 s' < work6 s)"
  by (cases "bpc s"; cases "queue s") (simp_all add: bcast6_def inv6_def collecting_def work6_def recvfrom_call_def print_reply_def)

interpretation self_pipe: ending_collector bcast6 alarm6 inv6 work6
proof unfold_locales
  show "inv6 (bc_init ls)" for ls by (simp add: inv6_def bc_init_def)
  show "inv6 (s\<lparr>queue := queue s @ [d], arrived := arrived s @ [d]\<rparr>)" if "inv6 s" for s d
    using that by (auto simp: inv6_def split: bpc.splits)
  show "inv6 (s\<lparr>bpc := Exited\<rparr>)" if "inv6 s" "bpc s \<in> {Call, Recv, Test1}" for s by (simp add: inv6_def)
qed (rule inv6_run inv6_alarm inv6_nearer; assumption)+

section \<open>Properties\<close>

text \<open>C28. In the versions with \<^verbatim>\<open>pselect\<close> and with the pipe the alarm ends the collection at whatever moment it comes: in every state they get into in which
  the alarm of the current line has gone off, the program reaches the next line by its own steps, at most \<open>5 * n + 4\<close> with \<open>n\<close> datagrams queued and at most
  13, whatever the kernel prefers.\<close>

theorem bcast_alarm_ends:
  assumes "breach run alrm ls s" and "(run, alrm) = (bcast4, alarm4) \<or> (run, alrm) = (bcast6, alarm6)"
    and "collecting s" and "\<not> armed s" and "length cs = 5 * length (queue s) + 13"
  shows "\<exists>n s'. n \<le> length cs \<and> runs run (take n cs) s = Some s' \<and> bpc s' = Line"
  using assms(2)
proof
  assume v: "(run, alrm) = (bcast4, alarm4)"
  have "work4 s \<le> 5 * length (queue s) + 3" by (simp add: work4_def split: bpc.splits)
  with pselect.reaches_line [OF pselect.reach_inv assms(3,4), of ls cs] v assms(1,5) obtain n s' where
    "n \<le> work4 s + 1" "runs run (take n cs) s = Some s'" "bpc s' = Line" by auto
  with \<open>work4 s \<le> _\<close> assms(5) show ?thesis by (intro exI [of _ n] exI [of _ s']) simp
next
  assume v: "(run, alrm) = (bcast6, alarm6)"
  have "work6 s \<le> 12" by (simp add: work6_def split: bpc.splits)
  with self_pipe.reaches_line [OF self_pipe.reach_inv assms(3,4), of ls cs] v assms(1,5) obtain n s' where
    "n \<le> work6 s + 1" "runs run (take n cs) s = Some s'" "bpc s' = Line" by auto
  with \<open>work6 s \<le> _\<close> assms(5) show ?thesis by (intro exI [of _ n] exI [of _ s']) simp
qed

text \<open>A given interleaving.\<close>

datatype bmove = Run | Alarm | Arrive dgram

fun play :: "(bool \<Rightarrow> bc \<Rightarrow> bc option) \<Rightarrow> (bc \<Rightarrow> bc) \<Rightarrow> bmove list \<Rightarrow> bc \<Rightarrow> bc option" where
  "play run alrm [] s = Some s"
| "play run alrm (Run # ms) s = (case run True s of None \<Rightarrow> None | Some s' \<Rightarrow> play run alrm ms s')"
| "play run alrm (Alarm # ms) s = (if armed s then play run alrm ms (alrm (s\<lparr>armed := False\<rparr>)) else None)"
| "play run alrm (Arrive d # ms) s = play run alrm ms (s\<lparr>queue := queue s @ [d], arrived := arrived s @ [d]\<rparr>)"

lemma play_reach: "breach run alrm ls s \<Longrightarrow> play run alrm ms s = Some s' \<Longrightarrow> breach run alrm ls s'"
proof (induction ms arbitrary: s)
  case (Cons m ms)
  from Cons.prems(2) obtain t where t: "bstep run alrm s t" "play run alrm ms t = Some s'"
    by (cases m) (auto intro: bstep.intros split: if_splits option.splits)
  from Cons.IH [OF bmore [OF Cons.prems(1) t(1)] t(2)] show ?case .
qed simp

lemmas play_simps = bcast1_def bcast2_def bcast3_def bcast4_def bcast5_def alarm1_def alarm3_def alarm4_def alarm5_def waiting_def
  recvfrom_call_def next_line_def bc_init_def

theorem bcast_alarm_ends_witness:
  "\<exists>s n s'. breach bcast4 alarm4 [''hi''] s \<and> bpc s = Top \<and> pending s \<and> runs bcast4 (take n (replicate 13 True)) s = Some s' \<and> bpc s' = Line"
proof -
  obtain s where s: "play bcast4 alarm4 [Run, Alarm] (bc_init [''hi'']) = Some s" by (simp add: play_simps)
  then have st: "bpc s = Top" "pending s" "\<not> armed s" "queue s = []" by (auto simp: play_simps)
  have r: "breach bcast4 alarm4 [''hi''] s" by (rule play_reach [OF bstart s])
  moreover have "collecting s" using st by (simp add: collecting_def)
  ultimately show ?thesis using bcast_alarm_ends [OF r, of "replicate 13 True"] st by auto
qed

text \<open>C29. In every version but the one with \<^verbatim>\<open>siglongjmp\<close> no reply is lost, printed twice or printed out of order, and every line is sent once,
  whatever the interleaving with the alarm and the network.\<close>

theorem bcast_conserves:
  assumes "breach run alrm ls s"
    and "(run, alrm) \<in> {(bcast1, alarm1), (bcast2, alarm1), (bcast3, alarm3), (bcast4, alarm4), (bcast6, alarm6)}"
  shows "shown s @ in_hand (bpc s) @ queue s = arrived s \<and> sent s @ input s = ls"
  using assms bcast1.reach_keeps [of ls s] bcast2.reach_keeps [of ls s] bcast3.reach_keeps [of ls s] bcast4.reach_keeps [of ls s]
    bcast6.reach_keeps [of ls s]
  unfolding replies_def lines_of_def by blast

theorem bcast_conserves_witness:
  "\<exists>s. breach bcast1 alarm1 [''hi''] s \<and> bpc s = Back (1, ''x'') \<and>
     shown s @ in_hand (bpc s) @ queue s = [(1, ''x''), (2, ''y'')] \<and> sent s @ input s = [''hi'']"
proof -
  obtain s where s: "play bcast1 alarm1 [Run, Arrive (1, ''x''), Run, Run, Arrive (2, ''y'')] (bc_init [''hi'']) = Some s"
    by (simp add: play_simps)
  then have "bpc s = Back (1, ''x'')" "arrived s = [(1, ''x''), (2, ''y'')]" by (auto simp: play_simps)
  moreover have r: "breach bcast1 alarm1 [''hi''] s" by (rule play_reach [OF bstart s])
  ultimately show ?thesis using bcast_conserves [OF r] by auto
qed

text \<open>C37. The first three versions lose an alarm that comes while the program does not wait: they then wait without limit for a reply. The version with
  \<^verbatim>\<open>siglongjmp\<close> loses a reply that it has received and not yet printed, and an alarm before the first \<^verbatim>\<open>sigsetjmp\<close> is undefined.\<close>

theorem bcast_alarm_lost:
  "(\<exists>s. breach bcast1 alarm1 [l] s \<and> waiting s \<and> \<not> armed s \<and> (\<forall>c. bcast1 c s = None)) \<and>
   (\<exists>s. breach bcast2 alarm1 [l] s \<and> waiting s \<and> \<not> armed s \<and> (\<forall>c. bcast2 c s = None)) \<and>
   (\<exists>s. breach bcast3 alarm3 [l] s \<and> waiting s \<and> \<not> armed s \<and> \<not> pending s \<and> (\<forall>c. bcast3 c s = None)) \<and>
   (\<exists>s. breach bcast5 alarm5 [l] s \<and> bpc s = Line \<and> arrived s = [d] \<and> shown s = [] \<and> queue s = []) \<and>
   (\<exists>s. breach bcast5 alarm5 [l] s \<and> bpc s = Undefined)"
proof (intro conjI)
  have reach: "play run alrm ms (bc_init [l]) = Some s \<Longrightarrow> breach run alrm [l] s" for run alrm ms s by (rule play_reach [OF bstart])
  obtain s where s: "play bcast1 alarm1 [Run, Alarm, Run] (bc_init [l]) = Some s" by (simp add: play_simps)
  then have "waiting s \<and> \<not> armed s \<and> (\<forall>c. bcast1 c s = None)" by (auto simp: play_simps)
  with reach [OF s] show "\<exists>s. breach bcast1 alarm1 [l] s \<and> waiting s \<and> \<not> armed s \<and> (\<forall>c. bcast1 c s = None)" by blast
  obtain s where s: "play bcast2 alarm1 [Run, Alarm, Run] (bc_init [l]) = Some s" by (simp add: play_simps)
  then have "waiting s \<and> \<not> armed s \<and> (\<forall>c. bcast2 c s = None)" by (auto simp: play_simps)
  with reach [OF s] show "\<exists>s. breach bcast2 alarm1 [l] s \<and> waiting s \<and> \<not> armed s \<and> (\<forall>c. bcast2 c s = None)" by blast
  obtain s where s: "play bcast3 alarm3 [Run, Run, Alarm, Run] (bc_init [l]) = Some s" by (simp add: play_simps)
  then have "waiting s \<and> \<not> armed s \<and> \<not> pending s \<and> (\<forall>c. bcast3 c s = None)" by (auto simp: play_simps)
  with reach [OF s] show "\<exists>s. breach bcast3 alarm3 [l] s \<and> waiting s \<and> \<not> armed s \<and> \<not> pending s \<and> (\<forall>c. bcast3 c s = None)" by blast
  obtain s where s: "play bcast5 alarm5 [Run, Run, Arrive d, Run, Alarm] (bc_init [l]) = Some s" by (simp add: play_simps)
  then have "bpc s = Line \<and> arrived s = [d] \<and> shown s = [] \<and> queue s = []" by (auto simp: play_simps)
  with reach [OF s] show "\<exists>s. breach bcast5 alarm5 [l] s \<and> bpc s = Line \<and> arrived s = [d] \<and> shown s = [] \<and> queue s = []" by blast
  obtain s where s: "play bcast5 alarm5 [Run, Alarm] (bc_init [l]) = Some s" by (simp add: play_simps)
  then have "bpc s = Undefined" by (auto simp: play_simps)
  with reach [OF s] show "\<exists>s. breach bcast5 alarm5 [l] s \<and> bpc s = Undefined" by blast
qed

end
