(* ===== verification/Udp_Cksum.thy ===== *)
theory Udp_Cksum
  imports Packet
begin

text \<open>
  \<^verbatim>\<open>unpv13e/udpcksum\<close>: a program that sends a DNS query in an IP datagram of its own making, captures the answer and reports
  whether the sender of the answer uses UDP checksums. \<^verbatim>\<open>udpwrite.c\<close> makes the datagram, \<^verbatim>\<open>senddnsquery-raw.c\<close> the query,
  \<^verbatim>\<open>udpread.c\<close> looks into a captured frame and \<^verbatim>\<open>udpcksum.c\<close> holds the loop with its alarm.

  Octets of a frame outside of what was captured are undefined. \<^verbatim>\<open>size_t\<close> has 64 bits. What the kernel does to the header on output
  (identification and header checksum) is a parameter.
\<close>

section \<open>Writing a datagram\<close>

record udp_end =
  sin_addr4 :: "nat list"
  sin_port2 :: "nat list"

abbreviation (input) TTL_OUT :: nat where "TTL_OUT \<equiv> 64"

text \<open>\<^verbatim>\<open>struct udpiphdr\<close> up to the checksum: nine zero octets, the protocol, a copy of the length, the addresses, the ports, the length.\<close>

definition udpiphdr :: "udp_end \<Rightarrow> udp_end \<Rightarrow> nat \<Rightarrow> nat list" where
  "udpiphdr local dest ulen =
     replicate 9 0 @ [IPPROTO_UDP] @ put_be16 ulen @ sin_addr4 local @ sin_addr4 dest @ sin_port2 local @ sin_port2 dest @ put_be16 ulen"

definition udp_sum :: "bool \<Rightarrow> nat list \<Rightarrow> nat list \<Rightarrow> nat" where
  "udp_sum zerosum ui user =
     (if zerosum then 0 else let c = cksum (ui @ [0, 0] @ user) in if c = 0 then 65535 else c)"

definition udp_write :: "bool \<Rightarrow> udp_end \<Rightarrow> udp_end \<Rightarrow> nat list \<Rightarrow> nat list" where
  "udp_write zerosum local dest user =
     (let ui = udpiphdr local dest (8 + length user);
          ui_sum = udp_sum zerosum ui user;
          ip = [69, 0] @ put_be16 (28 + length user) @ [0, 0] @ [0, 0] @ [TTL_OUT]
      in ip @ drop 9 ui @ put_le16 ui_sum @ user)"

definition dns_query :: "nat list" where
  "dns_query =
     put_be16 1234 @ put_be16 256 @ put_be16 1 @ put_be16 0 @ put_be16 0 @ put_be16 0 @
     ([1] @ map of_char ''a'' @ [12] @ map of_char ''root-servers'' @ [3] @ map of_char ''net'' @ [0]) @
     put_be16 1 @ put_be16 1"

definition send_dns_query :: "bool \<Rightarrow> udp_end \<Rightarrow> udp_end \<Rightarrow> nat list" where
  "send_dns_query zerosum local dest = udp_write zerosum local dest dns_query"

section \<open>Reading a frame\<close>

datatype udp_result = Udp (udp_packet: "nat list") | Err_quit "char list"

datatype dlt = DLT_NULL | DLT_EN10MB | DLT_SLIP | DLT_PPP | DLT_other

definition size_t :: "int \<Rightarrow> nat" where
  "size_t n = nat (n mod 2 ^ 64)"

definition udp_check :: "nat list \<Rightarrow> int \<Rightarrow> udp_result c_value" where
  "udp_check ptr len =
     (if size_t len < 20 + 8 then Val (Err_quit ''len'')
      else if ptr = [] then UB
      else if ptr ! 0 div 16 \<noteq> 4 then Val (Err_quit ''ip_v'')
      else let hlen = ptr ! 0 mod 16 * 4 in
        if hlen < 20 then Val (Err_quit ''ip_hl'')
        else if size_t len < hlen + 8 then Val (Err_quit ''len, hlen'')
        else if length ptr < hlen then UB
        else if cksum (take hlen ptr) \<noteq> 0 then Val (Err_quit ''ip checksum error'')
        else if ptr ! 9 = IPPROTO_UDP then Val (Udp (ptr[10 := 0, 11 := 0]))
        else Val (Err_quit ''not a UDP packet''))"

definition udp_read :: "dlt \<Rightarrow> nat list \<Rightarrow> udp_result c_value" where
  "udp_read datalink frame =
     (let len = int (length frame) in
      case datalink of
        DLT_NULL \<Rightarrow> udp_check (drop 4 frame) (len - 4)
      | DLT_EN10MB \<Rightarrow>
          if length frame < 14 then UB
          else if be16 (drop 12 frame) \<noteq> 0x0800 then Val (Err_quit ''Ethernet type'')
          else udp_check (drop 14 frame) (len - 14)
      | DLT_SLIP \<Rightarrow> udp_check (drop 24 frame) (len - 24)
      | DLT_PPP \<Rightarrow> udp_check (drop 24 frame) (len - 24)
      | DLT_other \<Rightarrow> Val (Err_quit ''unsupported datalink''))"

section \<open>The test\<close>

text \<open>
  What happens after a query has been sent: nothing before the alarm, a frame, or a frame and the alarm before \<^verbatim>\<open>canjump\<close> is cleared.
  \<^verbatim>\<open>next_pcap\<close> waits for a frame for as long as it takes. The result has the datagrams sent, the seconds of the alarms set, and the report.
\<close>

datatype cap = Alarm | Frame "nat list" | Frame_late "nat list"

datatype report = Off nat | On nat | Quit "char list" | Undefined_read | Waits

record test_run =
  tsent :: "nat list list"
  talarms :: "nat list"
  treport :: report

definition tell :: "udp_result c_value \<Rightarrow> report" where
  "tell r =
     (case r of
        UB \<Rightarrow> Undefined_read
      | Val (Err_quit m) \<Rightarrow> Quit m
      | Val (Udp ui) \<Rightarrow>
          if length ui < 28 then Undefined_read
          else if le16 (drop 26 ui) = 0 then Off (be16 (drop 26 ui)) else On (be16 (drop 26 ui)))"

definition ended :: "report \<Rightarrow> test_run" where
  "ended r = \<lparr>tsent = [], talarms = [], treport = r\<rparr>"

definition attempt :: "nat list \<Rightarrow> nat \<Rightarrow> test_run \<Rightarrow> test_run" where
  "attempt query timeout r = r\<lparr>tsent := query # tsent r, talarms := timeout # talarms r\<rparr>"

fun test_loop :: "nat list \<Rightarrow> dlt \<Rightarrow> nat \<Rightarrow> nat \<Rightarrow> cap list \<Rightarrow> test_run" where
  "test_loop query datalink nsent timeout [] = attempt query timeout (ended Waits)"
| "test_loop query datalink nsent timeout (Frame f # evs) = attempt query timeout (ended (tell (udp_read datalink f)))"
| "test_loop query datalink nsent timeout (Alarm # evs) =
     attempt query timeout
       (if nsent + 1 \<ge> 3 then ended (Quit ''no response'') else test_loop query datalink (nsent + 1) (timeout * 2) evs)"
| "test_loop query datalink nsent timeout (Frame_late f # evs) =
     attempt query timeout
       (case udp_read datalink f of
          Val (Udp ui) \<Rightarrow>
            if nsent + 1 \<ge> 3 then ended (Quit ''no response'') else test_loop query datalink (nsent + 1) (timeout * 2) evs
        | r \<Rightarrow> ended (tell r))"

definition test_udp :: "bool \<Rightarrow> udp_end \<Rightarrow> udp_end \<Rightarrow> dlt \<Rightarrow> cap list \<Rightarrow> test_run" where
  "test_udp zerosum local dest datalink evs = test_loop (send_dns_query zerosum local dest) datalink 0 3 evs"

section \<open>A datagram written is a datagram that verifies\<close>

definition end_ok :: "udp_end \<Rightarrow> bool" where
  "end_ok e \<longleftrightarrow> length (sin_addr4 e) = 4 \<and> length (sin_port2 e) = 2 \<and> is_octets (sin_addr4 e) \<and> is_octets (sin_port2 e)"

text \<open>What the receiver of a datagram sums: the pseudo-header (addresses, protocol and length) and the UDP header with the data.\<close>

definition pseudo_header :: "nat list \<Rightarrow> nat list" where
  "pseudo_header p = take 8 (drop 12 p) @ [0, p ! 9] @ take 2 (drop 24 p)"

definition udp_verifies :: "nat list \<Rightarrow> bool" where
  "udp_verifies p \<longleftrightarrow> cksum (pseudo_header p @ drop 20 p) = 0"

lemma end_okE:
  assumes "end_ok e"
  obtains a b c d p q where "e = \<lparr>sin_addr4 = [a, b, c, d], sin_port2 = [p, q]\<rparr>"
    "a < 256" "b < 256" "c < 256" "d < 256" "p < 256" "q < 256"
proof -
  from assms obtain a b c d where "sin_addr4 e = [a, b, c, d]" by (auto simp: end_ok_def eval_nat_numeral length_Suc_conv)
  moreover from assms obtain p q where "sin_port2 e = [p, q]" by (auto simp: end_ok_def eval_nat_numeral length_Suc_conv)
  ultimately show thesis using assms that by (cases e) (auto simp: end_ok_def)
qed

lemma udp_write_parts:
  assumes "end_ok local" and "end_ok dest"
  shows "udp_write z local dest user =
    [69, 0] @ put_be16 (28 + length user) @ [0, 0, 0, 0, 64, 17] @ put_be16 (8 + length user) @ sin_addr4 local @ sin_addr4 dest @
    sin_port2 local @ sin_port2 dest @ put_be16 (8 + length user) @ put_le16 (udp_sum z (udpiphdr local dest (8 + length user)) user) @ user"
  by (simp add: udp_write_def udpiphdr_def Let_def eval_nat_numeral)

lemma length_udp_write: "end_ok local \<Longrightarrow> end_ok dest \<Longrightarrow> length (udp_write z local dest user) = 28 + length user"
  by (simp add: udp_write_parts end_ok_def)

lemma packet_sum_zero [simp]: "packet_sum (0 # 0 # bs) = packet_sum bs"
  by (simp add: packet_sum_def word_sum_def)

lemma packet_sum_udp [simp]: "packet_sum (0 # 17 # bs) = 4352 + packet_sum bs"
  by (simp add: packet_sum_def word_sum_def)

lemma pseudo_sum:
  assumes "end_ok local" and "end_ok dest" and "length r = 2"
    and p: "p = pre @ sin_addr4 local @ sin_addr4 dest @ sin_port2 local @ sin_port2 dest @ put_be16 n @ r @ user"
    and "length pre = 12" and "pre ! 9 = 17"
  shows "packet_sum (pseudo_header p @ drop 20 p) = packet_sum (udpiphdr local dest n @ r @ user)"
proof -
  have l: "length (sin_addr4 local) = 4" "length (sin_addr4 dest) = 4" "length (sin_port2 local) = 2" "length (sin_port2 dest) = 2"
    using assms(1,2) by (simp_all add: end_ok_def)
  have "p ! 9 = 17" using p assms(5,6) by (simp add: nth_append)
  then have "pseudo_header p = sin_addr4 local @ sin_addr4 dest @ [0, 17] @ put_be16 n"
    using p l assms(5) by (simp add: pseudo_header_def)
  moreover have "drop 20 p = sin_port2 local @ sin_port2 dest @ put_be16 n @ r @ user"
    using p l assms(5) by simp
  moreover have "udpiphdr local dest n @ r @ user =
      [0, 0, 0, 0, 0, 0, 0, 0, 0, 17] @ put_be16 n @ sin_addr4 local @ sin_addr4 dest @ sin_port2 local @ sin_port2 dest @ put_be16 n @ r @ user"
    by (simp add: udpiphdr_def eval_nat_numeral)
  ultimately show ?thesis using l assms(3) by (simp only: append_assoc) (simp add: packet_sum_append)
qed

lemma udp_sum_filled:
  assumes "even (length ui)" and "length (ui @ [0, 0] @ user) \<le> 65536" and "\<not> z"
  shows "cksum (ui @ put_le16 (udp_sum z ui user) @ user) = 0" and "0 < udp_sum z ui user" and "udp_sum z ui user < 65536"
  using assms cksum_filled [OF assms(1,2), of "udp_sum z ui user"] cksum_bound [of "ui @ [0, 0] @ user"]
  by (auto simp: udp_sum_def Let_def)

text \<open>Output by the kernel changes only the identification and the header checksum, which is right afterwards.\<close>

definition header_filled :: "nat list \<Rightarrow> nat list \<Rightarrow> bool" where
  "header_filled p q \<longleftrightarrow> take 4 q = take 4 p \<and> take 4 (drop 6 q) = take 4 (drop 6 p) \<and> drop 12 q = drop 12 p \<and> cksum (take 20 q) = 0"

lemma length_two: "length xs = 2 \<Longrightarrow> \<exists>x y. xs = [x, y]"
  by (auto simp: eval_nat_numeral length_Suc_conv)

lemma header_filledE:
  assumes "header_filled p q" and "12 < length p"
  obtains i1 i2 c1 c2 where "q = take 4 p @ [i1, i2] @ take 4 (drop 6 p) @ [c1, c2] @ drop 12 p"
proof -
  have f: "take 4 q = take 4 p" "take 4 (drop 6 q) = take 4 (drop 6 p)" "drop 12 q = drop 12 p"
    using assms(1) by (simp_all add: header_filled_def)
  have len: "length q = length p" using arg_cong [OF f(3), of length] assms(2) by simp
  have two: "\<exists>x y. take 2 (drop n q) = [x, y]" if "n \<le> 10" for n
  proof -
    have "length (take 2 (drop n q)) = 2" using that len assms(2) by simp
    then show ?thesis by (rule length_two)
  qed
  from two [of 4] obtain i1 i2 where i: "take 2 (drop 4 q) = [i1, i2]" by auto
  from two [of 10] obtain c1 c2 where c: "take 2 (drop 10 q) = [c1, c2]" by auto
  have "q = take 4 q @ take 2 (drop 4 q) @ take 4 (drop 6 q) @ take 2 (drop 10 q) @ drop 12 q"
    using append_take_drop_id [of 4 q] append_take_drop_id [of 2 "drop 4 q"] append_take_drop_id [of 4 "drop 6 q"]
      append_take_drop_id [of 2 "drop 10 q"] by simp
  then show thesis using f i c that by metis
qed

lemma udp_write_filled:
  assumes "end_ok local" and "end_ok dest" and "header_filled (udp_write z local dest user) q"
  obtains pre where
    "q = pre @ sin_addr4 local @ sin_addr4 dest @ sin_port2 local @ sin_port2 dest @ put_be16 (8 + length user) @
       put_le16 (udp_sum z (udpiphdr local dest (8 + length user)) user) @ user"
    "length pre = 12" "pre ! 9 = 17" "hd pre = 69"
proof -
  let ?p = "udp_write z local dest user"
  have "12 < length ?p" using length_udp_write [OF assms(1,2)] by simp
  from header_filledE [OF assms(3) this] obtain i1 i2 c1 c2 where
    q: "q = take 4 ?p @ [i1, i2] @ take 4 (drop 6 ?p) @ [c1, c2] @ drop 12 ?p" by blast
  have "put_be16 n = [n div 256 mod 256, n mod 256]" for n by (simp add: put_be16_def)
  with q udp_write_parts [OF assms(1,2), of z user] show thesis
    by (intro that [of "[69, 0] @ put_be16 (28 + length user) @ [i1, i2, 0, 0, 64, 17, c1, c2]"]) (simp_all add: put_be16_def)
qed

lemma udp_write_verifies:
  assumes "end_ok local" and "end_ok dest" and "length user \<le> 65507" and "header_filled (udp_write False local dest user) q"
  shows "udp_verifies q"
proof -
  let ?ui = "udpiphdr local dest (8 + length user)"
  let ?s = "put_le16 (udp_sum False ?ui user)"
  from udp_write_filled [OF assms(1,2,4)] obtain pre where
    q: "q = pre @ sin_addr4 local @ sin_addr4 dest @ sin_port2 local @ sin_port2 dest @ put_be16 (8 + length user) @ ?s @ user"
    and pre: "length pre = 12" "pre ! 9 = 17" by blast
  have ui: "length ?ui = 26" using assms(1,2) by (simp add: udpiphdr_def end_ok_def)
  then have "cksum (?ui @ ?s @ user) = 0" using assms(3) by (intro udp_sum_filled(1)) auto
  then have "packet_sum (?ui @ ?s @ user) mod 65535 = 0 \<and> packet_sum (?ui @ ?s @ user) \<noteq> 0"
    using ui assms(3) by (subst (asm) cksum_zero_iff) auto
  moreover have "packet_sum (pseudo_header q @ drop 20 q) = packet_sum (?ui @ ?s @ user)"
    by (rule pseudo_sum [OF assms(1,2) _ q pre]) simp
  moreover have "length (pseudo_header q @ drop 20 q) \<le> 65536"
    using q pre assms(1,2,3) by (simp add: pseudo_header_def end_ok_def)
  ultimately show ?thesis unfolding udp_verifies_def by (simp add: cksum_zero_iff)
qed

section \<open>The test against a server\<close>

definition snaplen :: nat where
  "snaplen = 200"

lemma size_t_nat [simp]: "n < 2 ^ 64 \<Longrightarrow> size_t (int n) = n"
  by (simp add: size_t_def nat_mod_as_int)

lemma udp_check_accepts:
  assumes "28 \<le> length p" and "length p \<le> 65536" and "hd p = 69" and "cksum (take 20 p) = 0" and "p ! 9 = 17"
  shows "udp_check p (int (length p)) = Val (Udp (p[10 := 0, 11 := 0]))"
proof -
  have "p \<noteq> []" using assms(1) by auto
  with assms(3) have "p ! 0 = 69" by (simp add: hd_conv_nth)
  with assms \<open>p \<noteq> []\<close> show ?thesis by (simp add: udp_check_def)
qed

lemma tell_udp: "28 \<le> length p \<Longrightarrow> tell (Val (Udp (p[10 := 0, 11 := 0]))) = (if le16 (drop 26 p) = 0 then Off 0 else On (be16 (drop 26 p)))"
proof -
  assume l: "28 \<le> length p"
  have "(p[10 := 0, 11 := 0]) ! n = p ! n" if "26 \<le> n" for n using that by simp
  then have "le16 (drop 26 (p[10 := 0, 11 := 0])) = le16 (drop 26 p)" "be16 (drop 26 (p[10 := 0, 11 := 0])) = be16 (drop 26 p)"
    using l by (simp_all add: le16_def be16_def)
  moreover have "be16 (drop 26 p) = 0" if "le16 (drop 26 p) = 0" using that by (simp add: be16_def le16_def)
  ultimately show ?thesis using l by (simp add: tell_def)
qed

text \<open>A frame on an Ethernet, as far as it is captured.\<close>

definition ether_frame :: "nat list \<Rightarrow> nat list \<Rightarrow> nat list" where
  "ether_frame macs p = take snaplen (macs @ [8, 0] @ p)"

lemma read_frame:
  assumes "length macs = 12" and "28 \<le> length p" and "hd p = 69" and "cksum (take 20 p) = 0" and "p ! 9 = 17"
  shows "tell (udp_read DLT_EN10MB (ether_frame macs p)) = (if le16 (drop 26 p) = 0 then Off 0 else On (be16 (drop 26 p)))"
proof -
  let ?p = "take 186 p"
  have f: "ether_frame macs p = macs @ [8, 0] @ ?p" using assms(1) by (simp add: ether_frame_def snaplen_def)
  have "udp_check ?p (int (length ?p)) = Val (Udp (?p[10 := 0, 11 := 0]))"
    using assms by (intro udp_check_accepts) (auto simp: hd_take)
  moreover have "udp_read DLT_EN10MB (ether_frame macs p) = udp_check ?p (int (length ?p))"
    using assms(1) by (simp add: f udp_read_def be16_def)
  moreover have "le16 (drop 26 ?p) = le16 (drop 26 p)" "be16 (drop 26 ?p) = be16 (drop 26 p)"
    using assms(2) by (simp_all add: le16_def be16_def drop_take)
  ultimately show ?thesis using tell_udp [of ?p] assms(2) by simp
qed

lemma le16_zero_iff: "x < 65536 \<Longrightarrow> le16 (put_le16 x @ bs) = 0 \<longleftrightarrow> x = 0"
  by (auto simp: le16_def put_le16_def)

definition backoff :: "nat \<Rightarrow> nat \<Rightarrow> nat list" where
  "backoff timeout k = map (\<lambda>i. timeout * 2 ^ i) [0..<k]"

lemma backoff_shift: "timeout # backoff (timeout * 2) k = backoff timeout (Suc k)"
  by (simp add: backoff_def map_Suc_upt [symmetric] upt_conv_Cons comp_def mult.assoc del: upt_Suc)

lemma backoff_one: "backoff timeout (Suc 0) = [timeout]"
  by (simp add: backoff_def)

lemma test_loop_alarms:
  assumes "nsent + k < 3"
  shows "test_loop query dl nsent timeout (replicate k Alarm @ Frame f # evs) =
    \<lparr>tsent = replicate (k + 1) query, talarms = backoff timeout (k + 1), treport = tell (udp_read dl f)\<rparr>"
  using assms
proof (induction k arbitrary: nsent timeout)
  case 0
  then show ?case by (simp add: attempt_def ended_def backoff_one)
next
  case (Suc k)
  with Suc.IH [of "nsent + 1" "timeout * 2"] show ?case using backoff_shift [of timeout "k + 1"] by (simp add: attempt_def del: upt_Suc)
qed

definition shaped :: "nat list \<Rightarrow> nat \<Rightarrow> nat \<Rightarrow> test_run \<Rightarrow> bool" where
  "shaped query nsent timeout r \<longleftrightarrow> 1 \<le> length (tsent r) \<and> length (tsent r) \<le> 3 - nsent \<and> set (tsent r) = {query} \<and>
     talarms r = backoff timeout (length (tsent r))"

lemma shaped_ended: "nsent < 3 \<Longrightarrow> shaped query nsent timeout (attempt query timeout (ended x))"
  by (simp add: shaped_def attempt_def ended_def backoff_one)

lemma shaped_again: "shaped query (nsent + 1) (timeout * 2) r \<Longrightarrow> shaped query nsent timeout (attempt query timeout r)"
proof -
  assume r: "shaped query (nsent + 1) (timeout * 2) r"
  then have "1 \<le> length (tsent r)" "length (tsent r) \<le> 3 - (nsent + 1)" by (simp_all add: shaped_def)
  then have "Suc (length (tsent r)) \<le> 3 - nsent" by arith
  with r show ?thesis by (simp add: shaped_def attempt_def backoff_shift)
qed

lemma test_loop_shape: "nsent < 3 \<Longrightarrow> shaped query nsent timeout (test_loop query dl nsent timeout evs)"
proof (induction query dl nsent timeout evs rule: test_loop.induct)
  case (3 query dl nsent timeout evs)
  show ?case
  proof (cases "nsent + 1 \<ge> 3")
    case False
    from shaped_again [OF 3(1) [OF False]] False show ?thesis by simp
  qed (simp add: shaped_ended [OF 3(2)])
next
  case (4 query dl nsent timeout f evs)
  show ?case
  proof (cases "nsent + 1 < 3 \<and> (\<exists>ui. udp_read dl f = Val (Udp ui))")
    case True
    then obtain ui where ui: "udp_read dl f = Val (Udp ui)" "\<not> nsent + 1 \<ge> 3" by auto
    from shaped_again [OF 4(1) [OF ui(1) refl ui(2)]] ui show ?thesis by simp
  qed (auto simp: shaped_ended [OF 4(2)] split: c_value.splits udp_result.splits)
qed (simp_all add: shaped_ended)

section \<open>Properties\<close>


text \<open>A header as the kernel completes it, for concrete datagrams.\<close>

definition fill_header :: "nat \<Rightarrow> nat list \<Rightarrow> nat list" where
  "fill_header ident p =
     (let h = take 4 p @ put_be16 ident @ take 4 (drop 6 p) in
      h @ put_le16 (cksum (h @ [0, 0] @ take 8 (drop 12 p))) @ drop 12 p)"

lemma fill_header_filled:
  assumes "20 \<le> length p"
  shows "header_filled p (fill_header ident p)"
proof -
  let ?h = "take 4 p @ put_be16 ident @ take 4 (drop 6 p)"
  let ?c = "cksum (?h @ [0, 0] @ take 8 (drop 12 p))"
  have h: "length ?h = 10" using assms by simp
  then have "take 20 (fill_header ident p) = ?h @ put_le16 ?c @ take 8 (drop 12 p)" by (simp add: fill_header_def Let_def)
  moreover have "cksum (?h @ put_le16 ?c @ take 8 (drop 12 p)) = 0" using assms h by (intro cksum_filled) auto
  ultimately show ?thesis using assms by (simp add: header_filled_def fill_header_def Let_def)
qed


text \<open>Whatever is captured, the program sends the same query at most three times, after 3, 6 and 12 seconds, and it gives up on the third alarm.\<close>

theorem test_udp_bounded:
  "let r = test_udp z host server dl evs in
     1 \<le> length (tsent r) \<and> length (tsent r) \<le> 3 \<and> set (tsent r) = {send_dns_query z host server} \<and>
     talarms r = backoff 3 (length (tsent r)) \<and>
     treport (test_udp z host server dl (Alarm # Alarm # Alarm # evs)) = Quit ''no response''"
  using test_loop_shape [of 0 "send_dns_query z host server" 3 dl evs]
  by (simp add: test_udp_def shaped_def Let_def attempt_def ended_def)

text \<open>A frame shorter than its link header is read beyond its end: the length becomes negative and passes the test as a large unsigned number. A datagram with IP
  options is accepted, but the checksum is looked for where one without options has it: this one has no checksum, and its destination port is reported as one.\<close>

theorem udp_check_wrong_place:
  "udp_read DLT_SLIP (take 23 bytes) = UB \<and>
   tell (udp_read DLT_NULL
     ([2, 0, 0, 0] @ [0x46, 0, 0, 32, 0, 0, 0, 0, 64, 17, 103, 185, 1, 2, 3, 4, 5, 6, 7, 8, 1, 1, 1, 0] @ [0, 53, 4, 210, 0, 8, 0, 0])) = On 1234"
proof (intro conjI)
  let ?l = "int (length (take 23 bytes))"
  have "(?l - 24) mod 2 ^ 64 = (?l - 24 + 2 ^ 64) mod 2 ^ 64" by (simp only: mod_add_self2)
  also have "\<dots> = ?l - 24 + 2 ^ 64" by (intro mod_pos_pos_trivial) simp_all
  finally have "size_t (?l - 24) \<ge> 28" by (simp add: size_t_def)
  then show "udp_read DLT_SLIP (take 23 bytes) = UB" by (simp add: udp_read_def udp_check_def Let_def)
qed (simp add: udp_read_def udp_check_def tell_def size_t_def cksum_zero_iff packet_sum_def word_sum_def byte_value_def le16_def be16_def)

end
