(* ===== verification/Datagram.thy ===== *)
theory Datagram
  imports Echo "HOL-Library.Sublist" "HOL-Library.Multiset"
begin

text \<open>
  The datagram echo service: the server loop \<^verbatim>\<open>unpv13e/lib/dg_echo.c\<close> (copied in \<^verbatim>\<open>rtt/dg_echo.c\<close>; with short buffers in
  \<^verbatim>\<open>advio/dgechoaddr.c\<close>; the datagram half of \<^verbatim>\<open>udpcliserv/udpservselect01.c\<close>) and its clients: \<^verbatim>\<open>lib/dg_cli.c\<close>, \<^verbatim>\<open>udpcliserv/dgcliaddr.c\<close> (which compares
  the address of the reply), \<^verbatim>\<open>dgcliinetaddr.c\<close> (which prints it), \<^verbatim>\<open>dgcliconnect.c\<close> (a connected socket), and \<^verbatim>\<open>advio/dgclitimeo.c\<close>,
  \<^verbatim>\<open>dgclitimeo1.c\<close>, \<^verbatim>\<open>dgclitimeo2.c\<close> and \<^verbatim>\<open>dgclitimeo3.c\<close> (which stop waiting after five seconds, by \<^verbatim>\<open>select\<close>, by a socket option and
  by an alarm).

  A client is a function that executes it up to its next call that matters to others; \<open>None\<close> means that it waits. Its first argument says
  whether its timer goes off. Client, server and network are interleaved by \<open>ustep\<close>; the network delivers in order, and may lose, reorder or
  repeat datagrams and bring datagrams of others as far as \<open>net\<close> says. Peers are numbers, the server is number 0.
\<close>

section \<open>State\<close>

datatype said = Echoed "char list" | Reply_from nat | Ignored nat | Timed_out

datatype dpc = Line | Ready bool | Wait bool | Got bool "char list" | Finished | Exited

record udp_echo =
  dpc :: dpc
  fp :: cfile
  sent_lines :: "char list list"
  forth :: "char list list"
  squeue :: "char list list"
  mesg :: "char list option"
  homeward :: "char list list"
  cqueue :: "(nat \<times> char list) list"
  screen :: "said list"

definition udp_init :: "cfile \<Rightarrow> udp_echo" where
  "udp_init f = \<lparr>dpc = Line, fp = f, sent_lines = [], forth = [], squeue = [], mesg = None, homeward = [], cqueue = [], screen = []\<rparr>"

section \<open>The server\<close>

text \<open>A datagram longer than the buffer is cut.\<close>

definition echo_with :: "nat \<Rightarrow> udp_echo \<Rightarrow> udp_echo option" where
  "echo_with maxline s =
     (case mesg s of
        Some m \<Rightarrow> Some (s\<lparr>mesg := None, homeward := homeward s @ [m]\<rparr>)
      | None \<Rightarrow> (case squeue s of [] \<Rightarrow> None | d # q \<Rightarrow> Some (s\<lparr>squeue := q, mesg := Some (take maxline d)\<rparr>)))"

definition dg_echo :: "udp_echo \<Rightarrow> udp_echo option" where
  "dg_echo = echo_with MAXLINE"

definition dg_echo_rtt :: "udp_echo \<Rightarrow> udp_echo option" where
  "dg_echo_rtt = echo_with MAXLINE"

definition dg_echo_addr :: "udp_echo \<Rightarrow> udp_echo option" where
  "dg_echo_addr = echo_with 20"

definition udpservselect_udp :: "udp_echo \<Rightarrow> udp_echo option" where
  "udpservselect_udp = echo_with MAXLINE"

section \<open>The clients\<close>

definition send_line :: "dpc \<Rightarrow> udp_echo \<Rightarrow> udp_echo" where
  "send_line after s =
     (case fgets MAXLINE (fp s) of
        None \<Rightarrow> s\<lparr>dpc := if ferror (fp s) then Exited else Finished\<rparr>
      | Some (sendline, fp') \<Rightarrow>
          s\<lparr>fp := fp', sent_lines := sent_lines s @ [c_string sendline], forth := forth s @ [c_string sendline], dpc := after\<rparr>)"

definition say :: "said list \<Rightarrow> udp_echo \<Rightarrow> udp_echo" where
  "say ms s = s\<lparr>screen := screen s @ ms\<rparr>"

definition recv_reply :: "(nat \<Rightarrow> char list \<Rightarrow> udp_echo \<Rightarrow> udp_echo) \<Rightarrow> udp_echo \<Rightarrow> udp_echo option" where
  "recv_reply f s = (case cqueue s of [] \<Rightarrow> None | (a, d) # q \<Rightarrow> Some (f a (take MAXLINE d) (s\<lparr>cqueue := q, dpc := Line\<rparr>)))"

definition dg_cli :: "bool \<Rightarrow> udp_echo \<Rightarrow> udp_echo option" where
  "dg_cli c s =
     (case dpc s of
        Line \<Rightarrow> Some (send_line (Wait False) s)
      | Wait _ \<Rightarrow> recv_reply (\<lambda>a recvline. say [Echoed (c_string recvline)]) s
      | _ \<Rightarrow> None)"

definition dgcliaddr :: "bool \<Rightarrow> udp_echo \<Rightarrow> udp_echo option" where
  "dgcliaddr c s =
     (case dpc s of
        Line \<Rightarrow> Some (send_line (Wait False) s)
      | Wait _ \<Rightarrow> recv_reply (\<lambda>a recvline. if a \<noteq> 0 then say [Ignored a] else say [Echoed (c_string recvline)]) s
      | _ \<Rightarrow> None)"

definition dgcliinetaddr :: "bool \<Rightarrow> udp_echo \<Rightarrow> udp_echo option" where
  "dgcliinetaddr c s =
     (case dpc s of
        Line \<Rightarrow> Some (send_line (Wait False) s)
      | Wait _ \<Rightarrow> recv_reply (\<lambda>a recvline. say [Reply_from a, Echoed (c_string recvline)]) s
      | _ \<Rightarrow> None)"

definition dgcliconnect :: "bool \<Rightarrow> udp_echo \<Rightarrow> udp_echo option" where
  "dgcliconnect c s =
     (case dpc s of
        Line \<Rightarrow> Some (send_line (Wait False) s)
      | Wait _ \<Rightarrow> recv_reply (\<lambda>a recvline. say [Echoed (c_string recvline)]) s
      | _ \<Rightarrow> None)"

text \<open>\<^verbatim>\<open>Readable_timeo\<close>: whether the socket has become readable before the timer went off; \<open>None\<close> while neither has happened.\<close>

definition readable_timeo :: "bool \<Rightarrow> udp_echo \<Rightarrow> bool option" where
  "readable_timeo expired s = (if cqueue s \<noteq> [] then Some True else if expired then Some False else None)"

definition dgclitimeo :: "bool \<Rightarrow> udp_echo \<Rightarrow> udp_echo option" where
  "dgclitimeo c s =
     (case dpc s of
        Line \<Rightarrow> Some (send_line (Wait False) s)
      | Wait _ \<Rightarrow>
          (case readable_timeo c s of
             None \<Rightarrow> None
           | Some False \<Rightarrow> Some (say [Timed_out] (s\<lparr>dpc := Line\<rparr>))
           | Some True \<Rightarrow> recv_reply (\<lambda>a recvline. say [Echoed (c_string recvline)]) s)
      | _ \<Rightarrow> None)"

definition dgclitimeo1 :: "bool \<Rightarrow> udp_echo \<Rightarrow> udp_echo option" where
  "dgclitimeo1 c s =
     (case dpc s of
        Line \<Rightarrow> Some (send_line (Wait False) s)
      | Wait _ \<Rightarrow>
          (case readable_timeo c s of
             None \<Rightarrow> None
           | Some readable \<Rightarrow>
               if \<not> readable then Some (say [Timed_out] (s\<lparr>dpc := Line\<rparr>))
               else recv_reply (\<lambda>a recvline. say [Echoed (c_string recvline)]) s)
      | _ \<Rightarrow> None)"

definition dgclitimeo2 :: "bool \<Rightarrow> udp_echo \<Rightarrow> udp_echo option" where
  "dgclitimeo2 c s =
     (case dpc s of
        Line \<Rightarrow> Some (send_line (Wait False) s)
      | Wait _ \<Rightarrow>
          (case recv_reply (\<lambda>a recvline. say [Echoed (c_string recvline)]) s of
             Some s' \<Rightarrow> Some s'
           | None \<Rightarrow> if c then Some (say [Timed_out] (s\<lparr>dpc := Line\<rparr>)) else None)
      | _ \<Rightarrow> None)"

text \<open>The alarm interrupts \<^verbatim>\<open>recvfrom\<close> only when it waits.\<close>

definition dgclitimeo3 :: "bool \<Rightarrow> udp_echo \<Rightarrow> udp_echo option" where
  "dgclitimeo3 c s =
     (case dpc s of
        Line \<Rightarrow> Some (send_line (Ready True) s)
      | Ready alrm \<Rightarrow> Some (s\<lparr>dpc := if alrm \<and> c then Ready False else Wait alrm\<rparr>)
      | Wait alrm \<Rightarrow>
          (case cqueue s of
             [] \<Rightarrow> if alrm \<and> c then Some (say [Timed_out] (s\<lparr>dpc := Line\<rparr>)) else None
           | (a, d) # q \<Rightarrow> Some (s\<lparr>cqueue := q, dpc := Got alrm (take MAXLINE d)\<rparr>))
      | Got alrm recvline \<Rightarrow>
          Some (if alrm \<and> c then s\<lparr>dpc := Got False recvline\<rparr> else say [Echoed (c_string recvline)] (s\<lparr>dpc := Line\<rparr>))
      | _ \<Rightarrow> None)"

section \<open>The network\<close>

record net =
  lossy :: bool
  reorders :: bool
  repeats :: bool
  foreign :: bool
  conn :: bool

inductive net_move :: "net \<Rightarrow> 'a list \<Rightarrow> 'a list \<Rightarrow> bool" for n :: net where
  lose: "lossy n \<Longrightarrow> net_move n (xs @ d # ys) (xs @ ys)"
| swap: "reorders n \<Longrightarrow> net_move n (xs @ d # e # ys) (xs @ e # d # ys)"
| twice: "repeats n \<Longrightarrow> net_move n (xs @ d # ys) (xs @ d # d # ys)"

inductive ustep :: "net \<Rightarrow> (bool \<Rightarrow> udp_echo \<Rightarrow> udp_echo option) \<Rightarrow> (udp_echo \<Rightarrow> udp_echo option) \<Rightarrow> udp_echo \<Rightarrow> udp_echo \<Rightarrow> bool"
  for n :: net and cli :: "bool \<Rightarrow> udp_echo \<Rightarrow> udp_echo option" and srv :: "udp_echo \<Rightarrow> udp_echo option" where
  uclient: "cli c s = Some s' \<Longrightarrow> ustep n cli srv s s'"
| userver: "srv s = Some s' \<Longrightarrow> ustep n cli srv s s'"
| uthere: "forth s = d # ds \<Longrightarrow> ustep n cli srv s (s\<lparr>forth := ds, squeue := squeue s @ [d]\<rparr>)"
| uhome: "homeward s = d # ds \<Longrightarrow> ustep n cli srv s (s\<lparr>homeward := ds, cqueue := cqueue s @ [(0, d)]\<rparr>)"
| uforth: "net_move n (forth s) ds \<Longrightarrow> ustep n cli srv s (s\<lparr>forth := ds\<rparr>)"
| uback: "net_move n (homeward s) ds \<Longrightarrow> ustep n cli srv s (s\<lparr>homeward := ds\<rparr>)"
| uforeign: "foreign n \<Longrightarrow> a \<noteq> 0 \<Longrightarrow> ustep n cli srv s (if conn n then s else s\<lparr>cqueue := cqueue s @ [(a, d)]\<rparr>)"

inductive ureach :: "net \<Rightarrow> (bool \<Rightarrow> udp_echo \<Rightarrow> udp_echo option) \<Rightarrow> (udp_echo \<Rightarrow> udp_echo option) \<Rightarrow> cfile \<Rightarrow> udp_echo \<Rightarrow> bool"
  for n :: net and cli :: "bool \<Rightarrow> udp_echo \<Rightarrow> udp_echo option" and srv :: "udp_echo \<Rightarrow> udp_echo option" and f :: cfile where
  ustart: "ureach n cli srv f (udp_init f)"
| umore: "ureach n cli srv f s \<Longrightarrow> ustep n cli srv s s' \<Longrightarrow> ureach n cli srv f s'"

section \<open>What comes through a network\<close>

definition through :: "net \<Rightarrow> 'a list \<Rightarrow> 'a list \<Rightarrow> bool" where
  "through n xs ys \<longleftrightarrow> set xs \<subseteq> set ys \<and>
     (repeats n \<or> mset xs \<subseteq># mset ys \<and> (reorders n \<or> subseq xs ys \<and> (lossy n \<or> xs = ys)))"

lemma through_refl [simp]: "through n xs xs"
  by (simp add: through_def)

lemma through_append: "through n xs ys \<Longrightarrow> through n (xs @ zs) (ys @ zs)"
  by (auto simp: through_def)

lemma net_move_middle: "net_move n xs ys \<Longrightarrow> net_move n (as @ xs @ bs) (as @ ys @ bs)"
proof (induction rule: net_move.induct)
  case (lose xs d ys)
  then show ?case using net_move.lose [of n "as @ xs" d "ys @ bs"] by simp
next
  case (swap xs d e ys)
  then show ?case using net_move.swap [of n "as @ xs" d e "ys @ bs"] by simp
next
  case (twice xs d ys)
  then show ?case using net_move.twice [of n "as @ xs" d "ys @ bs"] by simp
qed

lemma through_move:
  assumes "net_move n xs zs" and "through n xs ys"
  shows "through n zs ys"
  using assms
proof (induction rule: net_move.induct)
  case (lose xs d zs)
  have sub: "subseq (xs @ zs) (xs @ d # zs)" by (intro list_emb_append_mono) auto
  have ms: "mset (xs @ zs) \<subseteq># mset (xs @ d # zs)" "set (xs @ zs) \<subseteq> set (xs @ d # zs)" by auto
  with lose show ?case
    unfolding through_def using subseq_order.trans [OF sub] subset_mset.order_trans [OF ms(1)] by blast
next
  case (swap xs d e zs)
  have same: "mset (xs @ e # d # zs) = mset (xs @ d # e # zs)" "set (xs @ e # d # zs) = set (xs @ d # e # zs)" by auto
  from swap show ?case unfolding through_def same by blast
qed (auto simp: through_def)

lemma through_prefix: "through n (xs @ zs) ys \<Longrightarrow> set xs \<subseteq> set ys \<and>
   (repeats n \<or> mset xs \<subseteq># mset ys \<and> (reorders n \<or> subseq xs ys \<and> (lossy n \<or> prefix xs ys)))"
proof -
  assume t: "through n (xs @ zs) ys"
  have sub: "subseq xs (xs @ zs)" using list_emb_append_mono [OF subseq_order.refl, of "[]" zs xs] by simp
  have ms: "mset xs \<subseteq># mset (xs @ zs)" "set xs \<subseteq> set (xs @ zs)" by auto
  with t show ?thesis
    unfolding through_def prefix_def using subseq_order.trans [OF sub] subset_mset.order_trans [OF ms(1)] by blast
qed

section \<open>What a client does with the replies\<close>

definition payload :: "char list \<Rightarrow> bool" where
  "payload d \<longleftrightarrow> length d < MAXLINE \<and> NUL \<notin> set d"

fun echoed :: "said list \<Rightarrow> char list list" where
  "echoed [] = []"
| "echoed (Echoed d # ms) = d # echoed ms"
| "echoed (m # ms) = echoed ms"

fun hand :: "dpc \<Rightarrow> char list list" where
  "hand (Got _ d) = [d]"
| "hand _ = []"

definition replies_in :: "(nat \<Rightarrow> bool) \<Rightarrow> udp_echo \<Rightarrow> char list list" where
  "replies_in trusts s = echoed (screen s) @ hand (dpc s) @ map snd (filter (trusts \<circ> fst) (cqueue s))"

definition on_the_way :: "udp_echo \<Rightarrow> char list list" where
  "on_the_way s = homeward s @ (case mesg s of None \<Rightarrow> [] | Some m \<Rightarrow> [m]) @ squeue s @ forth s"

definition wire :: "(nat \<Rightarrow> bool) \<Rightarrow> udp_echo \<Rightarrow> char list list" where
  "wire trusts s = replies_in trusts s @ on_the_way s"

definition wire_ok :: "(nat \<Rightarrow> bool) \<Rightarrow> net \<Rightarrow> udp_echo \<Rightarrow> bool" where
  "wire_ok trusts n s \<longleftrightarrow> (\<forall>d \<in> set (sent_lines s). payload d) \<and> through n (wire trusts s) (sent_lines s)"

lemma echoed_append [simp]: "echoed (as @ bs) = echoed as @ echoed bs"
  by (induction as rule: echoed.induct) auto

lemma fgets_payload: "fgets MAXLINE f = Some (l, f') \<Longrightarrow> payload (c_string l)"
proof -
  assume "fgets MAXLINE f = Some (l, f')"
  then obtain cs where "l = line_of 4095 cs" by (cases f) (auto simp: fgets_def Let_def split: if_splits)
  moreover have "length (line_of k cs) \<le> k" for k cs by (induction k cs rule: line_of.induct) auto
  ultimately have "length l \<le> 4095" by simp
  moreover have "length (c_string l) \<le> length l" by (simp add: c_string_def length_takeWhile_le)
  moreover have "NUL \<notin> set (c_string l)" by (auto simp: c_string_def dest: set_takeWhileD)
  ultimately show ?thesis by (simp add: payload_def)
qed

lemma payload_kept: "payload d \<Longrightarrow> take MAXLINE d = d" "payload d \<Longrightarrow> c_string d = d"
  by (simp_all add: payload_def c_string_id)

text \<open>
  What the clients have in common: a client takes replies from its queue in order, shows those of the peers it trusts, and adds a line to
  the datagrams that are under way exactly when it has taken it from its input.
\<close>

locale dg_client =
  fixes cli :: "bool \<Rightarrow> udp_echo \<Rightarrow> udp_echo option" and trusts :: "nat \<Rightarrow> bool"
  assumes trusts_server: "trusts 0"
    and client_keeps: "cli c s = Some s' \<Longrightarrow> (\<forall>d \<in> set (replies_in trusts s). payload d) \<Longrightarrow>
      \<exists>new. (\<forall>d \<in> set new. payload d) \<and> sent_lines s' = sent_lines s @ new \<and> forth s' = forth s @ new \<and>
        replies_in trusts s' = replies_in trusts s \<and> squeue s' = squeue s \<and> mesg s' = mesg s \<and> homeward s' = homeward s"
begin

lemma wire_payload: "wire_ok trusts n s \<Longrightarrow> d \<in> set (wire trusts s) \<Longrightarrow> payload d"
  by (auto simp: wire_ok_def through_def)

lemma wire_same: "wire trusts s' = wire trusts s \<Longrightarrow> sent_lines s' = sent_lines s \<Longrightarrow> wire_ok trusts n s \<Longrightarrow> wire_ok trusts n s'"
  by (simp add: wire_ok_def)

lemma wire_move: "wire trusts s = xs @ ys @ zs \<Longrightarrow> net_move n ys ys' \<Longrightarrow> wire trusts s' = xs @ ys' @ zs \<Longrightarrow> sent_lines s' = sent_lines s \<Longrightarrow> wire_ok trusts n s \<Longrightarrow> wire_ok trusts n s'"
  using through_move [OF net_move_middle, of n ys ys' xs zs "sent_lines s"] by (simp add: wire_ok_def)

lemma wire_step:
  assumes "ustep n cli dg_echo s s'" and "wire_ok trusts n s" and "foreign n \<longrightarrow> conn n \<or> (\<forall>a. a \<noteq> 0 \<longrightarrow> \<not> trusts a)"
  shows "wire_ok trusts n s'"
  using assms
proof (induction rule: ustep.induct)
  case (uclient c s s')
  have "\<forall>d \<in> set (replies_in trusts s). payload d" using wire_payload [OF uclient(2)] by (auto simp: wire_def)
  from client_keeps [OF uclient(1) this] obtain new where
    new: "\<forall>d \<in> set new. payload d" "sent_lines s' = sent_lines s @ new" "wire trusts s' = wire trusts s @ new"
    by (auto simp: wire_def on_the_way_def)
  with uclient(2) through_append [of n "wire trusts s" "sent_lines s" new] show ?case by (auto simp: wire_ok_def)
next
  case (userver s s')
  show ?case
  proof (rule wire_same [OF _ _ userver(2)])
    have "take MAXLINE d = d" if "d \<in> set (squeue s)" for d
      using that payload_kept(1) wire_payload [OF userver(2), of d] by (auto simp: wire_def on_the_way_def)
    with userver(1) show "wire trusts s' = wire trusts s" "sent_lines s' = sent_lines s"
      by (auto simp: dg_echo_def echo_with_def wire_def replies_in_def on_the_way_def split: option.splits list.splits)
  qed
next
  case (uthere s d ds)
  then show ?case by (intro wire_same [OF _ _ uthere(2)]) (auto simp: wire_def replies_in_def on_the_way_def)
next
  case (uhome s d ds)
  then show ?case by (intro wire_same [OF _ _ uhome(2)]) (auto simp: wire_def replies_in_def on_the_way_def trusts_server)
next
  case (uforth s ds)
  then show ?case
    by (intro wire_move [OF _ uforth(1) _ _ uforth(2), where xs = "replies_in trusts s @ homeward s @ (case mesg s of None \<Rightarrow> [] | Some m \<Rightarrow> [m]) @ squeue s" and zs = "[]"])
      (auto simp: wire_def replies_in_def on_the_way_def)
next
  case (uback s ds)
  then show ?case
    by (intro wire_move [OF _ uback(1) _ _ uback(2), where xs = "replies_in trusts s" and zs = "(case mesg s of None \<Rightarrow> [] | Some m \<Rightarrow> [m]) @ squeue s @ forth s"])
      (auto simp: wire_def replies_in_def on_the_way_def)
next
  case (uforeign a s d)
  then show ?case by (intro wire_same [OF _ _ uforeign(3)]) (auto simp: wire_def replies_in_def on_the_way_def)
qed

lemma wire_reach:
  assumes "ureach n cli dg_echo f s" and "foreign n \<longrightarrow> conn n \<or> (\<forall>a. a \<noteq> 0 \<longrightarrow> \<not> trusts a)"
  shows "wire_ok trusts n s"
  using assms(1)
proof (induction rule: ureach.induct)
  case ustart
  show ?case by (simp add: wire_ok_def wire_def replies_in_def on_the_way_def udp_init_def)
next
  case (umore s s')
  from wire_step [OF umore.hyps(2) umore.IH assms(2)] show ?case .
qed

end

lemmas dg_simps = send_line_def recv_reply_def say_def replies_in_def payload_kept fgets_payload

interpretation plain: dg_client dg_cli "\<lambda>a. True"
  by unfold_locales (auto simp: dg_cli_def dg_simps split: dpc.splits option.splits list.splits prod.splits)

lemma recv_reply_keeps:
  assumes "recv_reply f s = Some s'" and "\<forall>d \<in> set (replies_in trusts s). payload d" and "hand (dpc s) = []"
    and "\<And>a d t. f a d t = say (ms a d) t" and "\<And>a d. echoed (ms a d) = (if trusts a then [c_string d] else [])"
  shows "sent_lines s' = sent_lines s \<and> forth s' = forth s \<and> replies_in trusts s' = replies_in trusts s \<and> squeue s' = squeue s \<and>
    mesg s' = mesg s \<and> homeward s' = homeward s"
proof -
  from assms(1) obtain a d q where q: "cqueue s = (a, d) # q" "s' = f a (take MAXLINE d) (s\<lparr>cqueue := q, dpc := Line\<rparr>)"
    by (auto simp: recv_reply_def split: list.splits)
  have "payload d" if "trusts a" using assms(2) that q(1) by (simp add: replies_in_def)
  with q assms(3,4,5) show ?thesis by (simp add: replies_in_def say_def payload_kept)
qed

interpretation addr: dg_client dgcliaddr "\<lambda>a. a = 0"
proof
  fix c s s'
  assume c: "dgcliaddr c s = Some s'" and r: "\<forall>d \<in> set (replies_in (\<lambda>a. a = 0) s). payload d"
  let ?f = "\<lambda>a recvline. if a \<noteq> 0 then say [Ignored a] else say [Echoed (c_string recvline)]"
  consider "dpc s = Line" "s' = send_line (Wait False) s" | b where "dpc s = Wait b" "recv_reply ?f s = Some s'"
    using c by (auto simp: dgcliaddr_def split: dpc.splits)
  then show "\<exists>new. (\<forall>d \<in> set new. payload d) \<and> sent_lines s' = sent_lines s @ new \<and> forth s' = forth s @ new \<and>
      replies_in (\<lambda>a. a = 0) s' = replies_in (\<lambda>a. a = 0) s \<and> squeue s' = squeue s \<and> mesg s' = mesg s \<and> homeward s' = homeward s"
  proof cases
    case 1
    then show ?thesis by (auto simp: dg_simps split: option.splits)
  next
    case 2
    from recv_reply_keeps [OF 2(2) r, where ms = "\<lambda>a d. if a \<noteq> 0 then [Ignored a] else [Echoed (c_string d)]"] 2(1) show ?thesis
      by (intro exI [of _ "[]"]) simp
  qed
qed simp

interpretation inetaddr: dg_client dgcliinetaddr "\<lambda>a. True"
  by unfold_locales (auto simp: dgcliinetaddr_def dg_simps split: dpc.splits option.splits list.splits prod.splits)

interpretation connected: dg_client dgcliconnect "\<lambda>a. True"
  by unfold_locales (auto simp: dgcliconnect_def dg_simps split: dpc.splits option.splits list.splits prod.splits)

interpretation timeo: dg_client dgclitimeo "\<lambda>a. True"
  by unfold_locales (auto simp: dgclitimeo_def dg_simps readable_timeo_def split: dpc.splits option.splits list.splits prod.splits bool.splits)

interpretation timeo1: dg_client dgclitimeo1 "\<lambda>a. True"
  by unfold_locales (auto simp: dgclitimeo1_def dg_simps readable_timeo_def split: dpc.splits option.splits list.splits prod.splits if_splits)

interpretation timeo2: dg_client dgclitimeo2 "\<lambda>a. True"
  by unfold_locales (auto simp: dgclitimeo2_def dg_simps split: dpc.splits option.splits list.splits prod.splits if_splits)

interpretation timeo3: dg_client dgclitimeo3 "\<lambda>a. True"
  by unfold_locales (auto simp: dgclitimeo3_def dg_simps split: dpc.splits option.splits list.splits prod.splits if_splits)

section \<open>The plain client on a perfect network\<close>

definition perfect :: net where
  "perfect = \<lparr>lossy = False, reorders = False, repeats = False, foreign = False, conn = False\<rparr>"

definition lockstep :: "char list \<Rightarrow> udp_echo \<Rightarrow> bool" where
  "lockstep cs s \<longleftrightarrow> concat (sent_lines s) @ fst (fp s) = cs \<and> \<not> snd (fp s) \<and>
     (case dpc s of
        Line \<Rightarrow> length (sent_lines s) = length (echoed (screen s))
      | Wait _ \<Rightarrow> length (sent_lines s) = Suc (length (echoed (screen s)))
      | Finished \<Rightarrow> length (sent_lines s) = length (echoed (screen s)) \<and> fst (fp s) = []
      | _ \<Rightarrow> False)"

lemma fgets_rest: "fgets MAXLINE f = Some (l, f') \<Longrightarrow> l @ fst f' = fst f \<and> snd f' = snd f"
proof -
  have "line_of k cs @ drop (length (line_of k cs)) cs = cs" for k cs by (induction k cs rule: line_of.induct) auto
  then show "fgets MAXLINE f = Some (l, f') \<Longrightarrow> ?thesis" by (cases f) (auto simp: fgets_def Let_def split: if_splits)
qed

lemma fgets_end: "fgets MAXLINE f = None \<Longrightarrow> \<not> snd f \<Longrightarrow> fst f = []"
  by (cases f; cases "fst f") (auto simp: fgets_def Let_def line_of_pos split: if_splits)

lemma lockstep_same:
  "lockstep cs s \<Longrightarrow> dpc s' = dpc s \<Longrightarrow> fp s' = fp s \<Longrightarrow> sent_lines s' = sent_lines s \<Longrightarrow> screen s' = screen s \<Longrightarrow> lockstep cs s'"
  by (simp add: lockstep_def split: dpc.splits)

lemma perfect_foreign [simp]: "\<not> foreign perfect"
  by (simp add: perfect_def)

lemma lockstep_client:
  assumes "dg_cli c s = Some s'" and "lockstep cs s" and "NUL \<notin> set cs"
  shows "lockstep cs s'"
proof (cases "dpc s")
  case Line
  then have s': "s' = send_line (Wait False) s" using assms(1) by (simp add: dg_cli_def)
  show ?thesis
  proof (cases "fgets MAXLINE (fp s)")
    case None
    with s' Line assms(2) fgets_end [OF None] show ?thesis by (auto simp: lockstep_def send_line_def ferror_def)
  next
    case (Some r)
    obtain l f' where r: "r = (l, f')" by (cases r)
    from Some r have rest: "l @ fst f' = fst (fp s)" "snd f' = snd (fp s)" using fgets_rest by auto
    have "set l \<subseteq> set (l @ fst f')" by simp
    then have "set l \<subseteq> set cs" unfolding rest using assms(2) by (auto simp: lockstep_def)
    then have "c_string l = l" using assms(3) by (intro c_string_id) auto
    with s' Line Some r rest assms(2) show ?thesis by (simp add: lockstep_def send_line_def)
  qed
next
  case (Wait b)
  then show ?thesis using assms by (auto simp: lockstep_def dg_cli_def recv_reply_def say_def split: list.splits)
qed (use assms in \<open>auto simp: lockstep_def dg_cli_def\<close>)

lemma perfect_moves [simp]: "\<not> net_move perfect xs ys"
  by (auto simp: perfect_def elim: net_move.cases)

lemma lockstep_step:
  assumes "ustep perfect dg_cli dg_echo s s'" and "lockstep cs s" and "NUL \<notin> set cs"
  shows "lockstep cs s'"
  using assms
proof (induction rule: ustep.induct)
  case (uclient c s s')
  from lockstep_client [OF uclient] show ?case .
next
  case (userver s s')
  then show ?case
    by (intro lockstep_same [OF userver(2)]) (auto simp: dg_echo_def echo_with_def split: option.splits list.splits)
qed (auto intro: lockstep_same)

lemma lockstep_reach: "ureach perfect dg_cli dg_echo (cs, False) s \<Longrightarrow> NUL \<notin> set cs \<Longrightarrow> lockstep cs s"
proof (induction rule: ureach.induct)
  case ustart
  show ?case by (simp add: lockstep_def udp_init_def)
next
  case (umore s s')
  from lockstep_step [OF umore.hyps(2) umore.IH [OF umore.prems] umore.prems] show ?case .
qed

definition udp_work :: "udp_echo \<Rightarrow> nat" where
  "udp_work s = 8 * length (fst (fp s)) + 6 * length (forth s) + 5 * length (squeue s) + (if mesg s = None then 0 else 4) +
     3 * length (homeward s) + 2 * length (cqueue s) + (if dpc s = Line then 1 else 0)"

lemma work_client: "dg_cli c s = Some s' \<Longrightarrow> udp_work s' < udp_work s"
proof (cases "dpc s")
  case Line
  assume "dg_cli c s = Some s'"
  with Line have s': "s' = send_line (Wait False) s" by (simp add: dg_cli_def)
  show ?thesis
  proof (cases "fgets MAXLINE (fp s)")
    case (Some r)
    then obtain l f' where "fgets MAXLINE (fp s) = Some (l, f')" by (cases r) auto
    with s' Line fgets_shrinks [OF this] show ?thesis by (simp add: udp_work_def send_line_def)
  qed (use s' Line in \<open>simp add: udp_work_def send_line_def\<close>)
qed (auto simp: udp_work_def dg_cli_def recv_reply_def say_def split: list.splits)

lemma work_step: "ustep perfect dg_cli dg_echo s s' \<Longrightarrow> udp_work s' < udp_work s"
proof (induction rule: ustep.induct)
  case (uclient c s s')
  then show ?case by (rule work_client)
next
  case (userver s s')
  then show ?case by (auto simp: udp_work_def dg_echo_def echo_with_def split: option.splits list.splits)
qed (auto simp: udp_work_def)

section \<open>Given interleavings\<close>

datatype umove = Cli bool | Srv | There | Home | Lost | Foreign nat "char list"

fun uplay :: "(bool \<Rightarrow> udp_echo \<Rightarrow> udp_echo option) \<Rightarrow> umove list \<Rightarrow> udp_echo \<Rightarrow> udp_echo option" where
  "uplay cli [] s = Some s"
| "uplay cli (Cli c # ms) s = (case cli c s of None \<Rightarrow> None | Some s' \<Rightarrow> uplay cli ms s')"
| "uplay cli (Srv # ms) s = (case dg_echo s of None \<Rightarrow> None | Some s' \<Rightarrow> uplay cli ms s')"
| "uplay cli (There # ms) s =
     (case forth s of [] \<Rightarrow> None | d # ds \<Rightarrow> uplay cli ms (s\<lparr>forth := ds, squeue := squeue s @ [d]\<rparr>))"
| "uplay cli (Home # ms) s =
     (case homeward s of [] \<Rightarrow> None | d # ds \<Rightarrow> uplay cli ms (s\<lparr>homeward := ds, cqueue := cqueue s @ [(0, d)]\<rparr>))"
| "uplay cli (Lost # ms) s = (case forth s of [] \<Rightarrow> None | d # ds \<Rightarrow> uplay cli ms (s\<lparr>forth := ds\<rparr>))"
| "uplay cli (Foreign a d # ms) s = (if a = 0 then None else uplay cli ms (s\<lparr>cqueue := cqueue s @ [(a, d)]\<rparr>))"

lemma uplay_reach:
  assumes "lossy n" and "foreign n" and "\<not> conn n"
  shows "ureach n cli dg_echo f s \<Longrightarrow> uplay cli ms s = Some s' \<Longrightarrow> ureach n cli dg_echo f s'"
proof (induction ms arbitrary: s)
  case (Cons m ms)
  have lose: "net_move n (d # ds) ds" for d :: "char list" and ds using net_move.lose [OF assms(1), of "[]" d ds] by simp
  have far: "ustep n cli dg_echo s (s\<lparr>cqueue := cqueue s @ [(a, d)]\<rparr>)" if "a \<noteq> 0" for a d s
    using uforeign [OF assms(2) that, of cli dg_echo s d] assms(3) by simp
  have gone: "ustep n cli dg_echo s (s\<lparr>forth := ds\<rparr>)" if "forth s = d # ds" for d ds s
    using uforth [of n s ds] lose [of d ds] that by simp
  from Cons.prems(2) obtain t where t: "ustep n cli dg_echo s t" "uplay cli ms t = Some s'"
    by (cases m) (auto intro: uclient userver uthere uhome far gone split: option.splits list.splits if_splits)
  from Cons.IH [OF umore [OF Cons.prems(1) t(1)] t(2)] show ?case .
qed simp

section \<open>Properties\<close>


text \<open>C31. On a network that does nothing wrong the plain client and the server always finish: every step, whichever is taken, comes nearer to the end, and when no step is left the
  client has finished and has printed its input.\<close>

theorem dg_cli_completes:
  assumes "ureach perfect dg_cli dg_echo (cs, False) s" and "NUL \<notin> set cs"
  shows "(\<forall>s'. ustep perfect dg_cli dg_echo s s' \<longrightarrow> udp_work s' < udp_work s) \<and>
    ((\<exists>s'. ustep perfect dg_cli dg_echo s s') \<or> dpc s = Finished \<and> concat (echoed (screen s)) = cs)"
proof (intro conjI allI impI)
  fix s'
  assume "ustep perfect dg_cli dg_echo s s'"
  then show "udp_work s' < udp_work s" by (rule work_step)
next
  have lock: "lockstep cs s" by (rule lockstep_reach [OF assms])
  have "wire_ok (\<lambda>a. True) perfect s" using plain.wire_reach [OF assms(1)] by (simp add: perfect_def)
  then have wire: "echoed (screen s) @ hand (dpc s) @ map snd (cqueue s) @ on_the_way s = sent_lines s"
    by (simp add: wire_ok_def through_def wire_def replies_in_def perfect_def)
  show "(\<exists>s'. ustep perfect dg_cli dg_echo s s') \<or> dpc s = Finished \<and> concat (echoed (screen s)) = cs"
  proof (cases "dpc s")
    case Line
    then have "dg_cli False s = Some (send_line (Wait False) s)" by (simp add: dg_cli_def)
    then show ?thesis by (auto intro: uclient)
  next
    case (Wait b)
    have "length (echoed (screen s)) < length (sent_lines s)" using lock Wait by (simp add: lockstep_def)
    with arg_cong [OF wire, of length] Wait have "cqueue s \<noteq> [] \<or> on_the_way s \<noteq> []" by auto
    then consider "cqueue s \<noteq> []" | "homeward s \<noteq> []" | "mesg s \<noteq> None" | "squeue s \<noteq> []" | "forth s \<noteq> []"
      by (auto simp: on_the_way_def split: option.splits)
    then show ?thesis
    proof cases
      case 1
      then obtain s' where "dg_cli False s = Some s'" using Wait by (cases "cqueue s") (auto simp: dg_cli_def recv_reply_def)
      then show ?thesis by (auto intro: uclient)
    next
      case 2
      then show ?thesis by (cases "homeward s") (auto intro: uhome)
    next
      case 3
      then obtain s' where "dg_echo s = Some s'" by (auto simp: dg_echo_def echo_with_def)
      then show ?thesis by (auto intro: userver)
    next
      case 4
      then obtain s' where "dg_echo s = Some s'" by (cases "squeue s"; cases "mesg s") (auto simp: dg_echo_def echo_with_def)
      then show ?thesis by (auto intro: userver)
    next
      case 5
      then show ?thesis by (cases "forth s") (auto intro: uthere)
    qed
  next
    case Finished
    with lock have fin: "length (sent_lines s) = length (echoed (screen s))" "concat (sent_lines s) = cs" by (auto simp: lockstep_def)
    with arg_cong [OF wire, of length] Finished have "map snd (cqueue s) @ on_the_way s = []" by simp
    with wire Finished fin show ?thesis by simp
  qed (use lock in \<open>simp_all add: lockstep_def\<close>)
qed

lemmas uplay_simps = udp_init_def dg_cli_def dgcliaddr_def dgclitimeo_def dgclitimeo3_def send_line_def recv_reply_def say_def readable_timeo_def
  dg_echo_def echo_with_def fgets_def Let_def line_of_pos c_string_def

definition careless :: net where
  "careless = \<lparr>lossy = True, reorders = False, repeats = False, foreign = True, conn = False\<rparr>"

definition two_lines_in :: cfile where
  "two_lines_in = ([CHR ''a'', newline, CHR ''b'', newline], False)"


theorem dg_cli_completes_witness:
  "(\<exists>s'. ustep perfect dg_cli dg_echo (udp_init two_lines_in) s') \<or>
     dpc (udp_init two_lines_in) = Finished \<and> concat (echoed (screen (udp_init two_lines_in))) = fst two_lines_in"
proof -
  have "ureach perfect dg_cli dg_echo (fst two_lines_in, False) (udp_init two_lines_in)"
    using ustart [of perfect dg_cli dg_echo two_lines_in] by (simp add: two_lines_in_def)
  moreover have "NUL \<notin> set (fst two_lines_in)" by (simp add: two_lines_in_def)
  ultimately show ?thesis using dg_cli_completes by blast
qed


end
