(* ===== verification/Bsd_Ping.thy ===== *)
theory Bsd_Ping
  imports Packet
begin

text \<open>
  \<^verbatim>\<open>unpv13e/ping/bsdping.c\<close>, the \<^verbatim>\<open>ping\<close> of BSD: the pattern of the data, the requests, the statistics with the table of answered
  sequence numbers, the packets printed with their IP options, and the loop with its timer.

  Packets are lists of octets; the receive buffer is given as a whole with the number of octets received, and octets outside of it are undefined.
  The \<^verbatim>\<open>double\<close> times are numbers of microseconds. How wide a \<^verbatim>\<open>long\<close> in a \<^verbatim>\<open>struct timeval\<close> is (4 or 8 octets) is a field of the configuration, since the
  program was written for 4. \<^verbatim>\<open>gethostbyaddr\<close> is a parameter. Signals come while the program waits for a packet.
\<close>

unbundle bit_operations_syntax

section \<open>The table of sequence numbers\<close>

abbreviation (input) MAX_DUP_CHK :: nat where "MAX_DUP_CHK \<equiv> 65536"
abbreviation (input) MAXPACKET :: nat where "MAXPACKET \<equiv> 65468"
abbreviation (input) ICMP_MINLEN :: nat where "ICMP_MINLEN \<equiv> 8"

definition bit_of :: "nat \<Rightarrow> u8" where
  "bit_of b = push_bit (b mod 8) 1"

definition tbl_set :: "nat \<Rightarrow> u8 list \<Rightarrow> u8 list" where
  "tbl_set b t = t[b div 8 := t ! (b div 8) OR bit_of b]"

definition tbl_clr :: "nat \<Rightarrow> u8 list \<Rightarrow> u8 list" where
  "tbl_clr b t = t[b div 8 := t ! (b div 8) AND NOT (bit_of b)]"

definition tbl_tst :: "nat \<Rightarrow> u8 list \<Rightarrow> bool" where
  "tbl_tst b t \<longleftrightarrow> t ! (b div 8) AND bit_of b \<noteq> 0"

section \<open>State\<close>

record bsd_conf =
  tvw :: nat
  datalen :: nat
  ident :: nat
  npackets :: int
  flood :: bool
  numeric :: bool
  quiet :: bool
  verbose :: bool

definition timing :: "bsd_conf \<Rightarrow> bool" where
  "timing cf \<longleftrightarrow> datalen cf \<ge> 2 * tvw cf"

datatype ropt = Lsrr "char list list" | Rr "char list list" | Same_route | Nop | Unknown_option nat

datatype body =
    Backspace
  | Answer nat "nat list" nat nat "int option" bool "(nat \<times> nat \<times> nat) option"
  | Icmp_message nat "char list" "char list"

datatype bline = Dot | Too_short nat | Shown body "ropt list"

record bsd =
  outpack :: "nat list"
  rcvd_tbl :: "u8 list"
  ntransmitted :: int
  nreceived :: int
  nrepeats :: int
  tmin :: int
  tmax :: int
  tsum :: int
  old_rr :: "nat list"
  blines :: "bline list"
  bwire :: "nat list list"
  last_timer :: "int option"

definition outpack0 :: "nat list" where
  "outpack0 = replicate MAXPACKET 0"

lemma length_outpack0 [simp]: "length outpack0 = MAXPACKET"
  by (simp only: outpack0_def length_replicate)

definition bsd_init :: "nat list \<Rightarrow> bsd" where
  "bsd_init pk = \<lparr>outpack = pk, rcvd_tbl = replicate 8192 0, ntransmitted = 0, nreceived = 0, nrepeats = 0, tmin = 999999999000, tmax = 0, tsum = 0,
     old_rr = [], blines = [], bwire = [], last_timer = None\<rparr>"

section \<open>The data sent\<close>

text \<open>\<^verbatim>\<open>fill\<close>: up to sixteen pairs of hexadecimal digits, the last of which may be a single digit, repeated over the packet.\<close>

fun scan_pat :: "nat \<Rightarrow> char list \<Rightarrow> nat list" where
  "scan_pat 0 cs = []"
| "scan_pat (Suc k) [] = []"
| "scan_pat (Suc k) [c] = [the (xdigit_of c)]"
| "scan_pat (Suc k) (c # d # cs) = (the (xdigit_of c) * 16 + the (xdigit_of d)) # scan_pat k cs"

definition put_at :: "nat \<Rightarrow> nat list \<Rightarrow> nat list \<Rightarrow> nat list c_value" where
  "put_at i bs buf = (if i + length bs \<le> length buf then Val (take i buf @ bs @ drop (i + length bs) buf) else UB)"

function fill_loop :: "nat \<Rightarrow> nat \<Rightarrow> nat list \<Rightarrow> nat list \<Rightarrow> nat list c_value" where
  "fill_loop bp kk pat buf =
     (if pat = [] \<or> kk > MAXPACKET - (bp + length pat) then Val buf
      else case put_at (bp + kk) pat buf of
             UB \<Rightarrow> UB
           | Val buf' \<Rightarrow> fill_loop bp (kk + length pat) pat buf')"
  by pat_completeness auto
termination
  by (relation "measure (\<lambda>(bp, kk, pat, buf). MAXPACKET + 1 - kk)") (auto intro!: diff_less_mono2)

declare fill_loop.simps [simp del]

definition fill_data :: "nat \<Rightarrow> char list \<Rightarrow> nat list \<Rightarrow> nat list run c_value" where
  "fill_data w patp buf =
     (if \<not> list_all (\<lambda>c. xdigit_of c \<noteq> None) patp then Val (Exit 1)
      else case fill_loop (8 + 2 * w) 0 (scan_pat 16 patp) buf of UB \<Rightarrow> UB | Val b \<Rightarrow> Val (Ret b))"

text \<open>Without a pattern the octets count up from 8.\<close>

definition default_data :: "bsd_conf \<Rightarrow> nat list \<Rightarrow> nat list c_value" where
  "default_data cf buf = put_at (8 + 2 * tvw cf) (map (\<lambda>i. i mod 256) [8..<datalen cf]) buf"

section \<open>Sending\<close>

text \<open>\<^verbatim>\<open>in_cksum\<close> of this file adds in an \<^verbatim>\<open>int\<close>.\<close>

definition in_cksum_bsd :: "nat list \<Rightarrow> nat c_value" where
  "in_cksum_bsd bs =
     (let sm = sum_list (map unat (words bs)) + (case odd_octet bs of None \<Rightarrow> 0 | Some b \<Rightarrow> unat b) in
      if sm \<ge> 2 ^ 31 then UB
      else let s1 = sm div 65536 + sm mod 65536; s2 = s1 + s1 div 65536
           in Val (65535 - s2 mod 65536))"

definition pinger :: "bsd_conf \<Rightarrow> timeval \<Rightarrow> bsd \<Rightarrow> bsd c_value" where
  "pinger cf now s =
     (let seq = nat (ntransmitted s mod 65536);
          hdr = [ICMP_ECHO, 0, 0, 0] @ put_le16 (ident cf) @ put_le16 seq;
          p1 = hdr @ (if timing cf then put_tv (tvw cf) now @ drop (8 + 2 * tvw cf) (outpack s) else drop 8 (outpack s));
          cc = datalen cf + 8
      in if cc > length (outpack s) then UB
         else case in_cksum_bsd (take cc p1) of
           UB \<Rightarrow> UB
         | Val ck \<Rightarrow>
             let p2 = take 2 p1 @ put_le16 ck @ drop 4 p1 in
             Val (s\<lparr>outpack := p2, ntransmitted := ntransmitted s + 1, rcvd_tbl := tbl_clr (seq mod MAX_DUP_CHK) (rcvd_tbl s),
                    bwire := bwire s @ [take cc p2], blines := blines s @ (if \<not> quiet cf \<and> flood cf then [Dot] else [])\<rparr>))"

section \<open>Texts\<close>

definition hex :: "nat \<Rightarrow> nat \<Rightarrow> char list" where
  "hex n x = (let t = show_base 16 x in replicate (n - length t) (CHR ''0'') @ t)"

definition inet_ntoa :: "nat list \<Rightarrow> char list" where
  "inet_ntoa a = show_quad a"

definition pr_addr :: "(nat list \<Rightarrow> char list option) \<Rightarrow> bsd_conf \<Rightarrow> nat list \<Rightarrow> char list" where
  "pr_addr gethostbyaddr cf a =
     (if numeric cf then inet_ntoa a
      else case gethostbyaddr a of
             None \<Rightarrow> inet_ntoa a
           | Some h_name \<Rightarrow> take 79 (h_name @ '' ('' @ inet_ntoa a @ '')''))"

definition pr_iph :: "nat list \<Rightarrow> nat \<Rightarrow> char list c_value" where
  "pr_iph buf p =
     (if length buf < p + 20 then UB
      else let ip = drop p buf; hlen = ip ! 0 mod 16 * 4; off = le16 (drop 6 ip) in
        if length ip < hlen then UB
        else Val (''Vr HL TOS  Len   ID Flg  off TTL Pro  cks      Src      Dst Data'' @ [newline] @
          '' '' @ hex 1 (ip ! 0 div 16) @ ''  '' @ hex 1 (ip ! 0 mod 16) @ ''  '' @ hex 2 (ip ! 1) @ '' '' @ hex 4 (le16 (drop 2 ip)) @ '' '' @ hex 4 (le16 (drop 4 ip)) @
          ''   '' @ hex 1 (off div 8192) @ '' '' @ hex 4 (off mod 8192) @
          ''  '' @ hex 2 (ip ! 8) @ ''  '' @ hex 2 (ip ! 9) @ '' '' @ hex 4 (le16 (drop 10 ip)) @
          '' '' @ inet_ntoa (take 4 (drop 12 ip)) @ '' '' @ '' '' @ inet_ntoa (take 4 (drop 16 ip)) @ '' '' @
          concat (map (hex 2) (drop 20 (take hlen ip))) @ [newline]))"

definition ports_text :: "char list \<Rightarrow> nat list \<Rightarrow> char list" where
  "ports_text proto cp =
     proto @ '': from port '' @ show_base 10 (be16 cp) @ '', to port '' @ show_base 10 (be16 (drop 2 cp)) @ '' (decimal)'' @ [newline]"

definition pr_retip :: "nat list \<Rightarrow> nat \<Rightarrow> char list c_value" where
  "pr_retip buf p =
     (case pr_iph buf p of
        UB \<Rightarrow> UB
      | Val t \<Rightarrow>
          let hlen = buf ! p mod 16 * 4; proto = buf ! (p + 9); cp = drop (p + hlen) buf in
          if proto \<noteq> 6 \<and> proto \<noteq> 17 then Val t
          else if length cp < 4 then UB
          else Val (t @ ports_text (if proto = 6 then ''TCP'' else ''UDP'') cp))"

definition line :: "char list \<Rightarrow> char list c_value" where
  "line t = Val (t @ [newline])"

definition with_retip :: "char list \<Rightarrow> nat list \<Rightarrow> nat \<Rightarrow> char list c_value" where
  "with_retip t buf p = (case pr_retip buf p of UB \<Rightarrow> UB | Val r \<Rightarrow> Val (t @ [newline] @ r))"

definition pr_icmph :: "nat list \<Rightarrow> nat \<Rightarrow> char list c_value" where
  "pr_icmph buf p =
     (let typ = buf ! p; code = buf ! (p + 1); bad = show_base 10 code in
      if typ = 0 then line ''Echo Reply''
      else if typ = 3 then
        with_retip
          (if code = 0 then ''Destination Net Unreachable''
           else if code = 1 then ''Destination Host Unreachable''
           else if code = 2 then ''Destination Protocol Unreachable''
           else if code = 3 then ''Destination Port Unreachable''
           else if code = 4 then ''frag needed and DF set''
           else if code = 5 then ''Source Route Failed''
           else ''Dest Unreachable, Bad Code: '' @ bad) buf (p + 8)
      else if typ = 4 then with_retip ''Source Quench'' buf (p + 8)
      else if typ = 5 then
        with_retip
          ((if code = 0 then ''Redirect Network''
            else if code = 1 then ''Redirect Host''
            else if code = 2 then ''Redirect Type of Service and Network''
            else if code = 3 then ''Redirect Type of Service and Host''
            else ''Redirect, Bad Code: '' @ bad) @ ''(New addr: 0x'' @ hex 8 (get_le (take 4 (drop (p + 4) buf))) @ '')'') buf (p + 8)
      else if typ = 8 then line ''Echo Request''
      else if typ = 11 then
        with_retip
          (if code = 0 then ''Time to live exceeded''
           else if code = 1 then ''Frag reassembly time exceeded''
           else ''Time exceeded, Bad Code: '' @ bad) buf (p + 8)
      else if typ = 12 then with_retip (''Parameter problem: pointer = 0x'' @ hex 2 (buf ! (p + 4))) buf (p + 8)
      else if typ = 13 then line ''Timestamp''
      else if typ = 14 then line ''Timestamp Reply''
      else if typ = 15 then line ''Information Request''
      else if typ = 16 then line ''Information Reply''
      else if typ = 17 then line ''Address Mask Request''
      else if typ = 18 then line ''Address Mask Reply''
      else line (''Bad ICMP type: '' @ show_base 10 typ))"

section \<open>IP options\<close>

text \<open>\<open>route_loop\<close> reads addresses after position \<open>cp\<close> until \<open>i\<close> octets are used up, at least one. \<open>ip_options\<close> is the loop over the options of a header.\<close>

function route_loop :: "nat list \<Rightarrow> nat \<Rightarrow> nat \<Rightarrow> nat list list c_value" where
  "route_loop buf cp i =
     (if length buf \<le> cp + 4 then UB
      else let a = take 4 (drop (cp + 1) buf) in
        if i \<le> 4 then Val [a]
        else case route_loop buf (cp + 4) (i - 4) of UB \<Rightarrow> UB | Val as \<Rightarrow> Val (a # as))"
  by pat_completeness auto
termination
  by (relation "measure (\<lambda>(buf, cp, i). i)") auto

declare route_loop.simps [simp del]

definition show_route :: "(nat list \<Rightarrow> char list) \<Rightarrow> nat list list \<Rightarrow> char list list" where
  "show_route name as = map (\<lambda>a. if a = [0, 0, 0, 0] then ''0.0.0.0'' else name a) as"

abbreviation (input) IPOPT_MINOFF :: nat where "IPOPT_MINOFF \<equiv> 4"
abbreviation (input) MAX_IPOPTLEN :: nat where "MAX_IPOPTLEN \<equiv> 40"

function ip_options :: "(nat list \<Rightarrow> char list) \<Rightarrow> bool \<Rightarrow> nat list \<Rightarrow> nat \<Rightarrow> int \<Rightarrow> nat list \<Rightarrow> (ropt list \<times> nat list) c_value" where
  "ip_options name fl buf cp hlen old =
     (if hlen \<le> 20 then Val ([], old)
      else if length buf \<le> cp then UB
      else let more = (\<lambda>opts used old'.
             (case ip_options name fl buf (cp + used + 1) (hlen - int used - 1) old' of
                UB \<Rightarrow> UB
              | Val (os, old'') \<Rightarrow> Val (opts @ os, old'')))
      in
        if buf ! cp = 0 then Val ([], old)
        else if buf ! cp = 131 then
          if length buf \<le> cp + 1 then UB
          else if buf ! (cp + 1) \<le> IPOPT_MINOFF then more [Lsrr []] 2 old
          else case route_loop buf (cp + 2) (buf ! (cp + 1) - 4) of
                 UB \<Rightarrow> UB
               | Val as \<Rightarrow> more [Lsrr (show_route name as)] (2 + 4 * length as) old
        else if buf ! cp = 7 then
          if length buf \<le> cp + 2 then UB
          else let i = min (buf ! (cp + 2)) (buf ! (cp + 1)) - IPOPT_MINOFF; route = take i (drop (cp + 2) buf) in
            if i = 0 then more [] 2 old
            else if i = length old \<and> cp + 2 = 22 \<and> length buf < cp + 2 + i then UB
            else if i = length old \<and> cp + 2 = 22 \<and> route = old \<and> \<not> fl then more [Same_route] (2 + (i + 3) div 4 * 4) old
            else if i > MAX_IPOPTLEN \<or> length buf < cp + 2 + i then UB
            else (case route_loop buf (cp + 2) i of
                    UB \<Rightarrow> UB
                  | Val as \<Rightarrow> more [Rr (show_route name as)] (2 + 4 * length as) route)
        else if buf ! cp = 1 then more [Nop] 0 old
        else more [Unknown_option (buf ! cp)] 0 old)"
  by pat_completeness auto
termination
  by (relation "measure (\<lambda>(name, fl, buf, cp, hlen, old). nat hlen)") auto

declare ip_options.simps [simp del]

section \<open>Receiving\<close>

text \<open>The first octet of the data that is not as sent: its number, what it should be and what it is.\<close>

fun check_data :: "nat list \<Rightarrow> nat list \<Rightarrow> nat \<Rightarrow> (nat \<times> nat \<times> nat) option" where
  "check_data (c # cs) (d # ds) i = (if c \<noteq> d then Some (i, d, c) else check_data cs ds (i + 1))"
| "check_data _ _ i = None"

definition count_reply :: "bsd_conf \<Rightarrow> nat \<Rightarrow> int \<Rightarrow> bsd \<Rightarrow> bool \<times> bsd" where
  "count_reply cf seq triptime s =
     (let s1 = s\<lparr>nreceived := nreceived s + 1\<rparr>;
          s2 = (if timing cf then s1\<lparr>tsum := tsum s + triptime, tmin := (if triptime < tmin s then triptime else tmin s),
                                     tmax := (if triptime > tmax s then triptime else tmax s)\<rparr> else s1);
          b = seq mod MAX_DUP_CHK
      in if tbl_tst b (rcvd_tbl s) then (True, s2\<lparr>nrepeats := nrepeats s2 + 1, nreceived := nreceived s2 - 1\<rparr>)
         else (False, s2\<lparr>rcvd_tbl := tbl_set b (rcvd_tbl s2)\<rparr>))"

definition show_options :: "(nat list \<Rightarrow> char list) \<Rightarrow> bsd_conf \<Rightarrow> nat list \<Rightarrow> body \<Rightarrow> bsd \<Rightarrow> bsd c_value" where
  "show_options name cf buf b s =
     (case ip_options name (flood cf) buf 20 (int (buf ! 0 mod 16 * 4)) (old_rr s) of
        UB \<Rightarrow> UB
      | Val (opts, old) \<Rightarrow> Val (s\<lparr>old_rr := old, blines := blines s @ [Shown b opts]\<rparr>))"

definition pr_pack :: "(nat list \<Rightarrow> char list option) \<Rightarrow> bsd_conf \<Rightarrow> nat list \<Rightarrow> nat \<Rightarrow> nat list \<Rightarrow> timeval \<Rightarrow> bsd \<Rightarrow> bsd c_value" where
  "pr_pack gethostbyaddr cf buf cc src now s =
     (let hlen = buf ! 0 mod 16 * 4; name = pr_addr gethostbyaddr cf in
      if cc < hlen + ICMP_MINLEN then Val (s\<lparr>blines := blines s @ (if verbose cf then [Too_short cc] else [])\<rparr>)
      else let cc' = cc - hlen; icmp = drop hlen buf in
      if icmp ! 0 = ICMP_ECHOREPLY then
        if le16 (drop 4 icmp) \<noteq> ident cf then Val s
        else if timing cf \<and> length icmp < 8 + 2 * tvw cf then UB
        else
          let triptime = micros (tv_sub now (get_tv (tvw cf) (drop 8 icmp))); seq = le16 (drop 6 icmp);
              (dup, s') = count_reply cf seq triptime s
          in
            if quiet cf then Val s'
            else if flood cf then show_options name cf buf Backspace s'
            else if length icmp < 8 + datalen cf \<or> length (outpack s) < 2 * tvw cf + datalen cf then UB
            else show_options name cf buf
                   (Answer cc' src seq (buf ! 8) (if timing cf then Some triptime else None) dup
                     (check_data (take (datalen cf - 8) (drop 16 icmp)) (drop (8 + 2 * tvw cf) (outpack s)) 8)) s'
      else if \<not> verbose cf then Val s
      else case pr_icmph buf hlen of
             UB \<Rightarrow> UB
           | Val t \<Rightarrow> show_options name cf buf (Icmp_message cc' (name src) t) s)"

section \<open>Signals, the summary and the loop\<close>

datatype loss = No_packets | Somebody_printing | Percent int

record statistics =
  st_transmitted :: int
  st_received :: int
  st_repeats :: int
  st_loss :: loss
  st_times :: "(int \<times> int \<times> int) option"

definition summary :: "bsd_conf \<Rightarrow> bsd \<Rightarrow> statistics" where
  "summary cf s =
     \<lparr>st_transmitted = ntransmitted s, st_received = nreceived s, st_repeats = nrepeats s,
      st_loss = (if ntransmitted s = 0 then No_packets
                 else if nreceived s > ntransmitted s then Somebody_printing
                 else Percent ((ntransmitted s - nreceived s) * 100 div ntransmitted s)),
      st_times = (if nreceived s \<noteq> 0 \<and> timing cf then Some (tmin s, tsum s div (nreceived s + nrepeats s), tmax s) else None)\<rparr>"

text \<open>When all packets are sent the timer is set for the last time, to end the program.\<close>

definition onalrm :: "bsd_conf \<Rightarrow> timeval \<Rightarrow> bsd \<Rightarrow> bsd c_value" where
  "onalrm cf now s =
     (if npackets cf = 0 \<or> ntransmitted s < npackets cf then pinger cf now s
      else let sec = 2 * tmax s div 1000000 in
        Val (s\<lparr>last_timer := Some (if nreceived s \<noteq> 0 then (if sec = 0 then 1 else sec) else 10)\<rparr>))"

datatype bsd_event = Alarm timeval | Packet "nat list" nat "nat list" timeval | Recv_error | Interrupt

datatype bsd_run = Running bsd | Ended int statistics bsd | Undefined_run

definition bsd_step :: "(nat list \<Rightarrow> char list option) \<Rightarrow> bsd_conf \<Rightarrow> bsd_event \<Rightarrow> bsd \<Rightarrow> bsd_run" where
  "bsd_step ghba cf ev s =
     (case ev of
        Alarm now \<Rightarrow>
          if last_timer s \<noteq> None then Ended 1 (summary cf s) s
          else (case onalrm cf now s of UB \<Rightarrow> Undefined_run | Val s' \<Rightarrow> Running s')
      | Packet buf cc src now \<Rightarrow>
          (case pr_pack ghba cf buf cc src now s of
             UB \<Rightarrow> Undefined_run
           | Val s' \<Rightarrow>
               if npackets cf \<noteq> 0 \<and> nreceived s' \<ge> npackets cf then Ended (if nreceived s' = 0 then 1 else 0) (summary cf s') s'
               else Running s')
      | Recv_error \<Rightarrow> Running s
      | Interrupt \<Rightarrow> Ended 1 (summary cf s) s)"

fun bsd_loop :: "(nat list \<Rightarrow> char list option) \<Rightarrow> bsd_conf \<Rightarrow> bsd_event list \<Rightarrow> bsd \<Rightarrow> bsd_run" where
  "bsd_loop ghba cf [] s = Running s"
| "bsd_loop ghba cf (ev # evs) s = (case bsd_step ghba cf ev s of Running s' \<Rightarrow> bsd_loop ghba cf evs s' | r \<Rightarrow> r)"

text \<open>Packets sent ahead, and an iteration of the loop with \<^verbatim>\<open>-f\<close>, which sends before it looks for a packet (\<open>None\<close> when \<^verbatim>\<open>select\<close> finds none).\<close>

fun preload :: "bsd_conf \<Rightarrow> timeval list \<Rightarrow> bsd \<Rightarrow> bsd c_value" where
  "preload cf [] s = Val s"
| "preload cf (now # nows) s = (case pinger cf now s of UB \<Rightarrow> UB | Val s' \<Rightarrow> preload cf nows s')"

definition flood_step :: "(nat list \<Rightarrow> char list option) \<Rightarrow> bsd_conf \<Rightarrow> timeval \<Rightarrow> bsd_event option \<Rightarrow> bsd \<Rightarrow> bsd_run" where
  "flood_step ghba cf now ev s =
     (case pinger cf now s of
        UB \<Rightarrow> Undefined_run
      | Val s' \<Rightarrow> (case ev of None \<Rightarrow> Running s' | Some e \<Rightarrow> bsd_step ghba cf e s'))"

section \<open>The table is a set of numbers\<close>

definition tbl_abs :: "u8 list \<Rightarrow> nat set" where
  "tbl_abs t = {b. b < 8 * length t \<and> tbl_tst b t}"

lemma tbl_tst_bit: "tbl_tst b t \<longleftrightarrow> bit (t ! (b div 8)) (b mod 8)"
  by (simp add: tbl_tst_def bit_of_def push_bit_eq_mult and_exp_eq_0_iff_not_bit)

lemma bit_of_bit: "bit (bit_of b) n \<longleftrightarrow> n = b mod 8"
  using mod_less_divisor [of 8 b] by (auto simp: bit_of_def push_bit_eq_mult bit_exp_iff possible_bit_def)

lemma same_bit: "(b :: nat) div 8 = c div 8 \<Longrightarrow> b mod 8 = c mod 8 \<Longrightarrow> b = c"
  by (metis div_mult_mod_eq)

lemma tbl_set_tst: "b < 8 * length t \<Longrightarrow> tbl_tst c (tbl_set b t) \<longleftrightarrow> c = b \<or> tbl_tst c t"
  by (auto simp: tbl_tst_bit tbl_set_def nth_list_update bit_or_iff bit_of_bit dest: same_bit)

lemma tbl_clr_tst: "b < 8 * length t \<Longrightarrow> tbl_tst c (tbl_clr b t) \<longleftrightarrow> c \<noteq> b \<and> tbl_tst c t"
  by (auto simp: tbl_tst_bit tbl_clr_def nth_list_update bit_and_iff bit_not_iff bit_of_bit possible_bit_def dest: same_bit)

lemma tbl_abs_ops:
  assumes "b < 8 * length t"
  shows "tbl_abs (tbl_set b t) = insert b (tbl_abs t)" and "tbl_abs (tbl_clr b t) = tbl_abs t - {b}" and "b \<in> tbl_abs t \<longleftrightarrow> tbl_tst b t"
    and "length (tbl_set b t) = length t" and "length (tbl_clr b t) = length t"
  using assms by (auto simp: tbl_abs_def tbl_set_tst tbl_clr_tst) (simp_all add: tbl_set_def tbl_clr_def)

section \<open>The checksum agrees with the library's\<close>

lemma in_cksum_bsd_eq: "length bs \<le> 65536 \<Longrightarrow> in_cksum_bsd bs = Val (cksum bs)"
proof -
  assume len: "length bs \<le> 65536"
  have eq: "sum_list (map unat (words bs)) + (case odd_octet bs of None \<Rightarrow> 0 | Some b \<Rightarrow> unat b) = packet_sum bs"
    by (simp add: packet_sum_def word_sum_def byte_value_def)
  have "word_sum (words bs) \<le> 65535 * 32768"
    using word_sum_bound [of "words bs"] length_words [of bs] len by linarith
  with byte_value_bound [of "odd_octet bs"] have "packet_sum bs < 2 ^ 31" by (simp add: packet_sum_def)
  then show ?thesis
    unfolding in_cksum_bsd_def eq Let_def using cksum_value [OF len] by (simp add: fold_nat_def Let_def)
qed

section \<open>The counters\<close>

definition reply_seq :: "bsd_conf \<Rightarrow> nat list \<Rightarrow> nat \<Rightarrow> nat option" where
  "reply_seq cf buf cc =
     (let hlen = buf ! 0 mod 16 * 4; icmp = drop hlen buf in
      if hlen + ICMP_MINLEN \<le> cc \<and> icmp ! 0 = ICMP_ECHOREPLY \<and> le16 (drop 4 icmp) = ident cf then Some (le16 (drop 6 icmp)) else None)"

definition same_counts :: "bsd \<Rightarrow> bsd \<Rightarrow> bool" where
  "same_counts s s' \<longleftrightarrow> ntransmitted s' = ntransmitted s \<and> nreceived s' = nreceived s \<and> nrepeats s' = nrepeats s \<and> rcvd_tbl s' = rcvd_tbl s"

lemma same_counts_refl [simp]: "same_counts s s"
  by (simp add: same_counts_def)

lemma show_options_counts: "show_options name cf buf b s = Val s' \<Longrightarrow> same_counts s s'"
  by (auto simp: show_options_def same_counts_def split: c_value.splits)

lemma pinger_counts:
  "pinger cf now s = Val s' \<Longrightarrow> ntransmitted s' = ntransmitted s + 1 \<and> nreceived s' = nreceived s \<and> nrepeats s' = nrepeats s \<and>
     rcvd_tbl s' = tbl_clr (nat (ntransmitted s mod 65536) mod MAX_DUP_CHK) (rcvd_tbl s)"
  by (auto simp: pinger_def Let_def split: c_value.splits if_splits)

lemma pr_pack_other: "pr_pack ghba cf buf cc src now s = Val s' \<Longrightarrow> reply_seq cf buf cc = None \<Longrightarrow> same_counts s s'"
  by (auto simp: pr_pack_def reply_seq_def Let_def not_less split: if_splits c_value.splits intro: show_options_counts)
    (auto simp: same_counts_def)

lemma pr_pack_reply:
  assumes "pr_pack ghba cf buf cc src now s = Val s'" and "reply_seq cf buf cc = Some q"
  shows "\<exists>t. same_counts (snd (count_reply cf q t s)) s'"
proof -
  let ?icmp = "drop (buf ! 0 mod 16 * 4) buf"
  let ?t = "micros (tv_sub now (get_tv (tvw cf) (drop 8 ?icmp)))"
  from assms(2) have r: "buf ! 0 mod 16 * 4 + 8 \<le> cc" "?icmp ! 0 = 0" "le16 (drop 4 ?icmp) = ident cf" "q = le16 (drop 6 ?icmp)"
    by (auto simp: reply_seq_def Let_def split: if_splits)
  obtain d u where c: "count_reply cf q ?t s = (d, u)" by fastforce
  have "same_counts u s'"
    using assms(1) r c unfolding pr_pack_def Let_def
    by (auto split: if_splits intro: show_options_counts)
  with c show ?thesis by (intro exI [of _ ?t]) simp
qed

definition counts_ok :: "nat list \<Rightarrow> bsd \<Rightarrow> bool" where
  "counts_ok R s \<longleftrightarrow> length (rcvd_tbl s) = 8192 \<and> tbl_abs (rcvd_tbl s) = set R \<and> nreceived s = int (card (set R)) \<and>
     nrepeats s = int (length R) - int (card (set R)) \<and> (\<forall>q \<in> set R. int q < ntransmitted s) \<and> 0 \<le> ntransmitted s"

lemma counts_same: "same_counts s s' \<Longrightarrow> counts_ok R s \<Longrightarrow> counts_ok R s'"
  by (simp add: same_counts_def counts_ok_def)

lemma counts_pinger:
  assumes "pinger cf now s = Val s'" and "counts_ok R s" and "ntransmitted s < 65536"
  shows "counts_ok R s'"
proof -
  let ?q = "nat (ntransmitted s)"
  have q: "nat (ntransmitted s mod 65536) mod MAX_DUP_CHK = ?q" "?q < 65536" using assms(2,3) by (auto simp: counts_ok_def)
  with pinger_counts [OF assms(1)] have p: "rcvd_tbl s' = tbl_clr ?q (rcvd_tbl s)" "ntransmitted s' = ntransmitted s + 1"
    "nreceived s' = nreceived s" "nrepeats s' = nrepeats s" by auto
  have "?q \<notin> set R"
  proof
    assume "?q \<in> set R"
    then have "int ?q < ntransmitted s" "0 \<le> ntransmitted s" using assms(2) unfolding counts_ok_def by blast+
    then show False by simp
  qed
  with assms(2) p tbl_abs_ops(2,5) [of ?q "rcvd_tbl s"] q(2) show ?thesis by (auto simp: counts_ok_def)
qed

lemma counts_reply:
  assumes "same_counts (snd (count_reply cf q t s)) s'" and "counts_ok R s" and "int q < ntransmitted s" and "q < 65536"
  shows "counts_ok (R @ [q]) s'"
proof -
  have len: "q < 8 * length (rcvd_tbl s)" using assms(2,4) by (simp add: counts_ok_def)
  have "tbl_tst q (rcvd_tbl s) \<longleftrightarrow> q \<in> set R" using tbl_abs_ops(3) [OF len] assms(2) by (simp add: counts_ok_def)
  with assms tbl_abs_ops(1,4) [OF len] show ?thesis
    by (auto simp: counts_ok_def same_counts_def count_reply_def Let_def insert_absorb split: if_splits)
qed

section \<open>Runs\<close>

fun seqs :: "bsd_conf \<Rightarrow> bsd_event list \<Rightarrow> nat list" where
  "seqs cf [] = []"
| "seqs cf (Packet buf cc src now # evs) = (case reply_seq cf buf cc of None \<Rightarrow> seqs cf evs | Some q \<Rightarrow> q # seqs cf evs)"
| "seqs cf (_ # evs) = seqs cf evs"

definition sends_more :: "bsd_conf \<Rightarrow> int \<Rightarrow> bool" where
  "sends_more cf k \<longleftrightarrow> npackets cf = 0 \<or> k < npackets cf"

fun sent_after :: "bsd_conf \<Rightarrow> int \<Rightarrow> bsd_event list \<Rightarrow> int" where
  "sent_after cf k [] = k"
| "sent_after cf k (Alarm now # evs) = sent_after cf (if sends_more cf k then k + 1 else k) evs"
| "sent_after cf k (_ # evs) = sent_after cf k evs"

text \<open>Nobody answers a request before it was sent.\<close>

fun honest :: "bsd_conf \<Rightarrow> int \<Rightarrow> bsd_event list \<Rightarrow> bool" where
  "honest cf k [] = True"
| "honest cf k (Packet buf cc src now # evs) \<longleftrightarrow>
     (case reply_seq cf buf cc of None \<Rightarrow> True | Some q \<Rightarrow> int q < k) \<and> honest cf k evs"
| "honest cf k (Alarm now # evs) = honest cf (if sends_more cf k then k + 1 else k) evs"
| "honest cf k (_ # evs) = honest cf k evs"

lemma sent_after_mono: "k \<le> sent_after cf k evs"
proof (induction cf k evs rule: sent_after.induct)
  case (2 cf k now evs)
  then show ?case by (cases "sends_more cf k") auto
qed auto

lemma bsd_step_counts:
  assumes "bsd_step ghba cf ev s = Running s' \<or> (\<exists>c st. bsd_step ghba cf ev s = Ended c st s' \<and> st = summary cf s')"
    and "counts_ok R s" and "honest cf (ntransmitted s) (ev # evs)" and "sent_after cf (ntransmitted s) (ev # evs) \<le> 65536"
    and "\<forall>now. ev = Alarm now \<longrightarrow> last_timer s = None"
  shows "counts_ok (R @ seqs cf [ev]) s' \<and> ntransmitted s' = sent_after cf (ntransmitted s) [ev]"
proof (cases ev)
  case (Alarm now)
  with assms(1,5) have a: "onalrm cf now s = Val s'" by (auto simp: bsd_step_def split: c_value.splits)
  show ?thesis
  proof (cases "sends_more cf (ntransmitted s)")
    case True
    then have p: "pinger cf now s = Val s'" using a by (auto simp: onalrm_def sends_more_def)
    have "ntransmitted s < 65536" using assms(4) Alarm True sent_after_mono [of "ntransmitted s + 1" cf evs] by simp
    with counts_pinger [OF p assms(2)] pinger_counts [OF p] True Alarm show ?thesis by simp
  next
    case False
    then have "same_counts s s'" "ntransmitted s' = ntransmitted s"
      using a by (auto simp: onalrm_def sends_more_def Let_def same_counts_def)
    with counts_same [OF _ assms(2)] False Alarm show ?thesis by simp
  qed
next
  case (Packet buf cc src now)
  with assms(1) have p: "pr_pack ghba cf buf cc src now s = Val s'" by (auto simp: bsd_step_def split: c_value.splits if_splits)
  show ?thesis
  proof (cases "reply_seq cf buf cc")
    case None
    with pr_pack_other [OF p] counts_same assms(2) Packet show ?thesis by (auto simp: same_counts_def)
  next
    case (Some q)
    from pr_pack_reply [OF p Some] obtain t where t: "same_counts (snd (count_reply cf q t s)) s'" ..
    have q: "int q < ntransmitted s" using assms(3) Packet Some by simp
    then have "q < 65536" using assms(4) sent_after_mono [of "ntransmitted s" cf "ev # evs"] by linarith
    with counts_reply [OF t assms(2) q] t Packet Some show ?thesis
      by (auto simp: same_counts_def count_reply_def Let_def split: if_splits)
  qed
next
  case Recv_error
  with assms show ?thesis by (simp add: bsd_step_def)
next
  case Interrupt
  with assms show ?thesis by (auto simp: bsd_step_def)
qed

lemma seqs_Cons: "seqs cf (ev # evs) = seqs cf [ev] @ seqs cf evs"
  by (cases ev) (auto split: option.splits)

lemma sent_after_Cons: "sent_after cf k (ev # evs) = sent_after cf (sent_after cf k [ev]) evs"
  by (cases ev) auto

lemma honest_Cons: "honest cf k (ev # evs) \<Longrightarrow> honest cf (sent_after cf k [ev]) evs"
  by (cases ev) auto

definition reached :: "bsd_conf \<Rightarrow> bsd_run \<Rightarrow> bsd \<Rightarrow> bool" where
  "reached cf r s \<longleftrightarrow> r = Running s \<or> (\<exists>c. r = Ended c (summary cf s) s)"

lemma bsd_loop_counts:
  assumes "reached cf (bsd_loop ghba cf evs s) s'" and "counts_ok R s" and "honest cf (ntransmitted s) evs"
    and "sent_after cf (ntransmitted s) evs \<le> 65536"
  shows "\<exists>n \<le> length evs. counts_ok (R @ seqs cf (take n evs)) s' \<and> ntransmitted s' = sent_after cf (ntransmitted s) (take n evs)"
  using assms
proof (induction evs arbitrary: s R)
  case Nil
  then show ?case by (simp add: reached_def)
next
  case (Cons ev evs)
  show ?case
  proof (cases "\<exists>now. ev = Alarm now \<and> last_timer s \<noteq> None")
    case True
    then have "s' = s" using Cons.prems(1) by (auto simp: reached_def bsd_step_def)
    with Cons.prems(2) show ?thesis by (intro exI [of _ 0]) simp
  next
    case False
    then have alarm: "\<forall>now. ev = Alarm now \<longrightarrow> last_timer s = None" by auto
    note step = bsd_step_counts [OF _ Cons.prems(2-4) alarm]
    show ?thesis
    proof (cases "bsd_step ghba cf ev s")
      case (Running t)
      from step [of ghba t] Running have t: "counts_ok (R @ seqs cf [ev]) t" "ntransmitted t = sent_after cf (ntransmitted s) [ev]" by auto
      have "reached cf (bsd_loop ghba cf evs t) s'" using Cons.prems(1) Running by simp
      from Cons.IH [OF this t(1)] honest_Cons [OF Cons.prems(3)] Cons.prems(4) t(2) sent_after_Cons [of cf "ntransmitted s" ev evs]
      obtain n where "n \<le> length evs" "counts_ok ((R @ seqs cf [ev]) @ seqs cf (take n evs)) s'"
        "ntransmitted s' = sent_after cf (ntransmitted t) (take n evs)" by auto
      with t(2) seqs_Cons [of cf ev "take n evs"] sent_after_Cons [of cf "ntransmitted s" ev "take n evs"] show ?thesis
        by (intro exI [of _ "Suc n"]) simp
    next
      case (Ended c st t)
      with Cons.prems(1) have "t = s'" "st = summary cf s'" by (auto simp: reached_def)
      with step [of ghba s'] Ended show ?thesis by (intro exI [of _ "Suc 0"]) auto
    next
      case Undefined_run
      with Cons.prems(1) show ?thesis by (simp add: reached_def)
    qed
  qed
qed

section \<open>The answer to a request\<close>

definition tv_fits :: "nat \<Rightarrow> timeval \<Rightarrow> bool" where
  "tv_fits w t \<longleftrightarrow> tv_ok t \<and> 0 \<le> tv_sec t \<and> tv_sec t < 256 ^ w"

definition sane :: "bsd_conf \<Rightarrow> bsd \<Rightarrow> bool" where
  "sane cf s \<longleftrightarrow> (tvw cf = 4 \<or> tvw cf = 8) \<and> timing cf \<and> datalen cf \<le> MAXPACKET - 2 * tvw cf \<and> ident cf < 65536 \<and> length (outpack s) = MAXPACKET \<and>
     length (rcvd_tbl s) = 8192 \<and> 0 \<le> ntransmitted s"

definition bsd_request :: "bsd_conf \<Rightarrow> timeval \<Rightarrow> bsd \<Rightarrow> nat list" where
  "bsd_request cf now s =
     (let post = put_le16 (ident cf) @ put_le16 (nat (ntransmitted s mod 65536)) @ put_tv (tvw cf) now @ drop (8 + 2 * tvw cf) (outpack s) in
      [8, 0] @ put_le16 (cksum (take (datalen cf + 8) ([8, 0, 0, 0] @ post))) @ post)"

lemma take_request: "length ck = 2 \<Longrightarrow> take (n + 8) ([8, 0] @ ck @ post) = [8, 0] @ ck @ take (n + 4) post"
proof -
  assume "length ck = 2"
  then have "take (n + 8) (([8, 0] @ ck) @ post) = ([8, 0] @ ck) @ take (n + 8 - 4) post"
    by (subst take_append) (simp del: append_Cons)
  then show ?thesis by (simp add: add.commute)
qed

lemma pinger_sends:
  assumes "sane cf s"
  shows "\<exists>s1. pinger cf now s = Val s1 \<and> outpack s1 = bsd_request cf now s \<and> bwire s1 = bwire s @ [take (datalen cf + 8) (bsd_request cf now s)] \<and>
    rcvd_tbl s1 = tbl_clr (nat (ntransmitted s mod 65536)) (rcvd_tbl s)"
proof -
  let ?seq = "nat (ntransmitted s mod 65536)"
  let ?p1 = "[ICMP_ECHO, 0, 0, 0] @ put_le16 (ident cf) @ put_le16 ?seq @ put_tv (tvw cf) now @ drop (8 + 2 * tvw cf) (outpack s)"
  have "datalen cf + 8 \<le> length (outpack s)" using assms by (auto simp: sane_def)
  moreover have "in_cksum_bsd (take (datalen cf + 8) ?p1) = Val (cksum (take (datalen cf + 8) ?p1))"
    using assms by (intro in_cksum_bsd_eq) (auto simp: sane_def)
  moreover have "?seq mod MAX_DUP_CHK = ?seq" by (simp add: nat_mod_as_int)
  moreover have "timing cf" using assms by (simp add: sane_def)
  ultimately show ?thesis unfolding pinger_def Let_def bsd_request_def by (simp)
qed

lemma bsd_request_verifies:
  assumes "sane cf s"
  shows "cksum (take (datalen cf + 8) (bsd_request cf now s)) = 0" and "length (bsd_request cf now s) = MAXPACKET"
proof -
  let ?post = "put_le16 (ident cf) @ put_le16 (nat (ntransmitted s mod 65536)) @ put_tv (tvw cf) now @ drop (8 + 2 * tvw cf) (outpack s)"
  show "length (bsd_request cf now s) = MAXPACKET" using assms by (auto simp: sane_def bsd_request_def Let_def)
  have "cksum ([8, 0] @ put_le16 (cksum ([8, 0] @ [0, 0] @ take (datalen cf + 4) ?post)) @ take (datalen cf + 4) ?post) = 0"
    using assms by (intro cksum_filled) (auto simp: sane_def)
  then show "cksum (take (datalen cf + 8) (bsd_request cf now s)) = 0"
    using take_request [of "[0, 0]" "datalen cf" ?post] unfolding bsd_request_def Let_def by (subst take_request) simp_all
qed

lemma check_data_same: "check_data (take k xs) xs i = None"
  by (induction xs arbitrary: k i) (auto simp: take_Cons split: nat.splits)

lemma check_data_None: "check_data xs ys i = None \<Longrightarrow> j < length xs \<Longrightarrow> j < length ys \<Longrightarrow> xs ! j = ys ! j"
proof (induction xs ys i arbitrary: j rule: check_data.induct)
  case (1 c cs d ds i)
  then show ?case by (cases j) (auto split: if_splits)
qed auto

lemma le16_append [simp]: "x < 65536 \<Longrightarrow> le16 (put_le16 x @ cs) = x"
  by (simp add: le16_def put_le16_def)

lemma get_tv_append: "get_tv w (put_tv w t @ cs) = get_tv w (put_tv w t)"
  by (simp add: get_tv_def put_tv_def)

text \<open>The datagram that answers a request, in the receive buffer.\<close>

definition answer_to :: "nat list \<Rightarrow> nat list \<Rightarrow> nat list \<Rightarrow> nat list \<Rightarrow> nat list" where
  "answer_to h ck p rest = h @ [ICMP_ECHOREPLY, 0] @ ck @ drop 4 p @ rest"

lemma drop_request:
  assumes "sane cf s"
  shows "drop 4 (take (datalen cf + 8) (bsd_request cf t0 s)) =
    put_le16 (ident cf) @ put_le16 (nat (ntransmitted s mod 65536)) @ put_tv (tvw cf) t0 @
    take (datalen cf - 2 * tvw cf) (drop (8 + 2 * tvw cf) (outpack s))"
proof -
  have "drop 4 ([8, 0] @ ck @ xs) = xs" if "length ck = 2" for ck xs :: "nat list" using that by simp
  moreover have "2 * tvw cf \<le> datalen cf" using assms by (simp add: sane_def timing_def)
  ultimately show ?thesis unfolding bsd_request_def Let_def by (subst take_request) simp_all
qed

lemma drop_header:
  assumes "length a = 2" "length b = 2" "length c = 2" "length tv = n"
  shows "drop (8 + n) ([8, 0] @ a @ b @ c @ tv @ d) = d"
proof -
  have "drop (8 + n) (([8, 0] @ a @ b @ c @ tv) @ d) = d" by (subst drop_append) (simp add: assms)
  then show ?thesis by simp
qed

lemma pr_pack_answer:
  assumes "sane cf s" and "tv_fits (tvw cf) t0" and "\<not> quiet cf" and "\<not> flood cf" and "length h = 20" and "hd h mod 16 = 5" and "length ck = 2"
    and s1: "pinger cf t0 s = Val s1"
    and buf: "buf = answer_to h ck (take (datalen cf + 8) (bsd_request cf t0 s)) rest"
  shows "\<exists>s2. pr_pack ghba cf buf (28 + datalen cf) src now s1 = Val s2 \<and>
    blines s2 = blines s1 @ [Shown (Answer (datalen cf + 8) src (nat (ntransmitted s mod 65536)) (h ! 8) (Some (micros now - micros t0)) False
      (check_data (take (datalen cf - 8) (drop 8 (put_tv (tvw cf) t0 @ take (datalen cf - 2 * tvw cf) (drop (8 + 2 * tvw cf) (outpack s)) @ rest)))
        (drop (8 + 2 * tvw cf) (outpack s)) 8)) []]"
proof -
  let ?w = "tvw cf" and ?seq = "nat (ntransmitted s mod 65536)"
  let ?data = "put_tv ?w t0 @ take (datalen cf - 2 * ?w) (drop (8 + 2 * ?w) (outpack s)) @ rest"
  from pinger_sends [OF assms(1), of t0] s1 have p: "outpack s1 = bsd_request cf t0 s"
    "rcvd_tbl s1 = tbl_clr ?seq (rcvd_tbl s)" by auto
  have sane: "?w = 4 \<or> ?w = 8" "timing cf" "2 * ?w \<le> datalen cf" "datalen cf \<le> MAXPACKET - 2 * ?w" "length (outpack s) = MAXPACKET"
    "ident cf < 65536" "length (rcvd_tbl s) = 8192" using assms(1) by (simp_all add: sane_def timing_def)
  have seq: "?seq < 65536" by (simp add: nat_less_iff)
  have h0: "buf ! 0 mod 16 * 4 = 20" using assms(5,6) buf by (cases h) (auto simp: answer_to_def)
  have ttl: "buf ! 8 = h ! 8" using assms(5) buf by (simp add: answer_to_def nth_append)
  have icmp: "drop 20 buf = [0, 0] @ ck @ put_le16 (ident cf) @ put_le16 ?seq @ ?data"
    using assms(5) buf drop_request [OF assms(1), of t0] by (simp add: answer_to_def)
  have d4: "drop 4 (drop 20 buf) = put_le16 (ident cf) @ put_le16 ?seq @ ?data"
    and d6: "drop 6 (drop 20 buf) = put_le16 ?seq @ ?data" and d8: "drop 8 (drop 20 buf) = ?data"
    and d16: "drop 16 (drop 20 buf) = drop 8 ?data" unfolding icmp using assms(7) by simp_all
  have len: "length (drop 20 buf) = 8 + datalen cf + length rest" unfolding icmp using assms(7) sane by auto
  have "get_tv ?w ?data = t0" using assms(2) sane(1) by (auto simp: get_tv_append get_put_tv tv_fits_def)
  then have trip: "micros (tv_sub now (get_tv ?w (drop 8 (drop 20 buf)))) = micros now - micros t0" unfolding d8 by (simp add: tv_sub_exact)
  have fresh: "\<not> tbl_tst (?seq mod MAX_DUP_CHK) (rcvd_tbl s1)" unfolding p(2) using seq sane(7) by (simp add: tbl_clr_tst)
  have out: "drop (8 + 2 * ?w) (outpack s1) = drop (8 + 2 * ?w) (outpack s)"
    unfolding p(1) bsd_request_def Let_def by (subst drop_header) simp_all
  have opts: "ip_options name fl buf 20 20 old = Val ([], old)" for name fl old by (simp add: ip_options.simps)
  have lout: "length (outpack s1) = MAXPACKET" unfolding p(1) by (rule bsd_request_verifies(2) [OF assms(1)])
  obtain u where u: "count_reply cf ?seq (micros now - micros t0) s1 = (False, u)" "blines u = blines s1" "old_rr u = old_rr s1"
    using fresh by (auto simp: count_reply_def Let_def)
  define wrong where "wrong = check_data (take (datalen cf - 8) (drop 16 (drop 20 buf))) (drop (8 + 2 * ?w) (outpack s1)) 8"
  have wrong: "wrong = check_data (take (datalen cf - 8) (drop 8 ?data)) (drop (8 + 2 * ?w) (outpack s)) 8"
    unfolding wrong_def d16 out by (rule refl)
  let ?answer = "Answer (datalen cf + 8) src ?seq (h ! 8) (Some (micros now - micros t0)) False wrong"
  have i0: "drop 20 buf ! 0 = 0" unfolding icmp by simp
  have bounds: "\<not> length (drop 20 buf) < 8 + 2 * ?w" "\<not> length (drop 20 buf) < 8 + datalen cf" "\<not> length (outpack s1) < 2 * ?w + datalen cf"
    using len sane lout by auto
  have "pr_pack ghba cf buf (28 + datalen cf) src now s1 = show_options (pr_addr ghba cf) cf buf ?answer u"
    unfolding pr_pack_def Let_def h0 d4 d6 trip ttl i0 le16_append [OF sane(6)] le16_append [OF seq] u(1) wrong_def [symmetric]
    using assms(3,4) sane(2) bounds by (simp add: add.commute [of 8] del: length_drop drop_drop)
  also have "\<dots> = Val (u\<lparr>old_rr := old_rr u, blines := blines u @ [Shown ?answer []]\<rparr>)"
    using opts [of "pr_addr ghba cf" "flood cf" "old_rr u"] by (simp add: show_options_def h0)
  finally have "pr_pack ghba cf buf (28 + datalen cf) src now s1 = Val (u\<lparr>old_rr := old_rr u, blines := blines u @ [Shown ?answer []]\<rparr>)" .
  moreover have "blines (u\<lparr>old_rr := old_rr u, blines := blines u @ [Shown ?answer []]\<rparr>) = blines s1 @ [Shown ?answer []]" using u(2) by simp
  ultimately show ?thesis unfolding wrong by blast
qed

section \<open>The pattern\<close>

lemma put_at_nth:
  assumes "put_at i bs buf = Val buf'"
  shows "length buf' = length buf" and "j < length buf \<Longrightarrow> buf' ! j = (if i \<le> j \<and> j < i + length bs then bs ! (j - i) else buf ! j)"
  using assms by (auto simp: put_at_def nth_append split: if_splits)

lemma fill_loop_fills:
  assumes "length buf = MAXPACKET" and "pat \<noteq> []" and "bp + length pat \<le> MAXPACKET" and "kk mod length pat = 0"
    and "\<And>k. k < kk \<Longrightarrow> buf ! (bp + k) = pat ! (k mod length pat)" and "bp + kk \<le> MAXPACKET"
  shows "\<exists>buf'. fill_loop bp kk pat buf = Val buf' \<and> length buf' = MAXPACKET \<and> (\<forall>j < bp. buf' ! j = buf ! j) \<and>
    (\<forall>k. bp + k + length pat \<le> MAXPACKET \<longrightarrow> buf' ! (bp + k) = pat ! (k mod length pat))"
  using assms
proof (induction bp kk pat buf rule: fill_loop.induct)
  case (1 bp kk pat buf)
  show ?case
  proof (cases "kk > MAXPACKET - (bp + length pat)")
    case True
    then have "fill_loop bp kk pat buf = Val buf" by (simp add: fill_loop.simps)
    moreover have "k < kk" if "bp + k + length pat \<le> MAXPACKET" for k using that True by linarith
    ultimately show ?thesis using "1.prems" by (intro exI [of _ buf]) simp
  next
    case False
    let ?n = "length pat"
    have fits: "bp + kk + ?n \<le> MAXPACKET" using False "1.prems"(3) by linarith
    obtain b where b: "put_at (bp + kk) pat buf = Val b" using fits "1.prems"(1) by (simp add: put_at_def)
    note nth = put_at_nth(2) [OF b]
    have "b ! (bp + k) = pat ! (k mod ?n)" if "k < kk + ?n" for k
    proof (cases "k < kk")
      case True
      then show ?thesis using nth [of "bp + k"] fits "1.prems"(1,5) that by simp
    next
      case False
      then have "k mod ?n = k - kk" using that "1.prems"(4) mod_add_left_eq [of kk ?n "k - kk"] by simp
      then show ?thesis using nth [of "bp + k"] False fits "1.prems"(1) that by simp
    qed
    moreover have "(kk + ?n) mod ?n = 0" using "1.prems"(4) by simp
    moreover have "\<not> (pat = [] \<or> kk > MAXPACKET - (bp + ?n))" using False "1.prems"(2) by simp
    ultimately obtain c where c: "fill_loop bp (kk + ?n) pat b = Val c" "length c = MAXPACKET" "\<forall>j < bp. c ! j = b ! j"
      "\<forall>k. bp + k + ?n \<le> MAXPACKET \<longrightarrow> c ! (bp + k) = pat ! (k mod ?n)"
      using "1.IH" [OF _ b] put_at_nth(1) [OF b] "1.prems"(1-3) fits by (auto simp: add.assoc)
    moreover have "fill_loop bp kk pat buf = Val c" using c(1) b False "1.prems"(2) by (simp add: fill_loop.simps [of bp kk])
    moreover have "\<forall>j < bp. b ! j = buf ! j" using nth fits "1.prems"(1) by simp
    ultimately show ?thesis by (intro exI [of _ c]) simp
  qed
qed

lemma scan_pat_length: "length (scan_pat k cs) \<le> k"
  by (induction k cs rule: scan_pat.induct) auto

lemma scan_pat_Nil: "scan_pat 16 cs = [] \<longleftrightarrow> cs = []"
  by (cases cs; cases "tl cs") (auto simp: eval_nat_numeral)

lemma fill_data_fills:
  assumes "w = 4 \<or> w = 8" and "list_all (\<lambda>c. xdigit_of c \<noteq> None) patp" and "patp \<noteq> []" and "length buf = MAXPACKET" and "pat = scan_pat 16 patp"
  shows "\<exists>buf'. fill_data w patp buf = Val (Ret buf') \<and> length buf' = MAXPACKET \<and> (\<forall>j < 8 + 2 * w. buf' ! j = buf ! j) \<and>
    (\<forall>k. 8 + 2 * w + k + length pat \<le> MAXPACKET \<longrightarrow> buf' ! (8 + 2 * w + k) = pat ! (k mod length pat))"
proof -
  have "pat \<noteq> []" "length pat \<le> 16" using assms(3,5) scan_pat_Nil [of patp] scan_pat_length [of 16 patp] by simp_all
  with assms(1,4) fill_loop_fills [of buf pat "8 + 2 * w" 0] obtain buf' where
    "fill_loop (8 + 2 * w) 0 pat buf = Val buf'" "length buf' = MAXPACKET" "\<forall>j < 8 + 2 * w. buf' ! j = buf ! j"
    "\<forall>k. 8 + 2 * w + k + length pat \<le> MAXPACKET \<longrightarrow> buf' ! (8 + 2 * w + k) = pat ! (k mod length pat)" by auto
  with assms(2,5) show ?thesis by (intro exI [of _ buf']) (simp add: fill_data_def)
qed

lemma pinger_lines: "pinger cf now s = Val s1 \<Longrightarrow> \<not> flood cf \<Longrightarrow> blines s1 = blines s"
  by (auto simp: pinger_def Let_def split: c_value.splits if_splits)

section \<open>Properties\<close>

definition cf56 :: bsd_conf where
  "cf56 = \<lparr>tvw = 8, datalen = 56, ident = 9, npackets = 0, flood = False, numeric = True, quiet = False, verbose = False\<rparr>"

lemma counts_init: "counts_ok [] (bsd_init pk)"
proof -
  have "(replicate 8192 0 :: u8 list) ! (b div 8) = 0" if "b < 65536" for b :: nat using that by (intro nth_replicate) simp
  then have "tbl_abs (replicate 8192 0) = {}" by (auto simp: tbl_abs_def tbl_tst_bit)
  then show ?thesis by (simp add: counts_ok_def bsd_init_def)
qed



text \<open>Where a \<^verbatim>\<open>struct timeval\<close> has 8 octets, a request has a valid checksum, and its answer, with whatever checksum and whatever is left in the buffer behind it, is printed with the
  sequence number of the request, as no duplicate, with the time since the request was sent, and with no complaint about the data.\<close>

theorem bsdping_round_trip:
  assumes "sane cf s" and "tvw cf = 4" and "tv_fits 4 t0" and "\<not> quiet cf" and "\<not> flood cf" and "length h = 20" and "hd h mod 16 = 5" and "length ck = 2"
  shows "\<exists>s1 s2 p. pinger cf t0 s = Val s1 \<and> bwire s1 = bwire s @ [p] \<and> length p = datalen cf + 8 \<and> cksum p = 0 \<and>
    pr_pack ghba cf (answer_to h ck p rest) (28 + datalen cf) src now s1 = Val s2 \<and>
    blines s2 = blines s1 @ [Shown (Answer (datalen cf + 8) src (nat (ntransmitted s mod 65536)) (h ! 8) (Some (micros now - micros t0)) False None) []]"
proof -
  let ?p = "take (datalen cf + 8) (bsd_request cf t0 s)"
  let ?D = "drop (8 + 2 * tvw cf) (outpack s)"
  from pinger_sends [OF assms(1)] obtain s1 where s1: "pinger cf t0 s = Val s1" "bwire s1 = bwire s @ [?p]" by blast
  have fits: "tv_fits (tvw cf) t0" using assms(2,3) by simp
  have p: "length ?p = datalen cf + 8" "cksum ?p = 0"
    using bsd_request_verifies [OF assms(1)] assms(1) by (auto simp: sane_def)
  have "drop 8 (put_tv (tvw cf) t0 @ take (datalen cf - 2 * tvw cf) ?D @ rest) = take (datalen cf - 8) ?D @ rest" using assms(2) by simp
  moreover have "take (datalen cf - 8) (take (datalen cf - 8) ?D @ rest) = take (datalen cf - 8) ?D"
    using assms(1,2) by (auto simp: sane_def min_def)
  ultimately have none: "check_data (take (datalen cf - 8) (drop 8 (put_tv (tvw cf) t0 @ take (datalen cf - 2 * tvw cf) ?D @ rest))) ?D 8 = None"
    by (simp only: check_data_same)
  from pr_pack_answer [OF assms(1) fits assms(4-8) s1(1) refl, of ghba rest src now] obtain s2 where
    "pr_pack ghba cf (answer_to h ck ?p rest) (28 + datalen cf) src now s1 = Val s2"
    "blines s2 = blines s1 @ [Shown (Answer (datalen cf + 8) src (nat (ntransmitted s mod 65536)) (h ! 8) (Some (micros now - micros t0)) False None) []]"
    unfolding none by blast
  with s1 p show ?thesis by blast
qed

theorem bsdping_round_trip_witness:
  "let cf = \<lparr>tvw = 4, datalen = 56, ident = 9, npackets = 0, flood = False, numeric = True, quiet = False, verbose = False\<rparr>;
       s = bsd_init outpack0
   in \<exists>s1 p. pinger cf \<lparr>tv_sec = 5, tv_usec = 6\<rparr> s = Val s1 \<and> bwire s1 = [p] \<and> length p = 64 \<and> cksum p = 0"
proof -
  let ?cf = "\<lparr>tvw = 4, datalen = 56, ident = 9, npackets = 0, flood = False, numeric = True, quiet = False, verbose = False\<rparr>"
  let ?t = "\<lparr>tv_sec = 5, tv_usec = 6\<rparr>" and ?s = "bsd_init outpack0"
  have "sane ?cf ?s" by (simp add: sane_def timing_def bsd_init_def length_outpack0)
  moreover have "tv_fits 4 ?t" by (simp add: tv_fits_def tv_ok_def)
  ultimately have "\<exists>s1 s2 p. pinger ?cf ?t ?s = Val s1 \<and> bwire s1 = bwire ?s @ [p] \<and> length p = datalen ?cf + 8 \<and> cksum p = 0 \<and>
      pr_pack (\<lambda>a. None) ?cf (answer_to (replicate 20 69) [0, 0] p []) (28 + datalen ?cf) [] ?t s1 = Val s2 \<and>
      blines s2 = blines s1 @ [Shown (Answer (datalen ?cf + 8) [] (nat (ntransmitted ?s mod 65536)) (replicate 20 69 ! 8) (Some (micros ?t - micros ?t)) False None) []]"
    by (intro bsdping_round_trip) simp_all
  then show ?thesis by (auto simp: Let_def bsd_init_def)
qed


end
