(* ===== verification/Thread_Examples.thy ===== *)
theory Thread_Examples
  imports CPrelude
begin

text \<open>
  Small programs with threads: two threads that increment a counter without a mutex (\<^verbatim>\<open>unpv13e/threads/example01.c\<close>) and with one
  (\<^verbatim>\<open>example02.c\<close>, \<^verbatim>\<open>thread/concurrent.c\<close>), a producer and a consumer around a bounded buffer (\<^verbatim>\<open>example03.c\<close>), and a main thread that is told by a
  condition variable which threads have ended (\<^verbatim>\<open>thread/condition_var.c\<close>).

  A wait may end spuriously. A step is one action of one thread, \<open>None\<close> when the thread is blocked or has ended. \<^verbatim>\<open>NLOOP\<close> is the argument \<open>n\<close>; what the threads print is part of the state.
  \<^verbatim>\<open>pthread_create\<close> and \<^verbatim>\<open>pthread_join\<close> of \<^verbatim>\<open>main\<close> start the threads and wait for their end.
\<close>

section \<open>Counting\<close>

datatype count_pc = Enter | Fetch | Store int | Leave

record adder =
  iter :: nat
  cpc :: count_pc

record counting =
  counter :: int
  adders :: "adder list"
  owner :: "nat option"
  printed :: "(nat \<times> int) list"

definition counting_init :: "nat \<Rightarrow> counting" where
  "counting_init k = \<lparr>counter = 0, adders = replicate k \<lparr>iter = 0, cpc = Enter\<rparr>, owner = None, printed = []\<rparr>"

text \<open>\<^verbatim>\<open>doit\<close> without a mutex: fetch, then print and store.\<close>

definition doit_racy :: "nat \<Rightarrow> nat \<Rightarrow> counting \<Rightarrow> counting option" where
  "doit_racy n t s =
     (if t \<ge> length (adders s) \<or> iter (adders s ! t) \<ge> n then None
      else let i = iter (adders s ! t) in
        case cpc (adders s ! t) of
          Store val \<Rightarrow>
            Some (s\<lparr>counter := val + 1, printed := printed s @ [(t, val + 1)], adders := (adders s)[t := \<lparr>iter = i + 1, cpc = Enter\<rparr>]\<rparr>)
        | _ \<Rightarrow> Some (s\<lparr>adders := (adders s)[t := \<lparr>iter = i, cpc = Store (counter s)\<rparr>]\<rparr>))"

text \<open>\<^verbatim>\<open>doit\<close> with the mutex.\<close>

definition doit_mutex :: "nat \<Rightarrow> nat \<Rightarrow> counting \<Rightarrow> counting option" where
  "doit_mutex n t s =
     (if t \<ge> length (adders s) \<or> iter (adders s ! t) \<ge> n then None
      else let i = iter (adders s ! t); at = (\<lambda>pc. (adders s)[t := \<lparr>iter = i, cpc = pc\<rparr>]) in
        case cpc (adders s ! t) of
          Enter \<Rightarrow> if owner s = None then Some (s\<lparr>owner := Some t, adders := at Fetch\<rparr>) else None
        | Fetch \<Rightarrow> Some (s\<lparr>adders := at (Store (counter s))\<rparr>)
        | Store val \<Rightarrow> Some (s\<lparr>counter := val + 1, printed := printed s @ [(t, val + 1)], adders := at Leave\<rparr>)
        | Leave \<Rightarrow> Some (s\<lparr>owner := None, adders := (adders s)[t := \<lparr>iter = i + 1, cpc = Enter\<rparr>]\<rparr>))"

text \<open>\<^verbatim>\<open>doit\<close> of \<^verbatim>\<open>concurrent.c\<close> prints the value before it is incremented; the other thread of that program, \<^verbatim>\<open>wait_a_while\<close>, holds the mutex for a while.\<close>

definition doit_concurrent :: "nat \<Rightarrow> nat \<Rightarrow> counting \<Rightarrow> counting option" where
  "doit_concurrent n t s =
     (if t \<ge> length (adders s) \<or> iter (adders s ! t) \<ge> n then None
      else let i = iter (adders s ! t); at = (\<lambda>pc. (adders s)[t := \<lparr>iter = i, cpc = pc\<rparr>]) in
        case cpc (adders s ! t) of
          Enter \<Rightarrow> if owner s = None then Some (s\<lparr>owner := Some t, adders := at Fetch\<rparr>) else None
        | Fetch \<Rightarrow> Some (s\<lparr>printed := printed s @ [(t, counter s)], adders := at (Store (counter s))\<rparr>)
        | Store val \<Rightarrow> Some (s\<lparr>counter := val + 1, adders := at Leave\<rparr>)
        | Leave \<Rightarrow> Some (s\<lparr>owner := None, adders := (adders s)[t := \<lparr>iter = i + 1, cpc = Enter\<rparr>]\<rparr>))"

inductive creach :: "(nat \<Rightarrow> counting \<Rightarrow> counting option) \<Rightarrow> nat \<Rightarrow> counting \<Rightarrow> bool" for doit :: "nat \<Rightarrow> counting \<Rightarrow> counting option" and k :: nat where
  cstart: "creach doit k (counting_init k)"
| cmore: "creach doit k s \<Longrightarrow> doit t s = Some s' \<Longrightarrow> creach doit k s'"

definition all_done :: "nat \<Rightarrow> counting \<Rightarrow> bool" where
  "all_done n s \<longleftrightarrow> (\<forall>t < length (adders s). iter (adders s ! t) = n)"

section \<open>A producer and a consumer\<close>

abbreviation (input) BUFFSIZE :: nat where "BUFFSIZE \<equiv> 10"

datatype side = Producer | Consumer

datatype pc_pc = Lock | Test | Wait | Relock | Work | Signal | Unlock

record prodcons =
  b_buf :: "int list"
  b_nitems :: nat
  b_nextget :: nat
  b_nextput :: nat
  b_mutex :: "side option"
  ppc :: pc_pc
  pi :: nat
  kpc :: pc_pc
  ki :: nat
  consumed :: "int list"

definition prodcons_init :: "int list \<Rightarrow> prodcons" where
  "prodcons_init b = \<lparr>b_buf = b, b_nitems = 0, b_nextget = 0, b_nextput = 0, b_mutex = None, ppc = Lock, pi = 0, kpc = Lock, ki = 0, consumed = []\<rparr>"

definition produce :: "nat \<Rightarrow> prodcons \<Rightarrow> prodcons option" where
  "produce n s =
     (if pi s \<ge> n then None
      else case ppc s of
        Lock \<Rightarrow> if b_mutex s = None then Some (s\<lparr>b_mutex := Some Producer, ppc := Test\<rparr>) else None
      | Test \<Rightarrow> if b_nitems s \<ge> BUFFSIZE then Some (s\<lparr>b_mutex := None, ppc := Wait\<rparr>) else Some (s\<lparr>ppc := Work\<rparr>)
      | Wait \<Rightarrow> None
      | Relock \<Rightarrow> if b_mutex s = None then Some (s\<lparr>b_mutex := Some Producer, ppc := Test\<rparr>) else None
      | Work \<Rightarrow>
          Some (s\<lparr>b_buf := (b_buf s)[b_nextput s := int (pi s)],
                  b_nextput := (if b_nextput s + 1 \<ge> BUFFSIZE then 0 else b_nextput s + 1), b_nitems := b_nitems s + 1, ppc := Signal\<rparr>)
      | Signal \<Rightarrow> Some (s\<lparr>kpc := (if kpc s = Wait then Relock else kpc s), ppc := Unlock\<rparr>)
      | Unlock \<Rightarrow> Some (s\<lparr>b_mutex := None, pi := pi s + 1, ppc := Lock\<rparr>))"

definition consume :: "nat \<Rightarrow> prodcons \<Rightarrow> prodcons option" where
  "consume n s =
     (if ki s \<ge> n then None
      else case kpc s of
        Lock \<Rightarrow> if b_mutex s = None then Some (s\<lparr>b_mutex := Some Consumer, kpc := Test\<rparr>) else None
      | Test \<Rightarrow> if b_nitems s = 0 then Some (s\<lparr>b_mutex := None, kpc := Wait\<rparr>) else Some (s\<lparr>kpc := Work\<rparr>)
      | Wait \<Rightarrow> None
      | Relock \<Rightarrow> if b_mutex s = None then Some (s\<lparr>b_mutex := Some Consumer, kpc := Test\<rparr>) else None
      | Work \<Rightarrow>
          Some (s\<lparr>consumed := consumed s @ [b_buf s ! b_nextget s],
                  b_nextget := (if b_nextget s + 1 \<ge> BUFFSIZE then 0 else b_nextget s + 1), b_nitems := b_nitems s - 1, kpc := Signal\<rparr>)
      | Signal \<Rightarrow> Some (s\<lparr>ppc := (if ppc s = Wait then Relock else ppc s), kpc := Unlock\<rparr>)
      | Unlock \<Rightarrow> Some (s\<lparr>b_mutex := None, ki := ki s + 1, kpc := Lock\<rparr>))"

inductive qstep :: "nat \<Rightarrow> prodcons \<Rightarrow> prodcons \<Rightarrow> bool" for n :: nat where
  qproduce: "produce n s = Some s' \<Longrightarrow> qstep n s s'"
| qconsume: "consume n s = Some s' \<Longrightarrow> qstep n s s'"

inductive qreach :: "nat \<Rightarrow> int list \<Rightarrow> prodcons \<Rightarrow> bool" for n :: nat and b :: "int list" where
  qstart: "qreach n b (prodcons_init b)"
| qmore: "qreach n b s \<Longrightarrow> qstep n s s' \<Longrightarrow> qreach n b s'"
| qspurious_p: "qreach n b s \<Longrightarrow> ppc s = Wait \<Longrightarrow> qreach n b (s\<lparr>ppc := Relock\<rparr>)"
| qspurious_k: "qreach n b s \<Longrightarrow> kpc s = Wait \<Longrightarrow> qreach n b (s\<lparr>kpc := Relock\<rparr>)"

section \<open>Waiting for threads\<close>

datatype waiter_pc = WTest | WLock | WWait | WRelock | WScan nat | WUnlock | WReturn

datatype exec_pc = KSleep | KLock | KSet | KSignal | KUnlock | KEnd

datatype who = Main | Worker nat

record cond_main =
  ndone :: int
  wpc :: waiter_pc
  workers :: "exec_pc list"
  flags :: "nat list"
  wmutex :: "who option"
  joined :: "nat list"

abbreviation (input) THREAD_LIMIT :: nat where "THREAD_LIMIT \<equiv> 3"

definition cond_main_init :: cond_main where
  "cond_main_init = \<lparr>ndone = 3, wpc = WTest, workers = replicate THREAD_LIMIT KSleep, flags = replicate THREAD_LIMIT 0, wmutex = None, joined = []\<rparr>"

text \<open>\<^verbatim>\<open>main\<close>: it waits without looking at the flags first; \<^verbatim>\<open>pthread_join\<close> blocks until the thread has ended.\<close>

definition collect_main :: "cond_main \<Rightarrow> cond_main option" where
  "collect_main s =
     (case wpc s of
        WTest \<Rightarrow> Some (s\<lparr>wpc := if ndone s > 0 then WLock else WReturn\<rparr>)
      | WLock \<Rightarrow> if wmutex s = None then Some (s\<lparr>wmutex := Some Main, wpc := WWait\<rparr>) else None
      | WWait \<Rightarrow> if wmutex s = Some Main then Some (s\<lparr>wmutex := None\<rparr>) else None
      | WRelock \<Rightarrow> if wmutex s = None then Some (s\<lparr>wmutex := Some Main, wpc := WScan 0\<rparr>) else None
      | WScan i \<Rightarrow>
          if i \<ge> THREAD_LIMIT then Some (s\<lparr>wpc := WUnlock\<rparr>)
          else if odd (flags s ! i) then
            if workers s ! i = KEnd
            then Some (s\<lparr>ndone := ndone s - 1, flags := (flags s)[i := 2], joined := joined s @ [i], wpc := WScan (i + 1)\<rparr>)
            else None
          else Some (s\<lparr>wpc := WScan (i + 1)\<rparr>)
      | WUnlock \<Rightarrow> Some (s\<lparr>wmutex := None, wpc := WTest\<rparr>)
      | WReturn \<Rightarrow> None)"

definition exec :: "nat \<Rightarrow> cond_main \<Rightarrow> cond_main option" where
  "exec t s =
     (if t \<ge> length (workers s) then None
      else let at = (\<lambda>pc. (workers s)[t := pc]) in
        case workers s ! t of
          KSleep \<Rightarrow> Some (s\<lparr>workers := at KLock\<rparr>)
        | KLock \<Rightarrow> if wmutex s = None then Some (s\<lparr>wmutex := Some (Worker t), workers := at KSet\<rparr>) else None
        | KSet \<Rightarrow> Some (s\<lparr>flags := (flags s)[t := 1], workers := at KSignal\<rparr>)
        | KSignal \<Rightarrow> Some (s\<lparr>wpc := (if wpc s = WWait \<and> wmutex s \<noteq> Some Main then WRelock else wpc s), workers := at KUnlock\<rparr>)
        | KUnlock \<Rightarrow> Some (s\<lparr>wmutex := None, workers := at KEnd\<rparr>)
        | KEnd \<Rightarrow> None)"

inductive wreach :: "cond_main \<Rightarrow> bool" where
  wstart: "wreach cond_main_init"
| wmain: "wreach s \<Longrightarrow> collect_main s = Some s' \<Longrightarrow> wreach s'"
| wexec: "wreach s \<Longrightarrow> exec t s = Some s' \<Longrightarrow> wreach s'"
| wspurious: "wreach s \<Longrightarrow> wpc s = WWait \<Longrightarrow> wmutex s \<noteq> Some Main \<Longrightarrow> wreach (s\<lparr>wpc := WRelock\<rparr>)"

section \<open>Counting under a mutex\<close>

definition total_iter :: "counting \<Rightarrow> int" where
  "total_iter s = int (sum_list (map iter (adders s)))"

text \<open>What the loops under the mutex have in common, apart from what they print.\<close>

definition moved :: "nat \<Rightarrow> counting \<Rightarrow> counting \<Rightarrow> bool" where
  "moved t s s' \<longleftrightarrow>
     (let i = iter (adders s ! t); at = (\<lambda>pc. (adders s)[t := \<lparr>iter = i, cpc = pc\<rparr>]) in
      case cpc (adders s ! t) of
        Enter \<Rightarrow> owner s = None \<and> owner s' = Some t \<and> counter s' = counter s \<and> adders s' = at Fetch
      | Fetch \<Rightarrow> owner s' = owner s \<and> counter s' = counter s \<and> adders s' = at (Store (counter s))
      | Store v \<Rightarrow> owner s' = owner s \<and> counter s' = v + 1 \<and> adders s' = at Leave
      | Leave \<Rightarrow> owner s' = None \<and> counter s' = counter s \<and> adders s' = (adders s)[t := \<lparr>iter = i + 1, cpc = Enter\<rparr>])"

locale locked_counter =
  fixes n :: nat and doit :: "nat \<Rightarrow> counting \<Rightarrow> counting option"
  assumes moves: "doit t s = Some s' \<Longrightarrow> t < length (adders s) \<and> iter (adders s ! t) < n \<and> moved t s s'"
    and can_move: "t < length (adders s) \<Longrightarrow> iter (adders s ! t) < n \<Longrightarrow> (cpc (adders s ! t) = Enter \<longrightarrow> owner s = None) \<Longrightarrow> doit t s \<noteq> None"

definition lock_ok :: "nat \<Rightarrow> nat \<Rightarrow> counting \<Rightarrow> bool" where
  "lock_ok n k s \<longleftrightarrow> length (adders s) = k \<and> (\<forall>t < k. iter (adders s ! t) \<le> n) \<and>
     (\<forall>t < k. owner s \<noteq> Some t \<longrightarrow> cpc (adders s ! t) = Enter) \<and>
     (case owner s of
        None \<Rightarrow> counter s = total_iter s
      | Some h \<Rightarrow> h < k \<and> iter (adders s ! h) < n \<and>
          (case cpc (adders s ! h) of
             Enter \<Rightarrow> False
           | Fetch \<Rightarrow> counter s = total_iter s
           | Store v \<Rightarrow> v = counter s \<and> counter s = total_iter s
           | Leave \<Rightarrow> counter s = total_iter s + 1))"

lemma total_iter_update:
  "t < length (adders s) \<Longrightarrow> adders s' = (adders s)[t := a] \<Longrightarrow> total_iter s' = total_iter s + int (iter a) - int (iter (adders s ! t))"
proof -
  assume t: "t < length (adders s)" "adders s' = (adders s)[t := a]"
  let ?xs = "map iter (adders s)"
  have le: "iter (adders s ! t) \<le> sum_list ?xs" using t(1) elem_le_sum_list [of t ?xs] by simp
  have "sum_list (map iter (adders s')) = sum_list ?xs + iter a - iter (adders s ! t)"
    using t sum_list_update [of t ?xs "iter a"] by (simp add: map_update)
  with le show ?thesis by (simp add: total_iter_def of_nat_diff)
qed

lemma lock_ok_moved:
  assumes "lock_ok n k s" and "moved t s s'" and "t < length (adders s)" and "iter (adders s ! t) < n"
  shows "lock_ok n k s'"
proof -
  have tk: "t < k" "length (adders s) = k" using assms(1,3) by (auto simp: lock_ok_def)
  show ?thesis
  proof (cases "cpc (adders s ! t)")
    case Enter
    with assms(2) have m: "owner s = None" "owner s' = Some t" "counter s' = counter s" "adders s' = (adders s)[t := \<lparr>iter = iter (adders s ! t), cpc = Fetch\<rparr>]"
      by (auto simp: moved_def Let_def)
    with total_iter_update [OF assms(3) m(4)] assms(1,4) tk show ?thesis by (auto simp: lock_ok_def nth_list_update)
  next
    case Fetch
    with assms(2) have m: "owner s' = owner s" "counter s' = counter s" "adders s' = (adders s)[t := \<lparr>iter = iter (adders s ! t), cpc = Store (counter s)\<rparr>]"
      by (auto simp: moved_def Let_def)
    have "owner s = Some t" using assms(1) Fetch tk by (auto simp: lock_ok_def)
    with total_iter_update [OF assms(3) m(3)] m Fetch assms(1,4) tk show ?thesis by (auto simp: lock_ok_def nth_list_update)
  next
    case (Store v)
    with assms(2) have m: "owner s' = owner s" "counter s' = v + 1" "adders s' = (adders s)[t := \<lparr>iter = iter (adders s ! t), cpc = Leave\<rparr>]"
      by (auto simp: moved_def Let_def)
    have "owner s = Some t" using assms(1) Store tk by (auto simp: lock_ok_def)
    with total_iter_update [OF assms(3) m(3)] m Store assms(1,4) tk show ?thesis by (auto simp: lock_ok_def nth_list_update)
  next
    case Leave
    with assms(2) have m: "owner s' = None" "counter s' = counter s" "adders s' = (adders s)[t := \<lparr>iter = iter (adders s ! t) + 1, cpc = Enter\<rparr>]"
      by (auto simp: moved_def Let_def)
    have "owner s = Some t" using assms(1) Leave tk by (auto simp: lock_ok_def)
    with total_iter_update [OF assms(3) m(3)] m Leave assms(1,4) tk show ?thesis by (auto simp: lock_ok_def nth_list_update)
  qed
qed

context locked_counter
begin

lemma reach_ok: "creach doit k s \<Longrightarrow> lock_ok n k s"
proof (induction rule: creach.induct)
  case cstart
  show ?case by (auto simp: lock_ok_def counting_init_def total_iter_def sum_list_replicate)
next
  case (cmore s t s')
  from moves [OF cmore.hyps(2)] lock_ok_moved [OF cmore.IH] show ?case by blast
qed

lemma done_or_moves: "creach doit k s \<Longrightarrow> (\<exists>t s'. doit t s = Some s') \<or> all_done n s \<and> counter s = int (k * n)"
proof -
  assume "creach doit k s"
  then have ok: "lock_ok n k s" by (rule reach_ok)
  show ?thesis
  proof (cases "owner s")
    case (Some h)
    then have "h < length (adders s)" "iter (adders s ! h) < n" "cpc (adders s ! h) \<noteq> Enter" using ok by (auto simp: lock_ok_def)
    then show ?thesis using can_move [of h s] by auto
  next
    case None
    show ?thesis
    proof (cases "all_done n s")
      case True
      then have "map iter (adders s) = replicate k n" using ok by (intro nth_equalityI) (auto simp: all_done_def lock_ok_def)
      then show ?thesis using ok None True by (simp add: lock_ok_def total_iter_def sum_list_replicate)
    next
      case False
      then obtain t where "t < length (adders s)" "iter (adders s ! t) < n" using ok by (auto simp: all_done_def lock_ok_def nat_less_le)
      then show ?thesis using can_move [of t s] None by auto
    qed
  qed
qed

end

interpretation mutexed: locked_counter n "doit_mutex n"
  by unfold_locales (auto simp: doit_mutex_def moved_def Let_def split: if_splits count_pc.splits)

interpretation concurrent: locked_counter n "doit_concurrent n"
  by unfold_locales (auto simp: doit_concurrent_def moved_def Let_def split: if_splits count_pc.splits)

text \<open>Every step comes nearer to the end.\<close>

fun count_rank :: "count_pc \<Rightarrow> nat" where
  "count_rank Enter = 4"
| "count_rank Fetch = 3"
| "count_rank (Store _) = 2"
| "count_rank Leave = 1"

definition count_work :: "nat \<Rightarrow> counting \<Rightarrow> nat" where
  "count_work n s = sum_list (map (\<lambda>a. 4 * (n - iter a) + count_rank (cpc a)) (adders s))"

lemma sum_list_decreases: "t < length xs \<Longrightarrow> f y < f (xs ! t) \<Longrightarrow> sum_list (map f (xs[t := y])) < (sum_list (map f xs) :: nat)"
proof -
  assume t: "t < length xs" "f y < f (xs ! t)"
  have "f (xs ! t) \<le> sum_list (map f xs)" using t(1) elem_le_sum_list [of t "map f xs"] by simp
  with t sum_list_update [of t "map f xs" "f y"] show ?thesis by (simp add: map_update)
qed

lemma moved_work:
  assumes "moved t s s'" and "t < length (adders s)" and "iter (adders s ! t) < n"
  shows "count_work n s' < count_work n s"
proof -
  obtain a where a: "adders s' = (adders s)[t := a]" "4 * (n - iter a) + count_rank (cpc a) < 4 * (n - iter (adders s ! t)) + count_rank (cpc (adders s ! t))"
    using assms by (cases "cpc (adders s ! t)") (auto simp: moved_def Let_def)
  show ?thesis unfolding count_work_def a(1) by (rule sum_list_decreases [OF assms(2) a(2)])
qed

lemma printed_in_order: "creach (doit_mutex n) k s \<Longrightarrow> map snd (printed s) = [1..counter s]"
proof (induction rule: creach.induct)
  case cstart
  show ?case by (simp add: counting_init_def)
next
  case (cmore s t s')
  have ok: "lock_ok n k s" by (rule mutexed.reach_ok [OF cmore.hyps(1)])
  have "0 \<le> total_iter s" by (simp add: total_iter_def)
  show ?case
  proof (cases "cpc (adders s ! t)")
    case (Store v)
    with cmore.hyps(2) have p: "counter s' = v + 1" "printed s' = printed s @ [(t, v + 1)]" "t < k"
      using ok by (auto simp: doit_mutex_def Let_def lock_ok_def split: if_splits)
    then have "owner s = Some t" using ok Store by (auto simp: lock_ok_def)
    with ok Store \<open>0 \<le> total_iter s\<close> have "v = counter s" "0 \<le> counter s" by (auto simp: lock_ok_def)
    with p cmore.IH show ?thesis by (simp add: upto_rec2)
  qed (use cmore in \<open>auto simp: doit_mutex_def Let_def split: if_splits\<close>)
qed

section \<open>Counting without a mutex\<close>

lemma racy_iteration:
  assumes "t < length (adders s)" and "adders s ! t = \<lparr>iter = i, cpc = Enter\<rparr>" and "i < n"
  shows "\<exists>s1 s2. doit_racy n t s = Some s1 \<and> doit_racy n t s1 = Some s2 \<and> counter s2 = counter s + 1 \<and>
    adders s2 = (adders s)[t := \<lparr>iter = i + 1, cpc = Enter\<rparr>] \<and> printed s2 = printed s @ [(t, counter s + 1)]"
  using assms by (auto simp: doit_racy_def Let_def)

lemma racy_alone:
  assumes "creach (doit_racy n) k s" and "t < length (adders s)" and "adders s ! t = \<lparr>iter = i, cpc = Enter\<rparr>" and "i + m \<le> n"
  shows "\<exists>s'. creach (doit_racy n) k s' \<and> counter s' = counter s + int m \<and> adders s' = (adders s)[t := \<lparr>iter = i + m, cpc = Enter\<rparr>]"
  using assms(4)
proof (induction m)
  case 0
  have "adders s = (adders s)[t := \<lparr>iter = i + 0, cpc = Enter\<rparr>]" using assms(2,3) list_update_id [of "adders s" t] by simp
  then show ?case using assms(1) by (intro exI [of _ s]) simp
next
  case (Suc m)
  then obtain s' where s': "creach (doit_racy n) k s'" "counter s' = counter s + int m" "adders s' = (adders s)[t := \<lparr>iter = i + m, cpc = Enter\<rparr>]" by auto
  with racy_iteration [of t s' "i + m" n] assms(2) Suc.prems obtain s1 s2 where
    "doit_racy n t s' = Some s1" "doit_racy n t s1 = Some s2" "counter s2 = counter s' + 1" "adders s2 = (adders s')[t := \<lparr>iter = i + m + 1, cpc = Enter\<rparr>]" by auto
  then show ?case using s' cmore [OF cmore [OF s'(1)]] by (intro exI [of _ s2]) auto
qed

section \<open>The invariant of the buffer\<close>

fun holds :: "pc_pc \<Rightarrow> bool" where
  "holds Lock = False"
| "holds Wait = False"
| "holds Relock = False"
| "holds _ = True"

fun after :: "pc_pc \<Rightarrow> bool" where
  "after Signal = True"
| "after Unlock = True"
| "after _ = False"

text \<open>The mutex; the buffer; and why no wake-up is lost: a side that waits has no reason to go on, or the other side is about to signal.\<close>

definition q_lock :: "nat \<Rightarrow> prodcons \<Rightarrow> bool" where
  "q_lock n s \<longleftrightarrow>
     (holds (ppc s) \<longleftrightarrow> b_mutex s = Some Producer) \<and> (holds (kpc s) \<longleftrightarrow> b_mutex s = Some Consumer) \<and>
     (ppc s \<noteq> Lock \<longrightarrow> pi s < n) \<and> (kpc s \<noteq> Lock \<longrightarrow> ki s < n) \<and> pi s \<le> n \<and> ki s \<le> n"

definition produced :: "prodcons \<Rightarrow> nat" where
  "produced s = pi s + (if after (ppc s) then 1 else 0)"

definition q_buf :: "prodcons \<Rightarrow> bool" where
  "q_buf s \<longleftrightarrow>
     length (b_buf s) = BUFFSIZE \<and> b_nextget s < BUFFSIZE \<and> b_nitems s \<le> BUFFSIZE \<and> b_nextput s = (b_nextget s + b_nitems s) mod BUFFSIZE \<and>
     consumed s @ slots (b_buf s) (b_nextget s) (b_nitems s) = map int [0..<produced s] \<and>
     length (consumed s) = ki s + (if after (kpc s) then 1 else 0)"

definition q_wake :: "prodcons \<Rightarrow> bool" where
  "q_wake s \<longleftrightarrow>
     (ppc s = Work \<longrightarrow> b_nitems s < BUFFSIZE) \<and> (kpc s = Work \<longrightarrow> 0 < b_nitems s) \<and>
     (ppc s = Wait \<longrightarrow> b_nitems s \<ge> BUFFSIZE \<or> kpc s = Signal) \<and>
     (kpc s = Wait \<longrightarrow> b_nitems s = 0 \<or> ppc s = Signal)"

definition q_ok :: "nat \<Rightarrow> prodcons \<Rightarrow> bool" where
  "q_ok n s \<longleftrightarrow> q_lock n s \<and> q_buf s \<and> q_wake s"

lemma q_ok_start: "length b = BUFFSIZE \<Longrightarrow> q_ok n (prodcons_init b)"
  by (simp add: q_ok_def q_lock_def q_buf_def q_wake_def produced_def prodcons_init_def )

lemma q_lock_produce: "q_lock n s \<Longrightarrow> produce n s = Some s' \<Longrightarrow> q_lock n s'"
  by (cases "ppc s") (auto simp: q_lock_def produce_def split: if_splits)

lemma q_lock_consume: "q_lock n s \<Longrightarrow> consume n s = Some s' \<Longrightarrow> q_lock n s'"
  by (cases "kpc s") (auto simp: q_lock_def consume_def split: if_splits)

lemma q_exclusive: "q_lock n s \<Longrightarrow> \<not> (holds (ppc s) \<and> holds (kpc s))"
  by (auto simp: q_lock_def)

lemma q_wake_produce: "q_wake s \<Longrightarrow> \<not> (holds (ppc s) \<and> holds (kpc s)) \<Longrightarrow> produce n s = Some s' \<Longrightarrow> q_wake s'"
  by (cases "ppc s") (auto simp: q_wake_def produce_def split: if_splits)

lemma q_wake_consume: "q_wake s \<Longrightarrow> \<not> (holds (ppc s) \<and> holds (kpc s)) \<Longrightarrow> consume n s = Some s' \<Longrightarrow> q_wake s'"
  by (cases "kpc s") (auto simp: q_wake_def consume_def split: if_splits)

lemma q_buf_same:
  assumes "q_buf s" and "b_buf s' = b_buf s" "b_nextget s' = b_nextget s" "b_nitems s' = b_nitems s" "b_nextput s' = b_nextput s" "consumed s' = consumed s"
    and "produced s' = produced s" and "ki s' + (if after (kpc s') then 1 else 0) = ki s + (if after (kpc s) then 1 else 0)"
  shows "q_buf s'"
  using assms unfolding q_buf_def by presburger

lemma q_buf_produce:
  assumes "q_buf s" and "q_wake s" and "produce n s = Some s'"
  shows "q_buf s'"
proof (cases "ppc s = Work")
  case Work: True
  let ?m = "b_nitems s"
  have w: "?m < BUFFSIZE" "length (b_buf s) = BUFFSIZE" "b_nextget s < BUFFSIZE" "b_nextput s = (b_nextget s + ?m) mod BUFFSIZE"
    "consumed s @ slots (b_buf s) (b_nextget s) ?m = map int [0..<pi s]"
    using assms(1,2) Work by (simp_all add: q_buf_def q_wake_def produced_def)
  have "slots ((b_buf s)[b_nextput s := int (pi s)]) (b_nextget s) (Suc ?m) = slots (b_buf s) (b_nextget s) ?m @ [int (pi s)]"
    using slots_put [of ?m "b_buf s" "b_nextget s" "int (pi s)"] w by simp
  with w(5) have "consumed s @ slots ((b_buf s)[b_nextput s := int (pi s)]) (b_nextget s) (Suc ?m) = map int [0..<Suc (pi s)]" by simp
  moreover have "(if b_nextput s + 1 \<ge> BUFFSIZE then 0 else b_nextput s + 1) = (b_nextget s + Suc ?m) mod BUFFSIZE"
    using slots_wrap [of "b_nextput s" BUFFSIZE] w(4) by (simp add: mod_simps)
  moreover have "s' = s\<lparr>b_buf := (b_buf s)[b_nextput s := int (pi s)],
      b_nextput := (if b_nextput s + 1 \<ge> BUFFSIZE then 0 else b_nextput s + 1), b_nitems := ?m + 1, ppc := Signal\<rparr>"
    using assms(3) Work by (simp add: produce_def split: if_splits)
  ultimately show ?thesis using assms(1) w(1) by (simp add: q_buf_def produced_def del: upt_Suc)
next
  case False
  then show ?thesis
    by (intro q_buf_same [OF assms(1)]; insert assms(3); cases "ppc s") (auto simp: produce_def produced_def split: if_splits)
qed

lemma q_buf_consume:
  assumes "q_buf s" and "q_wake s" and "consume n s = Some s'"
  shows "q_buf s'"
proof (cases "kpc s = Work")
  case Work: True
  then obtain m where m: "b_nitems s = Suc m" using assms(2) by (cases "b_nitems s") (auto simp: q_wake_def)
  have w: "length (b_buf s) = BUFFSIZE" "b_nextget s < BUFFSIZE" "b_nextput s = (b_nextget s + Suc m) mod BUFFSIZE"
    "consumed s @ slots (b_buf s) (b_nextget s) (Suc m) = map int [0..<produced s]" "Suc m \<le> BUFFSIZE" "length (consumed s) = ki s"
    using assms(1) m Work by (simp_all add: q_buf_def)
  have "slots (b_buf s) (b_nextget s) (Suc m) = b_buf s ! b_nextget s # slots (b_buf s) ((b_nextget s + 1) mod BUFFSIZE) m"
    using slots_get [of "b_nextget s" "b_buf s" m] w by simp
  with w(4) have "(consumed s @ [b_buf s ! b_nextget s]) @ slots (b_buf s) ((b_nextget s + 1) mod BUFFSIZE) m = map int [0..<produced s]" by simp
  moreover have "(if b_nextget s + 1 \<ge> BUFFSIZE then 0 else b_nextget s + 1) = (b_nextget s + 1) mod BUFFSIZE"
    by (rule slots_wrap [OF w(2)])
  moreover have "b_nextput s = ((b_nextget s + 1) mod BUFFSIZE + m) mod BUFFSIZE" using w(3) by (simp add: mod_simps)
  moreover have "s' = s\<lparr>consumed := consumed s @ [b_buf s ! b_nextget s],
      b_nextget := (if b_nextget s + 1 \<ge> BUFFSIZE then 0 else b_nextget s + 1), b_nitems := m, kpc := Signal\<rparr>"
    using assms(3) Work m by (simp add: consume_def split: if_splits)
  ultimately show ?thesis using w by (simp add: q_buf_def produced_def)
next
  case False
  then show ?thesis
    by (intro q_buf_same [OF assms(1)]; insert assms(3); cases "kpc s") (auto simp: consume_def produced_def split: if_splits)
qed

lemma q_ok_produce: "q_ok n s \<Longrightarrow> produce n s = Some s' \<Longrightarrow> q_ok n s'"
  using q_lock_produce q_buf_produce q_wake_produce q_exclusive unfolding q_ok_def by blast

lemma q_ok_consume: "q_ok n s \<Longrightarrow> consume n s = Some s' \<Longrightarrow> q_ok n s'"
  using q_lock_consume q_buf_consume q_wake_consume q_exclusive unfolding q_ok_def by blast

lemma q_ok_reach: "qreach n b s \<Longrightarrow> length b = BUFFSIZE \<Longrightarrow> q_ok n s"
proof (induction rule: qreach.induct)
  case qstart
  then show ?case by (rule q_ok_start)
next
  case (qmore s s')
  from qmore.hyps(2) qmore.IH [OF qmore.prems] show ?case
    by (cases rule: qstep.cases) (auto intro: q_ok_produce q_ok_consume)
next
  case (qspurious_p s)
  then have "q_ok n s" by simp
  with qspurious_p.hyps(2) show ?case by (auto simp: q_ok_def q_lock_def q_buf_def q_wake_def produced_def)
next
  case (qspurious_k s)
  then have "q_ok n s" by simp
  with qspurious_k.hyps(2) show ?case by (auto simp: q_ok_def q_lock_def q_buf_def q_wake_def produced_def)
qed

fun pc_rank :: "pc_pc \<Rightarrow> nat" where
  "pc_rank Lock = 9"
| "pc_rank Test = 8"
| "pc_rank Wait = 7"
| "pc_rank Relock = 9"
| "pc_rank Work = 6"
| "pc_rank Signal = 5"
| "pc_rank Unlock = 2"

definition q_work :: "nat \<Rightarrow> prodcons \<Rightarrow> nat" where
  "q_work n s = 10 * (n - pi s) + pc_rank (ppc s) + (10 * (n - ki s) + pc_rank (kpc s))"

lemma q_work_step: "qstep n s s' \<Longrightarrow> q_work n s' < q_work n s"
proof (induction rule: qstep.induct)
  case (qproduce s s')
  then show ?case by (cases "ppc s") (auto simp: produce_def q_work_def split: if_splits)
next
  case (qconsume s s')
  then show ?case by (cases "kpc s") (auto simp: consume_def q_work_def split: if_splits)
qed

lemma produce_moves: "pi s < n \<Longrightarrow> ppc s \<noteq> Wait \<Longrightarrow> b_mutex s = None \<or> holds (ppc s) \<Longrightarrow> produce n s \<noteq> None"
  by (cases "ppc s") (auto simp: produce_def)

lemma consume_moves: "ki s < n \<Longrightarrow> kpc s \<noteq> Wait \<Longrightarrow> b_mutex s = None \<or> holds (kpc s) \<Longrightarrow> consume n s \<noteq> None"
  by (cases "kpc s") (auto simp: consume_def)

lemma q_never_stuck:
  assumes "q_ok n s" and "pi s < n \<or> ki s < n"
  shows "produce n s \<noteq> None \<or> consume n s \<noteq> None"
proof -
  have lock: "q_lock n s" and buf: "q_buf s" and wake: "q_wake s" using assms(1) by (simp_all add: q_ok_def)
  have counts: "length (consumed s) + b_nitems s = produced s"
    using arg_cong [of _ _ length, OF conjunct1 [OF conjunct2 [OF conjunct2 [OF conjunct2 [OF conjunct2 [OF buf [unfolded q_buf_def]]]]]]] by simp
  consider "holds (ppc s)" | "holds (kpc s)" | "b_mutex s = None" using lock by (cases "b_mutex s"; cases "the (b_mutex s)") (auto simp: q_lock_def)
  then show ?thesis
  proof cases
    case 1
    then have "ppc s \<noteq> Lock" "ppc s \<noteq> Wait" by auto
    then show ?thesis using produce_moves [of s n] 1 lock by (auto simp: q_lock_def)
  next
    case 2
    then have "kpc s \<noteq> Lock" "kpc s \<noteq> Wait" by auto
    then show ?thesis using consume_moves [of s n] 2 lock by (auto simp: q_lock_def)
  next
    case 3
    then have out: "\<not> holds (ppc s)" "\<not> holds (kpc s)" using lock by (auto simp: q_lock_def)
    then have na: "\<not> after (ppc s)" "\<not> after (kpc s)" by (cases "ppc s"; simp; cases "kpc s"; simp)+
    with counts buf have c: "ki s + b_nitems s = pi s" by (simp add: q_buf_def produced_def)
    have pw: "ppc s = Wait \<longrightarrow> b_nitems s \<ge> BUFFSIZE" and kw: "kpc s = Wait \<longrightarrow> b_nitems s = 0" using wake out by (auto simp: q_wake_def)
    show ?thesis
    proof (cases "pi s < n \<and> ppc s \<noteq> Wait")
      case True
      then show ?thesis using produce_moves [of s n] 3 by simp
    next
      case False
      then have "ki s < n" "b_nitems s > 0" using assms(2) c pw lock by (auto simp: q_lock_def)
      then show ?thesis using consume_moves [of s n] kw 3 by auto
    qed
  qed
qed

section \<open>The invariant of the waiting main thread\<close>

definition worker_holds :: "exec_pc \<Rightarrow> bool" where
  "worker_holds pc \<longleftrightarrow> pc = KSet \<or> pc = KSignal \<or> pc = KUnlock"

definition w_ok :: "cond_main \<Rightarrow> bool" where
  "w_ok s \<longleftrightarrow> length (workers s) = THREAD_LIMIT \<and> length (flags s) = THREAD_LIMIT \<and>
     (\<forall>t < THREAD_LIMIT. worker_holds (workers s ! t) \<longleftrightarrow> wmutex s = Some (Worker t)) \<and>
     (\<forall>t < THREAD_LIMIT. flags s ! t = (if t \<in> set (joined s) then 2 else if workers s ! t \<in> {KSignal, KUnlock, KEnd} then 1 else 0)) \<and>
     distinct (joined s) \<and> set (joined s) \<subseteq> {t. t < THREAD_LIMIT \<and> workers s ! t = KEnd} \<and> ndone s = 3 - int (length (joined s)) \<and>
     ((\<exists>i. wpc s = WScan i) \<or> wpc s = WUnlock \<longrightarrow> wmutex s = Some Main) \<and> (wpc s = WReturn \<longrightarrow> ndone s \<le> 0)"

lemma w_ok_init: "w_ok cond_main_init"
  by (auto simp: w_ok_def cond_main_init_def worker_holds_def nth_Cons split: nat.splits)

lemma w_ok_main:
  assumes "w_ok s" and "collect_main s = Some s'"
  shows "w_ok s'"
proof (cases "\<exists>i. wpc s = WScan i \<and> i < THREAD_LIMIT \<and> odd (flags s ! i)")
  case True
  then obtain i where i: "wpc s = WScan i" "i < THREAD_LIMIT" "odd (flags s ! i)" by blast
  then have e: "workers s ! i = KEnd" "s' = s\<lparr>ndone := ndone s - 1, flags := (flags s)[i := 2], joined := joined s @ [i], wpc := WScan (i + 1)\<rparr>"
    using assms(2) by (auto simp: collect_main_def split: if_splits)
  have "i \<notin> set (joined s)" using assms(1) i(2,3) by (auto simp: w_ok_def)
  with assms(1) e i show ?thesis by (auto simp: w_ok_def nth_list_update)
next
  case False
  then have same: "workers s' = workers s" "flags s' = flags s" "joined s' = joined s" "ndone s' = ndone s"
    using assms(2) by (auto simp: collect_main_def split: waiter_pc.splits if_splits)
  have m: "(\<forall>t < THREAD_LIMIT. wmutex s' = Some (Worker t) \<longleftrightarrow> wmutex s = Some (Worker t))"
    using assms False by (auto simp: collect_main_def w_ok_def split: waiter_pc.splits if_splits)
  have p: "((\<exists>i. wpc s' = WScan i) \<or> wpc s' = WUnlock \<longrightarrow> wmutex s' = Some Main) \<and> (wpc s' = WReturn \<longrightarrow> ndone s' \<le> 0)"
    using assms False by (auto simp: collect_main_def w_ok_def split: waiter_pc.splits if_splits)
  show ?thesis using assms(1) m p unfolding w_ok_def same by blast
qed

lemma w_okD:
  assumes "w_ok s"
  shows w_len: "length (workers s) = THREAD_LIMIT" "length (flags s) = THREAD_LIMIT"
    and w_mutex: "t < THREAD_LIMIT \<Longrightarrow> worker_holds (workers s ! t) \<longleftrightarrow> wmutex s = Some (Worker t)"
    and w_flag: "t < THREAD_LIMIT \<Longrightarrow> flags s ! t = (if t \<in> set (joined s) then 2 else if workers s ! t \<in> {KSignal, KUnlock, KEnd} then 1 else 0)"
    and w_joined: "distinct (joined s)" "t \<in> set (joined s) \<Longrightarrow> t < THREAD_LIMIT \<and> workers s ! t = KEnd" "ndone s = 3 - int (length (joined s))"
    and w_main: "wpc s = WScan i \<Longrightarrow> wmutex s = Some Main" "wpc s = WUnlock \<Longrightarrow> wmutex s = Some Main" "wpc s = WReturn \<Longrightarrow> ndone s \<le> 0"
  using assms unfolding w_ok_def by blast+

lemma w_ok_worker:
  assumes ok: "w_ok s" and t: "t < THREAD_LIMIT" "t \<notin> set (joined s)" and s': "workers s' = (workers s)[t := pc]" "joined s' = joined s" "ndone s' = ndone s"
      "flags s' = (flags s)[t := if pc \<in> {KSignal, KUnlock, KEnd} then 1 else 0]"
    and mutex: "\<And>u. u \<noteq> t \<Longrightarrow> wmutex s' = Some (Worker u) \<longleftrightarrow> wmutex s = Some (Worker u)" "worker_holds pc \<longleftrightarrow> wmutex s' = Some (Worker t)"
    and main: "wmutex s = Some Main \<longrightarrow> wmutex s' = Some Main" "wpc s' = wpc s \<or> wpc s' = WRelock"
  shows "w_ok s'"
  unfolding w_ok_def
proof (intro conjI allI impI)
  show "length (workers s') = THREAD_LIMIT" "length (flags s') = THREAD_LIMIT" using w_len [OF ok] s' by simp_all
  show "worker_holds (workers s' ! u) \<longleftrightarrow> wmutex s' = Some (Worker u)" if "u < THREAD_LIMIT" for u
    using w_mutex [OF ok that] mutex w_len(1) [OF ok] that s'(1) by (cases "u = t") simp_all
  show "flags s' ! u = (if u \<in> set (joined s') then 2 else if workers s' ! u \<in> {KSignal, KUnlock, KEnd} then 1 else 0)" if "u < THREAD_LIMIT" for u
    using w_flag [OF ok that] w_len [OF ok] that s' t by (cases "u = t") simp_all
  show "distinct (joined s')" "ndone s' = 3 - int (length (joined s'))" using w_joined [OF ok] s' by simp_all
  have "u < THREAD_LIMIT \<and> workers s' ! u = KEnd" if "u \<in> set (joined s')" for u
  proof -
    have "u \<noteq> t" using that t(2) s'(2) by auto
    then show ?thesis using w_joined(2) [OF ok, of u] that s'(1,2) by simp
  qed
  then show "set (joined s') \<subseteq> {t. t < THREAD_LIMIT \<and> workers s' ! t = KEnd}" by blast
  show "wmutex s' = Some Main" if "(\<exists>i. wpc s' = WScan i) \<or> wpc s' = WUnlock" using that main w_main(1,2) [OF ok] by auto
  show "ndone s' \<le> 0" if "wpc s' = WReturn" using that main(2) w_main(3) [OF ok] s'(3) by auto
qed

lemma w_ok_exec:
  assumes ok: "w_ok s" and e: "exec t s = Some s'"
  shows "w_ok s'"
proof -
  have t: "t < THREAD_LIMIT" "length (workers s) = THREAD_LIMIT" using w_len [OF ok] e by (auto simp: exec_def split: if_splits)
  have "workers s ! t \<noteq> KEnd" using e by (auto simp: exec_def split: if_splits)
  then have j: "t \<notin> set (joined s)" using w_joined(2) [OF ok] by blast
  note flag = w_flag [OF ok t(1)] and mutex = w_mutex [OF ok t(1)]
  have same: "(flags s)[t := flags s ! t] = flags s" by simp
  show ?thesis
  proof (cases "workers s ! t")
    case KSleep
    with e t have "s' = s\<lparr>workers := (workers s)[t := KLock]\<rparr>" by (simp add: exec_def)
    with KSleep flag mutex j same show ?thesis by (intro w_ok_worker [OF ok t(1) j, of _ KLock]) (simp_all add: worker_holds_def)
  next
    case KLock
    with e t have "s' = s\<lparr>wmutex := Some (Worker t), workers := (workers s)[t := KSet]\<rparr>" "wmutex s = None" by (simp_all add: exec_def split: if_splits)
    with KLock flag mutex j same show ?thesis by (intro w_ok_worker [OF ok t(1) j, of _ KSet]) (simp_all add: worker_holds_def)
  next
    case KSet
    with e t have "s' = s\<lparr>flags := (flags s)[t := 1], workers := (workers s)[t := KSignal]\<rparr>" by (simp add: exec_def)
    with KSet flag mutex j same show ?thesis by (intro w_ok_worker [OF ok t(1) j, of _ KSignal]) (simp_all add: worker_holds_def)
  next
    case KSignal
    with e t have "s' = s\<lparr>wpc := (if wpc s = WWait \<and> wmutex s \<noteq> Some Main then WRelock else wpc s), workers := (workers s)[t := KUnlock]\<rparr>"
      by (simp add: exec_def)
    with KSignal flag mutex j same show ?thesis by (intro w_ok_worker [OF ok t(1) j, of _ KUnlock]) (simp_all add: worker_holds_def)
  next
    case KUnlock
    with e t have "s' = s\<lparr>wmutex := None, workers := (workers s)[t := KEnd]\<rparr>" by (simp add: exec_def)
    with KUnlock flag mutex j same show ?thesis by (intro w_ok_worker [OF ok t(1) j, of _ KEnd]) (simp_all add: worker_holds_def)
  qed (use e t in \<open>simp add: exec_def\<close>)
qed

lemma w_ok_reach: "wreach s \<Longrightarrow> w_ok s"
proof (induction rule: wreach.induct)
  case (wspurious s)
  then show ?case by (simp add: w_ok_def)
qed (auto intro: w_ok_init w_ok_main w_ok_exec)

section \<open>Properties\<close>

text \<open>With the mutex the counter is exact: in every interleaving of any number of threads every step comes nearer to the end, some thread can always go on until all are done, and then
  the counter is the number of increments and the values were printed in order from 1 on.\<close>

theorem counter_exact:
  assumes "creach (doit_mutex n) k s"
  shows "(\<forall>t s'. doit_mutex n t s = Some s' \<longrightarrow> count_work n s' < count_work n s) \<and>
    ((\<exists>t s'. doit_mutex n t s = Some s') \<or> all_done n s \<and> counter s = int (k * n) \<and> map snd (printed s) = [1..int (k * n)])"
proof (intro conjI allI impI)
  fix t s'
  assume "doit_mutex n t s = Some s'"
  then show "count_work n s' < count_work n s" using mutexed.moves moved_work by blast
next
  show "(\<exists>t s'. doit_mutex n t s = Some s') \<or> all_done n s \<and> counter s = int (k * n) \<and> map snd (printed s) = [1..int (k * n)]"
    using mutexed.done_or_moves [OF assms] printed_in_order [OF assms] by auto
qed

theorem counter_exact_witness:
  "(\<exists>t s'. doit_mutex 5000 t (counting_init 2) = Some s') \<or> all_done 5000 (counting_init 2) \<and> counter (counting_init 2) = int (2 * 5000)"
  using counter_exact [OF cstart [of "doit_mutex 5000" 2]] by blast

text \<open>C34. The producer and the consumer: in every interleaving, with spurious wake-ups in between, every step of theirs comes nearer to the end, one of them can always go on until both are done, and then the values have
  been consumed in the order in which they were produced, none lost and none twice, whatever the buffer held before.\<close>

theorem prodcons_delivers:
  assumes "qreach n b s" and "length b = BUFFSIZE"
  shows "(\<forall>s'. qstep n s s' \<longrightarrow> q_work n s' < q_work n s) \<and>
    ((\<exists>s'. qstep n s s') \<or> pi s = n \<and> ki s = n \<and> consumed s = map int [0..<n])"
proof (intro conjI allI impI)
  fix s'
  assume "qstep n s s'"
  then show "q_work n s' < q_work n s" by (rule q_work_step)
next
  have ok: "q_ok n s" by (rule q_ok_reach [OF assms])
  show "(\<exists>s'. qstep n s s') \<or> pi s = n \<and> ki s = n \<and> consumed s = map int [0..<n]"
  proof (cases "pi s < n \<or> ki s < n")
    case True
    from q_never_stuck [OF ok True] show ?thesis by (auto intro: qproduce qconsume)
  next
    case False
    then have e: "pi s = n" "ki s = n" "ppc s = Lock" "kpc s = Lock" using ok by (auto simp: q_ok_def q_lock_def)
    then have b: "consumed s @ slots (b_buf s) (b_nextget s) (b_nitems s) = map int [0..<n]" "length (consumed s) = n"
      using ok by (simp_all add: q_ok_def q_buf_def produced_def)
    from arg_cong [OF b(1), of length] have "length (consumed s) + b_nitems s = n" by simp
    with b e show ?thesis by simp
  qed
qed

theorem prodcons_delivers_witness:
  "(\<exists>s'. qstep 50 (prodcons_init (replicate 10 0)) s') \<or> pi (prodcons_init (replicate 10 0)) = 50"
  using prodcons_delivers [OF qstart [of 50 "replicate 10 0"]] by auto

text \<open>A given interleaving of \<^verbatim>\<open>condition_var.c\<close>.\<close>

fun wplay :: "who list \<Rightarrow> cond_main \<Rightarrow> cond_main option" where
  "wplay [] s = Some s"
| "wplay (Main # ms) s = (case collect_main s of None \<Rightarrow> None | Some s' \<Rightarrow> wplay ms s')"
| "wplay (Worker t # ms) s = (case exec t s of None \<Rightarrow> None | Some s' \<Rightarrow> wplay ms s')"

lemma wplay_reach: "wreach s \<Longrightarrow> wplay ms s = Some s' \<Longrightarrow> wreach s'"
  by (induction ms s rule: wplay.induct) (auto intro: wmain wexec split: option.splits)

text \<open>When the main thread of \<^verbatim>\<open>condition_var.c\<close> returns, it has joined each of its threads exactly once.\<close>

theorem collect_joins_all:
  assumes "wreach s" and "wpc s = WReturn"
  shows "distinct (joined s) \<and> set (joined s) = {0, 1, 2} \<and> workers s = replicate 3 KEnd"
proof -
  have ok: "w_ok s" by (rule w_ok_reach [OF assms(1)])
  have sub: "set (joined s) \<subseteq> {0, 1, 2}" using w_joined(2) [OF ok] by (auto simp: less_Suc_eq eval_nat_numeral)
  have "3 \<le> length (joined s)" using w_main(3) [OF ok assms(2)] w_joined(3) [OF ok] by simp
  then have "3 \<le> card (set (joined s))" using distinct_card [OF w_joined(1) [OF ok]] by simp
  with sub have eq: "set (joined s) = {0, 1, 2}" by (intro card_seteq) auto
  have "workers s ! t = KEnd" if "t < 3" for t using that eq w_joined(2) [OF ok, of t] by (auto simp: less_Suc_eq eval_nat_numeral)
  then have "workers s = replicate 3 KEnd" using w_len(1) [OF ok] by (intro nth_equalityI) auto
  with eq w_joined(1) [OF ok] show ?thesis by blast
qed

theorem collect_joins_all_witness:
  "\<exists>s. wreach s \<and> wpc s = WReturn \<and> set (joined s) = {0, 1, 2}"
proof -
  obtain s where s: "wplay (replicate 3 Main @ concat (map (\<lambda>t. replicate 5 (Worker t)) [0, 1, 2]) @ replicate 7 Main) cond_main_init = Some s"
    by (simp add: cond_main_init_def collect_main_def exec_def eval_nat_numeral)
  then have "wpc s = WReturn" by (auto simp: cond_main_init_def collect_main_def exec_def eval_nat_numeral)
  with collect_joins_all [OF wplay_reach [OF wstart s]] wplay_reach [OF wstart s] show ?thesis by blast
qed

lemma racy_loses_half: "\<exists>s. creach (doit_racy (Suc m)) 2 s \<and> all_done (Suc m) s \<and> counter s = int (Suc m)"
proof -
  let ?n = "Suc m" and ?e = "\<lambda>i. \<lparr>iter = i, cpc = Enter\<rparr>"
  let ?s1 = "(counting_init 2)\<lparr>adders := [\<lparr>iter = 0, cpc = Store 0\<rparr>, ?e 0]\<rparr>"
  have "doit_racy ?n 0 (counting_init 2) = Some ?s1" by (simp add: doit_racy_def counting_init_def eval_nat_numeral)
  from cmore [OF cstart [of "doit_racy ?n" 2] this] have r1: "creach (doit_racy ?n) 2 ?s1" .
  from racy_alone [OF r1, of 1 0 ?n] obtain s2 where s2: "creach (doit_racy ?n) 2 s2" "adders s2 = [\<lparr>iter = 0, cpc = Store 0\<rparr>, ?e ?n]" by auto
  then obtain s3 where s3: "doit_racy ?n 0 s2 = Some s3" "counter s3 = 1" "adders s3 = [?e 1, ?e ?n]" by (auto simp: doit_racy_def Let_def)
  from racy_alone [OF cmore [OF s2(1) s3(1)], of 0 1 m] s3 obtain s4 where
    "creach (doit_racy ?n) 2 s4" "counter s4 = 1 + int m" "adders s4 = [?e ?n, ?e ?n]" by auto
  then show ?thesis by (intro exI [of _ s4]) (auto simp: all_done_def less_Suc_eq)
qed

text \<open>C40. What goes wrong without a mutex, and when a wait does not test what it waits for. Two threads that count without a mutex can end with half of the increments lost. In
  \<^verbatim>\<open>condition_var.c\<close> the threads may all have ended before the main thread waits for the first signal: then nothing can move any more.\<close>

theorem threads_go_wrong:
  "(\<exists>s. creach (doit_racy (Suc m)) 2 s \<and> all_done (Suc m) s \<and> counter s = int (Suc m)) \<and>
   (\<exists>s. wreach s \<and> wpc s = WWait \<and> joined s = [] \<and> workers s = replicate 3 KEnd \<and> collect_main s = None \<and> (\<forall>t. exec t s = None))"
proof
  obtain s where s: "wplay (concat (map (\<lambda>t. replicate 5 (Worker t)) [0, 1, 2]) @ [Main, Main, Main]) cond_main_init = Some s"
    by (simp add: cond_main_init_def collect_main_def exec_def eval_nat_numeral)
  then have "wpc s = WWait \<and> joined s = [] \<and> workers s = replicate 3 KEnd \<and> collect_main s = None \<and> (\<forall>t. exec t s = None)"
    by (auto simp: cond_main_init_def collect_main_def exec_def eval_nat_numeral nth_Cons split: nat.splits)
  with wplay_reach [OF wstart s]
  show "\<exists>s. wreach s \<and> wpc s = WWait \<and> joined s = [] \<and> workers s = replicate 3 KEnd \<and> collect_main s = None \<and> (\<forall>t. exec t s = None)" by blast
qed (rule racy_loses_half)

end
