(* ===== verification/Spec2Isabelle.thy ===== *)
theory Spec2Isabelle
  imports Echo Func_Lib Rtt Sigio Nonblock Select_Server Getaddrinfo_Free Web Web_Thread Thread_Pool Prefork Net_Connect Icmpd Poll_Server Ping Traceroute Getaddrinfo_Type Broadcast Udp_Cksum Datagram Bsd_Ping Thread_Examples
begin

text \<open>
  A verification of the C programs of this repository: the teaching programs in \<^verbatim>\<open>socket\<close>, \<^verbatim>\<open>func\<close>, \<^verbatim>\<open>container\<close>,
  \<^verbatim>\<open>thread\<close>, and the network programming library and programs in \<^verbatim>\<open>unpv13e\<close> they are modelled on. This theory
  joins the components; the properties stand in the theories of the components.

  \<^bold>\<open>The program.\<close> At the bottom is the stream layer, \<^verbatim>\<open>readn\<close>, \<^verbatim>\<open>writen\<close> and \<^verbatim>\<open>readline\<close>, which every stream client
  and server calls. On it stand the echo clients and servers, in the variants one process per client,
  one thread per client, \<^verbatim>\<open>select\<close>, non-blocking descriptors, signal-driven datagrams. The address layer turns text
  into addresses (\<^verbatim>\<open>inet_pton\<close>, \<^verbatim>\<open>inet_ntop\<close>) and host and service names into lists of endpoints (\<^verbatim>\<open>getaddrinfo\<close>, in two
  implementations) and back (\<^verbatim>\<open>getnameinfo\<close>). Datagram clients add timeouts and retransmission (\<^verbatim>\<open>rtt.c\<close>,
  \<^verbatim>\<open>dg_send_recv\<close>). The web clients fetch files over parallel connections, with non-blocking sockets or with
  threads. The container library (\<^verbatim>\<open>container/list.c\<close>, \<^verbatim>\<open>func/stack.c\<close>, \<^verbatim>\<open>func/list.c\<close>) is independent of the network.

  \<^bold>\<open>How it is modelled.\<close> Every C function is one definition over explicit state. A system call is either a function
  argument constrained by a locale (\<open>byte_source\<close>, \<open>byte_sink\<close>, \<open>byte_kernel\<close>), or its answers are an argument of the
  step that makes the call (records such as \<open>sel_env\<close>, \<open>web_env\<close>, \<open>answers\<close>), so that the theorems hold for every behaviour of the
  kernel. An operation whose behaviour C leaves undefined has the value \<open>UB\<close> (type \<open>c_value\<close>), ending the process
  is \<open>Exit\<close> (type \<open>run\<close>), memory that may be exhausted is a budget of allocations (record \<open>gst\<close>) and a heap
  is a finite map with null, valid and indeterminate pointers. Machine integers have their width where wrap-around matters.
  Where two programs share their code up to a few lines, they share a definition with the difference as an argument, and each
  program has a definition of its own on top.

  \<^bold>\<open>The theories.\<close>
  \<^item> \<open>CPrelude\<close>: machine types, results, buffers, descriptor sets, counting.
  \<^item> \<open>Byte_Io\<close>: \<^verbatim>\<open>readn\<close>, \<^verbatim>\<open>writen\<close>, \<^verbatim>\<open>readline\<close> of \<^verbatim>\<open>unpv13e/lib\<close>, of \<^verbatim>\<open>socket/socket_func.c\<close> and of the threads
    programs, over any source and sink of bytes. \<open>Kern\<close> joins both into one kernel, interprets the locales
    on it and states the properties: the routines transfer exactly the bytes asked for whatever the partial results and
    interruptions, and where they lose or overrun data.
  \<^item> \<open>Echo\<close>: the loops of the echo and adding services on the stream routines: what comes back is what was sent.
  \<^item> \<open>Select_Server\<close>: the two \<^verbatim>\<open>select\<close> servers, an invariant of set, array and maxima kept by every iteration.
  \<^item> \<open>Nonblock\<close>: the two non-blocking clients: no byte is lost, duplicated or reordered, until the end of file.
  \<^item> \<open>Sigio\<close>: the signal-driven server, main loop and handler interleaved: datagrams are answered in order.
  \<^item> \<open>Rtt\<close>: the estimator and \<^verbatim>\<open>dg_send_recv\<close> against every sequence of datagrams and alarms.
  \<^item> \<open>Inet_Addr\<close>, \<open>Inet6_Addr\<close>: addresses in text form, both families and directions, and the Internet checksum.
  \<^item> \<open>Getaddrinfo\<close>, \<open>Getaddrinfo_Free\<close>: both implementations of \<^verbatim>\<open>getaddrinfo\<close> and \<^verbatim>\<open>getnameinfo\<close>: the endpoints found, the
    memory used and freed, the round trip, the agreement of the two.
  \<^item> \<open>Web\<close>, \<open>Web_Thread\<close>: the web clients: the counters, the limit on connections, what they wait for, and the only
    deadlock of the threaded one.
  \<^item> \<open>Heap_List\<close>, \<open>Func_Lib\<close>: the containers as refinements of lists (locales \<open>string_container\<close> and
    \<open>bounded_stack\<close>), with the calls C leaves undefined.

  \<^bold>\<open>Loops, bounds and fuel.\<close> Loops whose end depends on the kernel are \<open>partial_function (option)\<close>, where not
  returning is \<open>None\<close>; the theorems state that they return under the laws of the kernel. The loops of programs that run forever
  are one iteration each, closed under an inductive reachability predicate. No definition uses fuel. Recursion over
  lists and counters is total, with a measure where it is not structural. Buffer sizes and table sizes are those of the
  sources.

  \<^bold>\<open>Not modelled.\<close> Diagnostics written with \<^verbatim>\<open>printf\<close> and the error-reporting routines beyond the exit they end with;
  the wrapper functions that only test a result and exit; the demonstrations that consist of one library call each
  (\<^verbatim>\<open>array\<close>, \<^verbatim>\<open>io\<close>, \<^verbatim>\<open>process\<close>, \<^verbatim>\<open>signal\<close>, most of \<^verbatim>\<open>thread\<close>); programs around kernel interfaces with no behaviour of
  their own (routing and key sockets, SCTP, STREAMS, interface ioctls, multicast set-up), whose structures are
  those of system headers outside the repository.
\<close>

end
